(* ===== verification/Prelude.thy ===== *)
theory Prelude
  imports Main "HOL-Library.AList" "HOL-Library.Word"
begin

text \<open>
  Shared material of the development: how a JavaScript method returns or throws, the
  collections of simplification rules the component theories fill, and generic facts on
  lists and association lists.
\<close>

named_theorems js_num \<open>facts on JavaScript numbers\<close>
named_theorems js_obj \<open>facts on JavaScript property access\<close>
named_theorems tracer_defs \<open>definitions of the tracers' handlers\<close>

type_synonym byte = "8 word"
type_synonym u64 = "64 word"

text \<open>Addresses (20 bytes) and hashes (32 bytes) are lists of bytes.\<close>

type_synonym address = "byte list"
type_synonym bytes32 = "byte list"

section \<open>Outcomes of JavaScript methods\<close>

text \<open>
  A method of a tracer object mutates the object and then returns a value, or throws. A throw
  keeps what was already mutated, so both outcomes carry the object. \<open>GoPanic\<close> is a
  panic of the Go code that a host function runs.
\<close>

datatype js_error =
    TypeError
  | JsThrow string
  | GoPanic string

datatype ('s, 'a) outcome =
    Return 'a 's
  | Throw js_error 's

fun obj_of :: "('s, 'a) outcome \<Rightarrow> 's" where
  "obj_of (Return _ s) = s"
| "obj_of (Throw _ s) = s"

fun thrown :: "('s, 'a) outcome \<Rightarrow> js_error option" where
  "thrown (Return _ _) = None"
| "thrown (Throw e _) = Some e"

text \<open>Sequencing: the second computation runs only when the first one returned.\<close>

fun andThen :: "('s, 'a) outcome \<Rightarrow> ('a \<Rightarrow> 's \<Rightarrow> ('s, 'b) outcome) \<Rightarrow> ('s, 'b) outcome" where
  "andThen (Return a s) f = f a s"
| "andThen (Throw e s) f = Throw e s"

text \<open>An expression that may throw before anything is mutated.\<close>

fun evalTo :: "js_error + 'a \<Rightarrow> 's \<Rightarrow> ('a \<Rightarrow> ('s, 'b) outcome) \<Rightarrow> ('s, 'b) outcome" where
  "evalTo (Inl e) s f = Throw e s"
| "evalTo (Inr a) s f = f a"

lemma andThen_assoc:
  "andThen (andThen m f) g = andThen m (\<lambda>a s. andThen (f a s) g)"
  by (cases m) simp_all

lemma andThen_Return_iff:
  "andThen m f = Return b s' \<longleftrightarrow> (\<exists>a s. m = Return a s \<and> f a s = Return b s')"
  by (cases m) simp_all

lemma andThen_Throw_iff:
  "andThen m f = Throw e s' \<longleftrightarrow> m = Throw e s' \<or> (\<exists>a s. m = Return a s \<and> f a s = Throw e s')"
  by (cases m) auto

lemma map_sum_Inr_iff: "map_sum id f x = Inr y \<longleftrightarrow> (\<exists>z. x = Inr z \<and> y = f z)"
  by (cases x) auto

section \<open>Lists\<close>

lemma last_conv_butlast: "xs \<noteq> [] \<Longrightarrow> butlast xs @ [last xs] = xs"
  by simp

lemma take_length_append [simp]: "take (length xs) (xs @ ys) = xs"
  by simp

lemma list_update_last: "xs \<noteq> [] \<Longrightarrow> xs[length xs - 1 := y] = butlast xs @ [y]"
  by (induction xs) (auto split: nat.splits simp: neq_Nil_conv)

lemma nth_update_notin: "a \<notin> S \<Longrightarrow> x \<in> S \<Longrightarrow> xs[a := v] ! x = xs ! x"
  by (metis nth_list_update_neq)

lemma length_filter_mono:
  "(\<And>x. x \<in> set xs \<Longrightarrow> P x \<Longrightarrow> Q x) \<Longrightarrow> length (filter P xs) \<le> length (filter Q xs)"
  by (induction xs) (auto intro: le_SucI)

section \<open>Association lists\<close>

lemma map_of_update [simp]:
  "map_of (AList.update k v al) k' = (if k = k' then Some v else map_of al k')"
  by (simp add: update_conv')

lemma set_keys_update [simp]: "fst ` set (AList.update k v al) = insert k (fst ` set al)"
  by (metis dom_map_of_conv_image_fst dom_fun_upd option.distinct(1) update_conv')

lemma set_update_mem: "(a, q) \<in> set (AList.update k v al) \<Longrightarrow> a = k \<and> q = v \<or> (a, q) \<in> set al"
  by (induction al) (auto split: if_splits)

section \<open>Words of 64 bits as natural numbers\<close>

named_theorems u64_nat \<open>readings of operations on 64 bits as natural numbers\<close>

lemma u64_less [u64_nat]: "(a :: u64) < b \<longleftrightarrow> unat a < unat b"
  by (simp add: word_less_nat_alt)

lemma u64_le [u64_nat]: "(a :: u64) \<le> b \<longleftrightarrow> unat a \<le> unat b"
  by (simp add: word_le_nat_alt)

lemma u64_bound: "unat (a :: u64) < 2 ^ 64"
  using unsigned_less [of a] by simp

lemma u64_diff: "(b :: u64) \<le> a \<Longrightarrow> unat (a - b) = unat a - unat b"
  by (simp add: unat_sub)

lemma u64_plus: "unat (a :: u64) + unat b < 2 ^ 64 \<Longrightarrow> unat (a + b) = unat a + unat b"
  by (simp add: unat_word_ariths(1))

lemma max64_nat [u64_nat]: "unat (- 1 - a :: u64) = 2 ^ 64 - 1 - unat a"
proof -
  have "a \<le> - 1" by simp
  then show ?thesis by (simp only: u64_diff) (simp add: unsigned_minus_1_eq_mask mask_eq_exp_minus_1)
qed

lemma signed_take_bit_63:
  fixes n :: nat
  assumes "n < 2 ^ 64"
  shows "signed_take_bit 63 (int n) = (if n < 2 ^ 63 then int n else int n - 2 ^ 64)"
proof (cases "n < 2 ^ 63")
  case True
  then show ?thesis by (simp add: signed_take_bit_int_eq_self)
next
  case False
  with assms have "signed_take_bit 63 (int n - 2 ^ 64) = int n - 2 ^ 64"
    by (intro signed_take_bit_int_eq_self) simp_all
  moreover have "signed_take_bit 63 (int n) = signed_take_bit 63 (int n - 2 ^ 64)"
    by (simp add: signed_take_bit_eq_iff_take_bit_eq take_bit_eq_mod)
  ultimately show ?thesis using False by simp
qed

lemma sint_u64: "sint (a :: u64) = (if unat a < 2 ^ 63 then int (unat a) else int (unat a) - 2 ^ 64)"
proof -
  have "unat a < 2 ^ 64" using unsigned_less [of a, where ?'a = nat] by simp
  from signed_take_bit_63 [OF this] show ?thesis by (simp add: sint_uint)
qed

end
