(* ===== verification/JS_Values.thy ===== *)
theory JS_Values
  imports Prelude "HOL-Library.Word"
begin

text \<open>
  The part of JavaScript that the tracers use: numbers (IEEE doubles, of which only integers
  occur), strings, objects with their prototype, and the arbitrary-precision integers of the
  embedded big-integer library.
\<close>

section \<open>Numbers\<close>

text \<open>
  Every number the tracers compute is an integer: gas amounts, depths, offsets and counters.
  A double holds an integer exactly up to \<open>2 ^ 53\<close>; above, a result is rounded to 53
  significant bits, ties to even. The values stay below \<open>2 ^ 257\<close>, far from infinity.
\<close>

fun bitlen :: "nat \<Rightarrow> nat" where
  "bitlen n = (if n = 0 then 0 else Suc (bitlen (n div 2)))"

declare bitlen.simps [simp del]

definition max_int :: nat where
  "max_int = 9007199254740992"

definition round_at :: "nat \<Rightarrow> nat \<Rightarrow> nat" where
  "round_at e n =
     (let q = n div 2 ^ e; r = 2 * (n mod 2 ^ e)
      in (if 2 ^ e < r \<or> (r = 2 ^ e \<and> odd q) then q + 1 else q) * 2 ^ e)"

definition round53 :: "nat \<Rightarrow> nat" where
  "round53 n = (if bitlen n \<le> 53 then n else round_at (bitlen n - 53) n)"

definition js_round :: "int \<Rightarrow> int" where
  "js_round v = (if v < 0 then - int (round53 (nat (- v))) else int (round53 (nat v)))"

definition js_add :: "int \<Rightarrow> int \<Rightarrow> int" where
  "js_add a b = js_round (a + b)"

definition js_sub :: "int \<Rightarrow> int \<Rightarrow> int" where
  "js_sub a b = js_round (a - b)"

lemma bitlen_0 [simp]: "bitlen 0 = 0"
  by (simp add: bitlen.simps)

lemma bitlen_pos: "0 < n \<Longrightarrow> bitlen n = Suc (bitlen (n div 2))"
  by (subst bitlen.simps) simp

lemma less_power_bitlen: "n < 2 ^ bitlen n"
proof (induction n rule: bitlen.induct)
  case (1 n)
  show ?case
  proof (cases "n = 0")
    case False
    then have "n div 2 < 2 ^ bitlen (n div 2)" by (rule "1.IH")
    then have "n < 2 * 2 ^ bitlen (n div 2)" by linarith
    with False show ?thesis by (simp add: bitlen_pos)
  qed simp
qed

lemma power_bitlen_le: "0 < n \<Longrightarrow> 2 ^ (bitlen n - 1) \<le> n"
proof (induction n rule: bitlen.induct)
  case (1 n)
  show ?case
  proof (cases "n div 2 = 0")
    case True
    with "1.prems" show ?thesis by (simp add: bitlen_pos)
  next
    case False
    then have "2 ^ (bitlen (n div 2) - 1) \<le> n div 2" using "1" by simp
    then have "2 * 2 ^ (bitlen (n div 2) - 1) \<le> n" by linarith
    moreover have "0 < bitlen (n div 2)" using False by (simp add: bitlen_pos)
    ultimately show ?thesis using "1.prems" False
      by (simp add: bitlen_pos power_Suc [symmetric] del: power_Suc)
  qed
qed

lemma bitlen_le_iff: "bitlen n \<le> k \<longleftrightarrow> n < 2 ^ k"
proof
  assume "bitlen n \<le> k"
  then have "(2::nat) ^ bitlen n \<le> 2 ^ k" by simp
  then show "n < 2 ^ k" using less_power_bitlen [of n] by linarith
next
  assume n: "n < 2 ^ k"
  show "bitlen n \<le> k"
  proof (cases "n = 0")
    case False
    then have "(2::nat) ^ (bitlen n - 1) < 2 ^ k"
      using power_bitlen_le [of n] n by linarith
    then show ?thesis using False by simp
  qed simp
qed

lemma round53_small: "n < 2 ^ 53 \<Longrightarrow> round53 n = n"
  by (simp add: round53_def bitlen_le_iff del: power_numeral)

lemma bitlen_max_int: "bitlen max_int = 54"
proof -
  have "bitlen max_int \<le> 54" by (simp add: bitlen_le_iff max_int_def)
  moreover have "\<not> bitlen max_int \<le> 53" by (simp add: bitlen_le_iff max_int_def)
  ultimately show ?thesis by simp
qed

lemma bitlen_max_int_Suc: "bitlen (Suc max_int) = 54"
proof -
  have "bitlen (Suc max_int) \<le> 54" by (simp add: bitlen_le_iff max_int_def)
  moreover have "\<not> bitlen (Suc max_int) \<le> 53" by (simp add: bitlen_le_iff max_int_def)
  ultimately show ?thesis by simp
qed

lemma round53_exact: "n \<le> max_int \<Longrightarrow> round53 n = n"
proof (cases "n = max_int")
  case True
  then show ?thesis
    by (simp add: round53_def bitlen_max_int round_at_def) (simp add: max_int_def)
next
  case False
  assume "n \<le> max_int"
  with False have "n < 2 ^ 53" by (simp add: max_int_def)
  then show ?thesis by (rule round53_small)
qed

lemma round53_saturates: "round53 (Suc max_int) = max_int"
  by (simp add: round53_def bitlen_max_int_Suc round_at_def) (simp add: max_int_def)

lemma js_round_exact [js_num]: "\<bar>v\<bar> \<le> int max_int \<Longrightarrow> js_round v = v"
  by (auto simp: js_round_def round53_exact)

lemma js_add_exact [js_num]: "\<bar>a + b\<bar> \<le> int max_int \<Longrightarrow> js_add a b = a + b"
  by (simp add: js_add_def js_round_exact)

lemma js_sub_exact [js_num]: "\<bar>a - b\<bar> \<le> int max_int \<Longrightarrow> js_sub a b = a - b"
  by (simp add: js_sub_def js_round_exact)

lemma js_round_0 [simp]: "js_round 0 = 0"
  by (simp add: js_round_exact)

text \<open>A counter that is incremented sticks at \<open>2 ^ 53\<close>.\<close>

lemma js_inc_saturates: "js_add (int max_int) 1 = int max_int"
proof -
  have "js_add (int max_int) 1 = int (round53 (nat (int max_int + 1)))"
    by (simp add: js_add_def js_round_def)
  also have "nat (int max_int + 1) = Suc max_int" by simp
  finally show ?thesis by (simp add: round53_saturates)
qed

lemma js_inc_min: "js_add (int (min n max_int)) 1 = int (min (Suc n) max_int)"
proof (cases "n < max_int")
  case True
  then show ?thesis by (simp add: js_add_exact min_def)
next
  case False
  then show ?thesis by (simp add: js_inc_saturates min_def)
qed

subsection \<open>Rounding is monotone and idempotent\<close>

lemma round_at_cases:
  "round_at e n = n div 2 ^ e * 2 ^ e \<or> round_at e n = (n div 2 ^ e + 1) * 2 ^ e"
  by (simp add: round_at_def Let_def)

lemma round_at_mono:
  assumes "n \<le> m"
  shows "round_at e n \<le> round_at e m"
proof (cases "n div 2 ^ e = m div 2 ^ e")
  case True
  have "n div 2 ^ e * 2 ^ e + n mod 2 ^ e \<le> m div 2 ^ e * 2 ^ e + m mod 2 ^ e"
    using assms by (simp only: div_mult_mod_eq)
  with True have "n mod 2 ^ e \<le> m mod 2 ^ e" by simp
  with True show ?thesis by (auto simp: round_at_def Let_def)
next
  case False
  then have less: "n div 2 ^ e + 1 \<le> m div 2 ^ e" using assms div_le_mono [of n m "2 ^ e"] by simp
  have "round_at e n \<le> (n div 2 ^ e + 1) * 2 ^ e" using round_at_cases [of e n] by auto
  also have "\<dots> \<le> m div 2 ^ e * 2 ^ e" using less by (rule mult_le_mono1)
  also have "\<dots> \<le> round_at e m" using round_at_cases [of e m] by auto
  finally show ?thesis .
qed

lemma round_at_exact: "2 ^ e dvd n \<Longrightarrow> round_at e n = n"
  by (auto simp: round_at_def Let_def)

lemma round53_bounds:
  assumes "0 < n"
  shows "2 ^ (bitlen n - 1) \<le> round53 n" "round53 n \<le> 2 ^ bitlen n"
proof -
  have n: "2 ^ (bitlen n - 1) \<le> n" "n \<le> 2 ^ bitlen n"
    using power_bitlen_le [OF assms] less_power_bitlen [of n] by simp_all
  show "2 ^ (bitlen n - 1) \<le> round53 n"
  proof (cases "bitlen n \<le> 53")
    case False
    have "round_at (bitlen n - 53) (2 ^ (bitlen n - 1)) = 2 ^ (bitlen n - 1)"
      using False by (intro round_at_exact le_imp_power_dvd) simp
    with round_at_mono [OF n(1), of "bitlen n - 53"] False show ?thesis by (simp add: round53_def)
  qed (use n(1) in \<open>simp add: round53_def\<close>)
  show "round53 n \<le> 2 ^ bitlen n"
  proof (cases "bitlen n \<le> 53")
    case False
    have "round_at (bitlen n - 53) (2 ^ bitlen n) = 2 ^ bitlen n"
      using False by (intro round_at_exact le_imp_power_dvd) simp
    with round_at_mono [OF n(2), of "bitlen n - 53"] False show ?thesis by (simp add: round53_def)
  qed (simp add: round53_def n)
qed

lemma bitlen_mono: "n \<le> m \<Longrightarrow> bitlen n \<le> bitlen m"
  by (meson bitlen_le_iff le_less_trans less_power_bitlen)

lemma round53_mono: "n \<le> m \<Longrightarrow> round53 n \<le> round53 m"
proof -
  assume le: "n \<le> m"
  consider "n = 0" | "0 < n" "bitlen n = bitlen m" | "0 < n" "bitlen n < bitlen m"
    using bitlen_mono [OF le] by linarith
  then show ?thesis
  proof cases
    case 1
    then show ?thesis by (simp add: round53_def)
  next
    case 2
    with le round_at_mono [OF le] show ?thesis by (simp add: round53_def)
  next
    case 3
    have "round53 n \<le> 2 ^ bitlen n" by (rule round53_bounds(2) [OF 3(1)])
    also have "\<dots> \<le> 2 ^ (bitlen m - 1)" using 3(2) by (intro power_increasing) simp_all
    also have "\<dots> \<le> round53 m" using 3(1) le by (intro round53_bounds(1)) simp
    finally show ?thesis .
  qed
qed

lemma round53_dvd: "2 ^ (bitlen n - 53) dvd n \<Longrightarrow> round53 n = n"
  by (simp add: round53_def round_at_exact)

lemma bitlen_power [simp]: "bitlen (2 ^ k) = Suc k"
proof -
  have "bitlen (2 ^ k) \<le> Suc k" by (simp add: bitlen_le_iff)
  moreover have "\<not> bitlen (2 ^ k) \<le> k" by (simp add: bitlen_le_iff)
  ultimately show ?thesis by simp
qed

lemma round53_idem [simp]: "round53 (round53 n) = round53 n"
proof (cases "bitlen n \<le> 53")
  case True
  then show ?thesis by (simp add: round53_def)
next
  case False
  let ?v = "round53 n"
  have pos: "0 < n" using False by (cases "n = 0") simp_all
  have dvd: "2 ^ (bitlen n - 53) dvd ?v"
    using False round_at_cases [of "bitlen n - 53" n] by (auto simp: round53_def)
  show ?thesis
  proof (cases "?v = 2 ^ bitlen n")
    case True
    then show ?thesis by (simp only: True) (intro round53_dvd, simp add: le_imp_power_dvd)
  next
    case False
    with round53_bounds(2) [OF pos] have "bitlen ?v \<le> bitlen n" by (simp add: bitlen_le_iff)
    then have "(2::nat) ^ (bitlen ?v - 53) dvd 2 ^ (bitlen n - 53)"
      by (intro le_imp_power_dvd) simp
    with dvd show ?thesis by (intro round53_dvd) (rule dvd_trans)
  qed
qed

lemma js_round_idem [simp]: "js_round (js_round v) = js_round v"
proof (cases "v < 0")
  case True
  have "0 < round53 (nat (- v))"
    using round53_bounds(1) [of "nat (- v)"] True by (metis less_le_trans neg_0_less_iff_less
        zero_less_nat_eq zero_less_numeral zero_less_power)
  then show ?thesis using True by (simp add: js_round_def)
next
  case False
  then show ?thesis by (simp add: js_round_def)
qed

lemma js_round_mono: "0 \<le> a \<Longrightarrow> a \<le> b \<Longrightarrow> js_round a \<le> js_round b"
  by (simp add: js_round_def round53_mono nat_mono)

lemma js_round_nonneg [simp]: "0 \<le> a \<Longrightarrow> 0 \<le> js_round a"
  by (simp add: js_round_def)

text \<open>Adding a non-negative amount to a double never gives less than the double.\<close>

lemma js_add_ge: "0 \<le> a \<Longrightarrow> 0 \<le> b \<Longrightarrow> js_round a \<le> js_add (js_round a) b"
  using js_round_mono [of "js_round a" "js_round a + b"] by (simp add: js_add_def)

section \<open>Digits\<close>

text \<open>
  \<open>toBase\<close> of the big-integer library: digits are produced from the least significant
  one while the rest is at least the base, and the list is reversed at the end.
\<close>

fun to_digits :: "nat \<Rightarrow> nat \<Rightarrow> nat list" where
  "to_digits b n = (if n < b \<or> b < 2 then [n] else to_digits b (n div b) @ [n mod b])"

declare to_digits.simps [simp del]

definition of_digits :: "nat \<Rightarrow> nat list \<Rightarrow> nat" where
  "of_digits b ds = foldl (\<lambda>acc d. acc * b + d) 0 ds"

definition digit_chars :: string where
  "digit_chars = ''0123456789abcdefghijklmnopqrstuvwxyz''"

definition stringify :: "nat \<Rightarrow> char" where
  "stringify d = (if d \<le> 35 then digit_chars ! d else CHR ''?'')"

definition digit_value :: "char \<Rightarrow> nat" where
  "digit_value c = length (takeWhile (\<lambda>x. x \<noteq> c) digit_chars)"

definition nat_to_base :: "nat \<Rightarrow> nat \<Rightarrow> string" where
  "nat_to_base b n = map stringify (to_digits b n)"

definition toBase :: "nat \<Rightarrow> int \<Rightarrow> string" where
  "toBase b v = (if v < 0 then CHR ''-'' # nat_to_base b (nat (- v)) else nat_to_base b (nat v))"

definition parseBase :: "nat \<Rightarrow> string \<Rightarrow> int" where
  "parseBase b s =
     (case s of
        CHR ''-'' # ds \<Rightarrow> - int (of_digits b (map digit_value ds))
      | ds \<Rightarrow> int (of_digits b (map digit_value ds)))"

lemma of_digits_snoc: "of_digits b (ds @ [d]) = of_digits b ds * b + d"
  by (simp add: of_digits_def)

lemma of_digits_single [simp]: "of_digits b [d] = d"
  by (simp add: of_digits_def)

lemma of_to_digits: "of_digits b (to_digits b n) = n"
proof (induction b n rule: to_digits.induct)
  case (1 b n)
  then show ?case
    by (cases "n < b \<or> b < 2") (auto simp: to_digits.simps [of b n] of_digits_snoc)
qed

lemma to_digits_less: "2 \<le> b \<Longrightarrow> d \<in> set (to_digits b n) \<Longrightarrow> d < b"
proof (induction b n rule: to_digits.induct)
  case (1 b n)
  then show ?case
    by (cases "n < b \<or> b < 2") (auto simp: to_digits.simps [of b n])
qed

lemma to_digits_nonempty [simp]: "to_digits b n \<noteq> []"
  by (subst to_digits.simps) simp

lemma digit_value_stringify_all: "\<forall>d \<in> set [0..<36]. digit_value (stringify d) = d"
  by code_simp

lemma digit_value_stringify [simp]: "d < 36 \<Longrightarrow> digit_value (stringify d) = d"
  using digit_value_stringify_all by simp

lemma stringify_not_minus_all: "\<forall>d \<in> set [0..<36]. stringify d \<noteq> CHR ''-''"
  by code_simp

lemma stringify_not_minus: "stringify d \<noteq> CHR ''-''"
proof (cases "d < 36")
  case True
  with stringify_not_minus_all show ?thesis by simp
qed (simp add: stringify_def)

lemma digits_of_nat_to_base:
  assumes "2 \<le> b" "b \<le> 36"
  shows "map digit_value (nat_to_base b n) = to_digits b n"
proof -
  have "digit_value (stringify d) = d" if "d \<in> set (to_digits b n)" for d
    using to_digits_less [OF assms(1) that] assms(2) by simp
  then show ?thesis by (simp add: nat_to_base_def map_idI)
qed

lemma parseBase_nat_to_base:
  assumes "2 \<le> b" "b \<le> 36"
  shows "parseBase b (nat_to_base b n) = int n"
proof -
  obtain d ds where d: "to_digits b n = d # ds"
    using to_digits_nonempty [of b n] by (cases "to_digits b n") auto
  then have "nat_to_base b n = stringify d # map stringify ds"
    by (simp add: nat_to_base_def)
  then have "parseBase b (nat_to_base b n) = int (of_digits b (map digit_value (nat_to_base b n)))"
    using stringify_not_minus [of d] by (auto simp: parseBase_def split: char.splits bool.splits)
  then show ?thesis by (simp add: digits_of_nat_to_base [OF assms] of_to_digits)
qed

lemma parseBase_toBase:
  assumes "2 \<le> b" "b \<le> 36"
  shows "parseBase b (toBase b v) = v"
proof (cases "v < 0")
  case True
  then show ?thesis
    by (simp add: toBase_def parseBase_def digits_of_nat_to_base [OF assms] of_to_digits)
next
  case False
  then show ?thesis by (simp add: toBase_def parseBase_nat_to_base [OF assms])
qed

lemma toBase_inj: "2 \<le> b \<Longrightarrow> b \<le> 36 \<Longrightarrow> toBase b v = toBase b w \<longleftrightarrow> v = w"
  by (metis parseBase_toBase)

section \<open>Numbers as strings\<close>

text \<open>
  A number is printed with the fewest decimal digits that still read back as the same double:
  the largest power of ten is taken for which a multiple of it rounds to the number. Below
  \<open>2 ^ 53\<close> that is the number itself. From \<open>10 ^ 21\<close> on the exponent form is used.
\<close>

primrec shortest_upto :: "nat \<Rightarrow> nat \<Rightarrow> nat" where
  "shortest_upto 0 v = v"
| "shortest_upto (Suc j) v =
     (let p = 10 ^ Suc j; lo = (v div p) * p; hi = lo + p
      in if round53 lo = v \<and> (round53 hi \<noteq> v \<or> v - lo \<le> hi - v) then lo
         else if round53 hi = v then hi
         else shortest_upto j v)"

definition shortest :: "nat \<Rightarrow> nat" where
  "shortest v = (if v < max_int then v else shortest_upto (length (to_digits 10 v)) v)"

definition strip_zeros :: "string \<Rightarrow> string" where
  "strip_zeros ds = rev (dropWhile (\<lambda>c. c = CHR ''0'') (rev ds))"

definition nat_to_string :: "nat \<Rightarrow> string" where
  "nat_to_string v =
     (let ds = nat_to_base 10 (shortest v); n = length ds
      in if n \<le> 21 then ds
         else (let fs = strip_zeros ds
               in [hd fs] @ (if tl fs = [] then [] else CHR ''.'' # tl fs) @ ''e+'' @
                  nat_to_base 10 (n - 1)))"

definition number_to_string :: "int \<Rightarrow> string" where
  "number_to_string v =
     (if v < 0 then CHR ''-'' # nat_to_string (nat (- v)) else nat_to_string (nat v))"

lemma nat_to_string_small: "v < max_int \<Longrightarrow> nat_to_string v = nat_to_base 10 v"
proof -
  assume v: "v < max_int"
  have len: "n < 10 ^ Suc k \<Longrightarrow> length (to_digits 10 n) \<le> Suc k" for n k
  proof (induction k arbitrary: n)
    case 0
    then show ?case by (simp add: to_digits.simps)
  next
    case (Suc k)
    then have "n div 10 < 10 ^ Suc k" by (simp add: less_mult_imp_div_less)
    then have "length (to_digits 10 (n div 10)) \<le> Suc k" by (rule Suc.IH)
    then show ?case by (subst to_digits.simps) simp
  qed
  from v have "v < 10 ^ Suc 20" by (simp add: max_int_def)
  then have "length (to_digits 10 v) \<le> 21" using len by fastforce
  then show ?thesis using v by (simp add: nat_to_string_def shortest_def nat_to_base_def)
qed

section \<open>The embedded big-integer library\<close>

text \<open>
  A big integer is an \<^typ>\<open>int\<close>. \<open>bigInt(n)\<close> of a number is exact while the number
  is precise and goes through the printed form otherwise; \<open>bigInt\<close> of \<open>NaN\<close> throws.
  A number operand that may be \<open>NaN\<close> (the result of arithmetic on \<open>undefined\<close>) is an
  \<^typ>\<open>int option\<close>. \<open>valueOf\<close> reads a big integer back as a double.
\<close>

type_synonym jsnum = "int option"

definition valueOf :: "int \<Rightarrow> int" where
  "valueOf v = js_round v"

definition isPrecise :: "int \<Rightarrow> bool" where
  "isPrecise v = (- int max_int < v \<and> v < int max_int)"

definition parseNumberValue :: "jsnum \<Rightarrow> js_error + int" where
  "parseNumberValue n =
     (case n of
        None \<Rightarrow> Inl (JsThrow ''Invalid integer: NaN'')
      | Some v \<Rightarrow> Inr (if isPrecise v then v
                       else if v < 0 then - int (shortest (nat (- v))) else int (shortest (nat v))))"

definition is_hex_digit :: "char \<Rightarrow> bool" where
  "is_hex_digit c = (c \<in> set (take 16 digit_chars))"

text \<open>
  \<open>bigInt(s)\<close> of a string, on the strings the tracers pass: \<open>0x\<close> and hexadecimal
  digits, which the numeric conversion of JavaScript accepts below \<open>2 ^ 53\<close>.
\<close>

definition parseStringValue :: "string \<Rightarrow> js_error + int" where
  "parseStringValue s =
     (if take 2 s = ''0x'' \<and> drop 2 s \<noteq> [] \<and> list_all is_hex_digit (drop 2 s) \<and>
         isPrecise (parseBase 16 (drop 2 s))
      then Inr (parseBase 16 (drop 2 s))
      else Inl (JsThrow (''Invalid integer: '' @ s)))"

abbreviation hex0x :: "int \<Rightarrow> string" where
  "hex0x v \<equiv> ''0x'' @ toBase 16 v"

fun num_sub :: "jsnum \<Rightarrow> jsnum \<Rightarrow> jsnum" where
  "num_sub (Some a) (Some b) = Some (js_sub a b)"
| "num_sub _ _ = None"

fun num_add :: "jsnum \<Rightarrow> jsnum \<Rightarrow> jsnum" where
  "num_add (Some a) (Some b) = Some (js_add a b)"
| "num_add _ _ = None"

lemma parseNumberValue_exact [js_num]:
  "\<bar>v\<bar> < int max_int \<Longrightarrow> parseNumberValue (Some v) = Inr v"
  by (auto simp: parseNumberValue_def isPrecise_def)

lemma parseBase_hex [simp]: "parseBase 16 (toBase 16 v) = v"
  by (simp add: parseBase_toBase)

section \<open>Values and objects\<close>

datatype jsval =
    JUndef
  | JNull
  | JBool bool
  | JNum int
  | JNaN
  | JStr string
  | JBuf "byte list"
  | JArr "jsval list"
  | JObj "(string \<times> jsval) list"

text \<open>
  An object literal is its own properties, in insertion order, over the built-in prototype:
  reading a name that is not an own property finds the prototype's functions first.
  Assigning a primitive to \<open>__proto__\<close> has no effect.
\<close>

type_synonym 'v jsobj = "(string \<times> 'v) list"

datatype 'v slot = Own 'v | Inherited | Missing

definition object_prototype :: "string list" where
  "object_prototype =
     [''constructor'', ''hasOwnProperty'', ''isPrototypeOf'', ''propertyIsEnumerable'',
      ''toLocaleString'', ''toString'', ''valueOf'', ''__proto__'', ''__defineGetter__'',
      ''__defineSetter__'', ''__lookupGetter__'', ''__lookupSetter__'']"

definition get_prop :: "'v jsobj \<Rightarrow> string \<Rightarrow> 'v slot" where
  "get_prop o' k =
     (case map_of o' k of
        Some v \<Rightarrow> Own v
      | None \<Rightarrow> if k \<in> set object_prototype then Inherited else Missing)"

definition set_prop :: "string \<Rightarrow> 'v \<Rightarrow> 'v jsobj \<Rightarrow> 'v jsobj" where
  "set_prop k v o' = (if k = ''__proto__'' then o' else AList.update k v o')"

text \<open>A name that cannot collide with the prototype.\<close>

definition plain_key :: "string \<Rightarrow> bool" where
  "plain_key k = (k \<notin> set object_prototype)"

lemma plain_key_not_proto [simp]: "plain_key k \<Longrightarrow> k \<noteq> ''__proto__''"
  by (auto simp: plain_key_def object_prototype_def)

lemma get_prop_empty [simp]: "plain_key k \<Longrightarrow> get_prop [] k = Missing"
  by (simp add: get_prop_def plain_key_def)

lemma get_set_prop [js_obj]:
  "plain_key k \<Longrightarrow> get_prop (set_prop k v o') k' = (if k = k' then Own v else get_prop o' k')"
  by (simp add: get_prop_def set_prop_def)

lemma map_of_set_prop [js_obj]:
  "plain_key k \<Longrightarrow> map_of (set_prop k v o') k' = (if k = k' then Some v else map_of o' k')"
  by (simp add: set_prop_def)

lemma get_prop_plain:
  "plain_key k \<Longrightarrow> get_prop o' k = (case map_of o' k of Some v \<Rightarrow> Own v | None \<Rightarrow> Missing)"
  by (simp add: get_prop_def plain_key_def)

lemma plain_key_mem: "c \<in> set k \<Longrightarrow> \<forall>n \<in> set object_prototype. c \<notin> set n \<Longrightarrow> plain_key k"
  by (auto simp: plain_key_def)

text \<open>Every name with a hyphen, and every name that starts with a capital, is plain.\<close>

lemma plain_key_hyphen: "CHR ''-'' \<in> set k \<Longrightarrow> plain_key k"
  by (rule plain_key_mem) (auto simp: object_prototype_def)

lemma object_prototype_lower:
  "\<forall>n \<in> set object_prototype. hd n \<notin> set ''ABCDEFGHIJKLMNOPQRSTUVWXYZ''"
  by (simp add: object_prototype_def)

lemma plain_key_capital: "hd k \<in> set ''ABCDEFGHIJKLMNOPQRSTUVWXYZ'' \<Longrightarrow> plain_key k"
  using object_prototype_lower by (auto simp only: plain_key_def)

lemma plain_key_0x: "take 2 k = ''0x'' \<Longrightarrow> plain_key k"
  by (auto simp: plain_key_def object_prototype_def)

end
