(* ===== verification/EVM_Opcodes.thy ===== *)
theory EVM_Opcodes
  imports JS_Values
begin

text \<open>
  The opcodes of \<^verbatim>\<open>vm/opcodes.go\<close>: their printed names, as \<open>log.op.toString()\<close> hands them
  to the tracers, and \<open>IsPush\<close>.
\<close>

type_synonym OpCode = byte

definition opCodeToString :: "(nat \<times> string) list" where
  "opCodeToString =
     [(0, ''STOP''), (1, ''ADD''), (2, ''MUL''), (3, ''SUB''), (4, ''DIV''), (5, ''SDIV''),
      (6, ''MOD''), (7, ''SMOD''), (10, ''EXP''), (25, ''NOT''), (16, ''LT''), (17, ''GT''),
      (18, ''SLT''), (19, ''SGT''), (20, ''EQ''), (21, ''ISZERO''), (11, ''SIGNEXTEND''), (22,
      ''AND''), (23, ''OR''), (24, ''XOR''), (26, ''BYTE''), (27, ''SHL''), (28, ''SHR''),
      (29, ''SAR''), (8, ''ADDMOD''), (9, ''MULMOD''), (32, ''SHA3''), (48, ''ADDRESS''), (49,
      ''BALANCE''), (50, ''ORIGIN''), (51, ''CALLER''), (52, ''CALLVALUE''), (53,
      ''CALLDATALOAD''), (54, ''CALLDATASIZE''), (55, ''CALLDATACOPY''), (56, ''CODESIZE''),
      (57, ''CODECOPY''), (58, ''GASPRICE''), (59, ''EXTCODESIZE''), (60, ''EXTCODECOPY''),
      (61, ''RETURNDATASIZE''), (62, ''RETURNDATACOPY''), (63, ''EXTCODEHASH''), (64,
      ''BLOCKHASH''), (65, ''COINBASE''), (66, ''TIMESTAMP''), (67, ''NUMBER''), (68,
      ''DIFFICULTY''), (69, ''GASLIMIT''), (80, ''POP''), (81, ''MLOAD''), (82, ''MSTORE''),
      (83, ''MSTORE8''), (84, ''SLOAD''), (85, ''SSTORE''), (86, ''JUMP''), (87, ''JUMPI''),
      (88, ''PC''), (89, ''MSIZE''), (90, ''GAS''), (91, ''JUMPDEST''), (96, ''PUSH1''), (97,
      ''PUSH2''), (98, ''PUSH3''), (99, ''PUSH4''), (100, ''PUSH5''), (101, ''PUSH6''), (102,
      ''PUSH7''), (103, ''PUSH8''), (104, ''PUSH9''), (105, ''PUSH10''), (106, ''PUSH11''),
      (107, ''PUSH12''), (108, ''PUSH13''), (109, ''PUSH14''), (110, ''PUSH15''), (111,
      ''PUSH16''), (112, ''PUSH17''), (113, ''PUSH18''), (114, ''PUSH19''), (115, ''PUSH20''),
      (116, ''PUSH21''), (117, ''PUSH22''), (118, ''PUSH23''), (119, ''PUSH24''), (120,
      ''PUSH25''), (121, ''PUSH26''), (122, ''PUSH27''), (123, ''PUSH28''), (124, ''PUSH29''),
      (125, ''PUSH30''), (126, ''PUSH31''), (127, ''PUSH32''), (128, ''DUP1''), (129,
      ''DUP2''), (130, ''DUP3''), (131, ''DUP4''), (132, ''DUP5''), (133, ''DUP6''), (134,
      ''DUP7''), (135, ''DUP8''), (136, ''DUP9''), (137, ''DUP10''), (138, ''DUP11''), (139,
      ''DUP12''), (140, ''DUP13''), (141, ''DUP14''), (142, ''DUP15''), (143, ''DUP16''),
      (144, ''SWAP1''), (145, ''SWAP2''), (146, ''SWAP3''), (147, ''SWAP4''), (148,
      ''SWAP5''), (149, ''SWAP6''), (150, ''SWAP7''), (151, ''SWAP8''), (152, ''SWAP9''),
      (153, ''SWAP10''), (154, ''SWAP11''), (155, ''SWAP12''), (156, ''SWAP13''), (157,
      ''SWAP14''), (158, ''SWAP15''), (159, ''SWAP16''), (160, ''LOG0''), (161, ''LOG1''),
      (162, ''LOG2''), (163, ''LOG3''), (164, ''LOG4''), (240, ''CREATE''), (241, ''CALL''),
      (243, ''RETURN''), (242, ''CALLCODE''), (244, ''DELEGATECALL''), (245, ''CREATE2''),
      (250, ''STATICCALL''), (253, ''REVERT''), (255, ''SELFDESTRUCT''), (176, ''PUSH''),
      (177, ''DUP''), (178, ''SWAP'')]"

text \<open>Lower-case hexadecimal, as \<open>fmt.Sprintf\<close> prints it for the verb \<open>%x\<close>.\<close>

definition op_String :: "OpCode \<Rightarrow> string" where
  "op_String op =
     (case map_of opCodeToString (unat op) of
        Some str \<Rightarrow> str
      | None \<Rightarrow> ''Missing opcode 0x'' @ nat_to_base 16 (unat op))"

definition IsPush :: "OpCode \<Rightarrow> bool" where
  "IsPush op = (96 \<le> unat op \<and> unat op \<le> 127)"

text \<open>The system opcodes.\<close>

abbreviation CREATE :: OpCode where "CREATE \<equiv> 240"
abbreviation CALL :: OpCode where "CALL \<equiv> 241"
abbreviation CALLCODE :: OpCode where "CALLCODE \<equiv> 242"
abbreviation RETURN :: OpCode where "RETURN \<equiv> 243"
abbreviation DELEGATECALL :: OpCode where "DELEGATECALL \<equiv> 244"
abbreviation CREATE2 :: OpCode where "CREATE2 \<equiv> 245"
abbreviation STATICCALL :: OpCode where "STATICCALL \<equiv> 250"
abbreviation REVERT :: OpCode where "REVERT \<equiv> 253"
abbreviation SELFDESTRUCT :: OpCode where "SELFDESTRUCT \<equiv> 255"

section \<open>Facts on the names\<close>

lemma distinct_opcodes: "distinct (map fst opCodeToString)"
  by (simp add: opCodeToString_def)

lemma op_String_iff:
  assumes "take 7 s \<noteq> ''Missing''"
  shows "op_String op = s \<longleftrightarrow> (unat op, s) \<in> set opCodeToString"
proof (cases "map_of opCodeToString (unat op)")
  case None
  then have "\<forall>t. (unat op, t) \<notin> set opCodeToString"
    by (metis distinct_opcodes map_of_eq_Some_iff option.distinct(1))
  with None assms show ?thesis by (auto simp: op_String_def)
next
  case (Some t)
  then have "op_String op = t" by (simp add: op_String_def)
  moreover have "(unat op, s) \<in> set opCodeToString \<longleftrightarrow> t = s"
    using Some by (simp add: map_of_eq_Some_iff [OF distinct_opcodes, symmetric])
  ultimately show ?thesis by simp
qed

lemma op_String_cases:
  "(unat op, op_String op) \<in> set opCodeToString \<or> take 7 (op_String op) = ''Missing''"
  by (auto simp: op_String_def dest: map_of_SomeD split: option.splits)

lemma unat_opcode: "unat (op :: OpCode) = n \<longleftrightarrow> n < 256 \<and> op = word_of_nat n"
  using unsigned_less [of op, where ?'a = nat] by (auto simp: unat_of_nat)

lemma system_names:
  "(n, ''CREATE'') \<in> set opCodeToString \<longleftrightarrow> n = 240"
  "(n, ''CALL'') \<in> set opCodeToString \<longleftrightarrow> n = 241"
  "(n, ''CALLCODE'') \<in> set opCodeToString \<longleftrightarrow> n = 242"
  "(n, ''RETURN'') \<in> set opCodeToString \<longleftrightarrow> n = 243"
  "(n, ''DELEGATECALL'') \<in> set opCodeToString \<longleftrightarrow> n = 244"
  "(n, ''CREATE2'') \<in> set opCodeToString \<longleftrightarrow> n = 245"
  "(n, ''STATICCALL'') \<in> set opCodeToString \<longleftrightarrow> n = 250"
  "(n, ''REVERT'') \<in> set opCodeToString \<longleftrightarrow> n = 253"
  "(n, ''SELFDESTRUCT'') \<in> set opCodeToString \<longleftrightarrow> n = 255"
  by (simp_all add: opCodeToString_def)

lemma op_String_system [simp]:
  "op_String op = ''CREATE'' \<longleftrightarrow> op = CREATE"
  "op_String op = ''CALL'' \<longleftrightarrow> op = CALL"
  "op_String op = ''CALLCODE'' \<longleftrightarrow> op = CALLCODE"
  "op_String op = ''RETURN'' \<longleftrightarrow> op = RETURN"
  "op_String op = ''DELEGATECALL'' \<longleftrightarrow> op = DELEGATECALL"
  "op_String op = ''CREATE2'' \<longleftrightarrow> op = CREATE2"
  "op_String op = ''STATICCALL'' \<longleftrightarrow> op = STATICCALL"
  "op_String op = ''REVERT'' \<longleftrightarrow> op = REVERT"
  "op_String op = ''SELFDESTRUCT'' \<longleftrightarrow> op = SELFDESTRUCT"
  by (simp_all add: op_String_iff system_names unat_opcode)

text \<open>
  No name collides with the built-in prototype of an object: each starts with a capital.
\<close>

lemma opcode_names_capital:
  "list_all (\<lambda>(n, s). s \<noteq> [] \<and> hd s \<in> set ''ABCDEFGHIJKLMNOPQRSTUVWXYZ'') opCodeToString"
  by code_simp

lemma op_String_plain [simp]: "plain_key (op_String op)"
proof -
  have "op_String op \<noteq> [] \<and> hd (op_String op) \<in> set ''ABCDEFGHIJKLMNOPQRSTUVWXYZ''"
    using op_String_cases [of op]
  proof
    assume "(unat op, op_String op) \<in> set opCodeToString"
    with opcode_names_capital show ?thesis by (auto simp: list_all_iff)
  next
    assume "take 7 (op_String op) = ''Missing''"
    then show ?thesis by (cases "op_String op") auto
  qed
  then show ?thesis using plain_key_capital by blast
qed

lemma op_String_system_values [simp]:
  "op_String CREATE = ''CREATE''"
  "op_String CALL = ''CALL''"
  "op_String CALLCODE = ''CALLCODE''"
  "op_String RETURN = ''RETURN''"
  "op_String DELEGATECALL = ''DELEGATECALL''"
  "op_String CREATE2 = ''CREATE2''"
  "op_String STATICCALL = ''STATICCALL''"
  "op_String REVERT = ''REVERT''"
  "op_String SELFDESTRUCT = ''SELFDESTRUCT''"
  by simp_all

end
