(* ===== verification/EVM_Memory.thy ===== *)
theory EVM_Memory
  imports JS_Values
begin

text \<open>
  The EVM memory and stack of \<^verbatim>\<open>vm/memory.go\<close> and \<^verbatim>\<open>vm/stack.go\<close>, which the tracers read through
  the host's wrappers. A Go panic is a left value. The capacity of a slice is not modelled: an
  end beyond the length is out of range (the wrappers compare with the length first).
\<close>

section \<open>Memory\<close>

record Memory =
  store :: "byte list"
  lastGasCost :: u64

definition NewMemory :: Memory where
  "NewMemory = \<lparr>store = [], lastGasCost = 0\<rparr>"

definition mem_Len :: "Memory \<Rightarrow> nat" where
  "mem_Len m = length (store m)"

text \<open>\<open>copy(s[off:], value)\<close> for a window of \<open>sz\<close> bytes: the shorter length is copied.\<close>

definition overwrite :: "nat \<Rightarrow> nat \<Rightarrow> byte list \<Rightarrow> byte list \<Rightarrow> byte list" where
  "overwrite off sz value s =
     (let v = take sz value in take off s @ v @ drop (off + length v) s)"

text \<open>
  \<open>offset+size\<close> is computed on 64 bits. When it wraps below \<open>offset\<close> the comparison with
  the length may pass, and the slice expression panics.
\<close>

definition mem_Set :: "u64 \<Rightarrow> u64 \<Rightarrow> byte list \<Rightarrow> Memory \<Rightarrow> js_error + Memory" where
  "mem_Set offset sz value m =
     (if 0 < sz then
        if mem_Len m < unat (offset + sz) then Inl (GoPanic ''invalid memory: store empty'')
        else if offset + sz < offset then Inl (GoPanic ''slice bounds out of range'')
        else Inr (m\<lparr>store := overwrite (unat offset) (unat sz) value (store m)\<rparr>)
      else Inr m)"

text \<open>
  \<open>math.ReadBits\<close> is library code: \<open>readBits val buf\<close> is the buffer after the call.
\<close>

definition mem_Set32 ::
    "(int \<Rightarrow> byte list \<Rightarrow> byte list) \<Rightarrow> u64 \<Rightarrow> int \<Rightarrow> Memory \<Rightarrow> js_error + Memory" where
  "mem_Set32 readBits offset val m =
     (if mem_Len m < unat (offset + 32) then Inl (GoPanic ''invalid memory: store empty'')
      else if offset + 32 < offset then Inl (GoPanic ''slice bounds out of range'')
      else Inr (m\<lparr>store := overwrite (unat offset) 32 (readBits val (replicate 32 0)) (store m)\<rparr>))"

definition mem_Resize :: "u64 \<Rightarrow> Memory \<Rightarrow> Memory" where
  "mem_Resize sz m =
     (if mem_Len m < unat sz
      then m\<lparr>store := store m @ replicate (unat sz - mem_Len m) 0\<rparr> else m)"

definition mem_Get :: "int \<Rightarrow> int \<Rightarrow> Memory \<Rightarrow> js_error + byte list" where
  "mem_Get offset sz m =
     (if sz = 0 then Inr []
      else if offset < int (mem_Len m) then
        if sz < 0 then Inl (GoPanic ''makeslice: len out of range'')
        else if offset < 0 \<or> int (mem_Len m) < offset + sz
             then Inl (GoPanic ''slice bounds out of range'')
        else Inr (take (nat sz) (drop (nat offset) (store m)))
      else Inr [])"

definition mem_GetPtr :: "int \<Rightarrow> int \<Rightarrow> Memory \<Rightarrow> js_error + byte list" where
  "mem_GetPtr offset sz m =
     (if sz = 0 then Inr []
      else if offset < int (mem_Len m) then
        if sz < 0 \<or> offset < 0 \<or> int (mem_Len m) < offset + sz
        then Inl (GoPanic ''slice bounds out of range'')
        else Inr (take (nat sz) (drop (nat offset) (store m)))
      else Inr [])"

lemma length_overwrite [simp]:
  "off + sz \<le> length s \<Longrightarrow> length (overwrite off sz value s) = length s"
  by (auto simp: overwrite_def Let_def min_def)

lemma mem_Get_in_range:
  "off + n \<le> mem_Len m \<Longrightarrow> mem_Get (int off) (int n) m = Inr (take n (drop off (store m)))"
  by (auto simp: mem_Get_def)

lemma mem_Set_Len: "mem_Set offset sz value m = Inr m' \<Longrightarrow> mem_Len m' = mem_Len m"
proof -
  assume a: "mem_Set offset sz value m = Inr m'"
  show ?thesis
  proof (cases "0 < sz")
    case True
    with a have le: "unat (offset + sz) \<le> mem_Len m" and nw: "\<not> offset + sz < offset"
      and m': "m' = m\<lparr>store := overwrite (unat offset) (unat sz) value (store m)\<rparr>"
      by (auto simp: mem_Set_def split: if_splits)
    from nw have "unat (offset + sz) = unat offset + unat sz"
      by (simp add: not_less unat_plus_simple)
    with le m' show ?thesis by (simp add: mem_Len_def)
  qed (use a in \<open>simp add: mem_Set_def\<close>)
qed

lemma mem_Resize_Len: "mem_Len (mem_Resize sz m) = max (mem_Len m) (unat sz)"
  by (simp add: mem_Resize_def mem_Len_def max_def)

lemma mem_Resize_prefix: "take (mem_Len m) (store (mem_Resize sz m)) = store m"
  by (simp add: mem_Resize_def mem_Len_def)

text \<open>What was written is read back, and bytes outside the window are kept.\<close>

lemma mem_Get_Set:
  assumes "mem_Set offset sz value m = Inr m'" and "length value = unat sz"
  shows "mem_Get (int (unat offset)) (int (unat sz)) m' = Inr value"
proof (cases "0 < sz")
  case True
  with assms(1) have le: "unat (offset + sz) \<le> mem_Len m" and nw: "\<not> offset + sz < offset"
    and m': "m' = m\<lparr>store := overwrite (unat offset) (unat sz) value (store m)\<rparr>"
    by (auto simp: mem_Set_def split: if_splits)
  from nw have sum: "unat (offset + sz) = unat offset + unat sz"
    by (simp add: not_less unat_plus_simple)
  have len: "mem_Len m' = mem_Len m" by (rule mem_Set_Len [OF assms(1)])
  have "take (unat sz) (drop (unat offset) (store m')) = value"
    using le sum assms(2) by (simp add: m' overwrite_def mem_Len_def)
  moreover have "unat offset + unat sz \<le> mem_Len m'" using le sum len by simp
  ultimately show ?thesis using mem_Get_in_range by metis
next
  case False
  then have "unat sz = 0" by (simp add: word_gt_0)
  with assms(2) show ?thesis by (simp add: mem_Get_def)
qed

section \<open>Stack\<close>

text \<open>The top of the stack is the last element of \<open>data\<close>.\<close>

record Stack =
  data :: "int list"

definition newstack :: Stack where
  "newstack = \<lparr>data = []\<rparr>"

definition st_len :: "Stack \<Rightarrow> nat" where
  "st_len st = length (data st)"

definition st_push :: "int \<Rightarrow> Stack \<Rightarrow> Stack" where
  "st_push d st = st\<lparr>data := data st @ [d]\<rparr>"

definition st_pushN :: "int list \<Rightarrow> Stack \<Rightarrow> Stack" where
  "st_pushN ds st = st\<lparr>data := data st @ ds\<rparr>"

definition index_panic :: js_error where
  "index_panic = GoPanic ''index out of range''"

definition st_pop :: "Stack \<Rightarrow> js_error + (int \<times> Stack)" where
  "st_pop st =
     (if data st = [] then Inl index_panic
      else Inr (last (data st), st\<lparr>data := butlast (data st)\<rparr>))"

definition st_swap :: "nat \<Rightarrow> Stack \<Rightarrow> js_error + Stack" where
  "st_swap n st =
     (let l = st_len st in
      if n = 0 \<or> l < n then Inl index_panic
      else Inr (st\<lparr>data := (data st)[l - n := data st ! (l - 1), l - 1 := data st ! (l - n)]\<rparr>))"

definition st_dup :: "nat \<Rightarrow> Stack \<Rightarrow> js_error + Stack" where
  "st_dup n st =
     (if n = 0 \<or> st_len st < n then Inl index_panic
      else Inr (st_push (data st ! (st_len st - n)) st))"

definition st_peek :: "Stack \<Rightarrow> js_error + int" where
  "st_peek st = (if data st = [] then Inl index_panic else Inr (last (data st)))"

definition st_Back :: "nat \<Rightarrow> Stack \<Rightarrow> js_error + int" where
  "st_Back n st =
     (if st_len st \<le> n then Inl index_panic else Inr (data st ! (st_len st - n - 1)))"

definition st_require :: "nat \<Rightarrow> Stack \<Rightarrow> string option" where
  "st_require n st =
     (if st_len st < n
      then Some (''stack underflow ('' @ nat_to_base 10 (st_len st) @ '' <=> '' @ nat_to_base 10 n @ '')'')
      else None)"

lemma st_pop_push [simp]: "st_pop (st_push d st) = Inr (d, st)"
  by (simp add: st_pop_def st_push_def)

text \<open>After a successful \<open>require(n)\<close> no access to the top \<open>n\<close> items panics.\<close>

lemma st_require_safe:
  assumes "st_require n st = None"
  shows "i < n \<Longrightarrow> st_Back i st \<noteq> Inl e"
    and "0 < i \<Longrightarrow> i \<le> n \<Longrightarrow> st_dup i st \<noteq> Inl e"
    and "0 < i \<Longrightarrow> i \<le> n \<Longrightarrow> st_swap i st \<noteq> Inl e"
    and "0 < n \<Longrightarrow> st_pop st \<noteq> Inl e"
  using assms
  by (auto simp: st_require_def st_Back_def st_dup_def st_swap_def st_pop_def st_len_def Let_def
      split: if_splits)

lemma st_swap_swap:
  assumes "st_swap n st = Inr st'"
  shows "st_swap n st' = Inr st"
proof -
  from assms have n: "0 < n" "n \<le> length (data st)"
    and st': "st' = st\<lparr>data := (data st)[length (data st) - n := data st ! (length (data st) - 1),
                length (data st) - 1 := data st ! (length (data st) - n)]\<rparr>"
    by (auto simp: st_swap_def st_len_def Let_def not_less split: if_splits)
  then have "(data st')[length (data st) - n := data st' ! (length (data st) - 1),
      length (data st) - 1 := data st' ! (length (data st) - n)] = data st"
    by (intro nth_equalityI) (auto simp: nth_list_update)
  with n st' show ?thesis by (simp add: st_swap_def st_len_def Let_def)
qed

end
