(* ===== verification/Tracer_Host.thy ===== *)
theory Tracer_Host
  imports EVM_Opcodes EVM_Memory
begin

text \<open>
  What the Go host of \<^verbatim>\<open>tracers/tracer.go\<close> gives a JavaScript tracer: the \<open>log\<close> object with
  its wrappers around the opcode, the stack, the memory and the contract, the \<open>db\<close> object,
  the transaction context \<open>ctx\<close>, and the global functions.
\<close>

section \<open>Library code the host calls\<close>

text \<open>
  The functions of the duktape binding and of go-ethereum's \<open>common\<close>, \<open>hexutil\<close> and
  \<open>crypto\<close> packages are not part of the repository; they are parameters. \<open>GetInt\<close> reads a
  JavaScript value from the engine's stack as a Go integer, \<open>None\<close> standing for \<open>NaN\<close> and
  \<open>undefined\<close>; \<open>PushUint\<close> and \<open>PushInt\<close> are the numbers the engine sees for a pushed
  Go integer.
\<close>

record host =
  GetInt :: "jsnum \<Rightarrow> int"
  PushUint :: "u64 \<Rightarrow> int"
  PushInt :: "int \<Rightarrow> int"
  hexutil_Encode :: "byte list \<Rightarrow> string"
  BytesToAddress :: "byte list \<Rightarrow> byte list"
  HexToAddress :: "string \<Rightarrow> byte list"
  BytesToHash :: "byte list \<Rightarrow> byte list"
  HexToHash :: "string \<Rightarrow> byte list"
  FromHex :: "string \<Rightarrow> byte list"
  CreateAddress :: "byte list \<Rightarrow> u64 \<Rightarrow> byte list"
  Keccak256 :: "byte list \<Rightarrow> byte list"

text \<open>
  Their documented behaviour, where a property relies on it: integers are clamped to 32 bits
  when read and exact when pushed in range; hexadecimal strings carry the prefix \<open>0x\<close> and
  determine the bytes.
\<close>

definition duk_numbers :: "host \<Rightarrow> bool" where
  "duk_numbers h =
     ((\<forall>v. GetInt h (Some v) = max (- 2147483648) (min 2147483647 v)) \<and> GetInt h None = 0 \<and>
      (\<forall>w. unat w < 4294967296 \<longrightarrow> PushUint h w = int (unat w)))"

definition hex_encoding :: "host \<Rightarrow> bool" where
  "hex_encoding h =
     ((\<forall>bs. take 2 (hexutil_Encode h bs) = ''0x'') \<and>
      (\<forall>as bs. hexutil_Encode h as = hexutil_Encode h bs \<longrightarrow> as = bs))"

section \<open>The log object\<close>

record Contract =
  CallerAddress :: "byte list"
  self :: "byte list"
  cvalue :: int
  Input :: "byte list"

record log_obj =
  lop :: OpCode
  lstack :: Stack
  lmemory :: Memory
  lcontract :: Contract
  lpc :: u64
  lgas :: u64
  lcost :: u64
  ldepth :: u64
  lerror :: "string option"

definition op_toNumber :: "log_obj \<Rightarrow> nat" where
  "op_toNumber l = unat (lop l)"

definition op_toString :: "log_obj \<Rightarrow> string" where
  "op_toString l = op_String (lop l)"

definition op_isPush :: "log_obj \<Rightarrow> bool" where
  "op_isPush l = IsPush (lop l)"

text \<open>
  \<open>stackWrapper.peek\<close>: zero for an index beyond the stack. The tracers index with literals.
\<close>

definition peek :: "log_obj \<Rightarrow> nat \<Rightarrow> int" where
  "peek l idx =
     (let d = data (lstack l) in if length d \<le> idx then 0 else d ! (length d - idx - 1))"

definition mw_slice :: "Memory \<Rightarrow> int \<Rightarrow> int \<Rightarrow> js_error + byte list" where
  "mw_slice m b e = (if int (mem_Len m) < e then Inr [] else mem_Get b (e - b) m)"

definition bytes_value :: "byte list \<Rightarrow> int" where
  "bytes_value bs = int (of_digits 256 (map unat bs))"

definition mw_getUint :: "Memory \<Rightarrow> int \<Rightarrow> js_error + int" where
  "mw_getUint m addr =
     (if int (mem_Len m) < addr + 32 then Inr 0
      else case mem_GetPtr addr 32 m of Inl e \<Rightarrow> Inl e | Inr bs \<Rightarrow> Inr (bytes_value bs))"

definition memory_slice :: "host \<Rightarrow> log_obj \<Rightarrow> jsnum \<Rightarrow> jsnum \<Rightarrow> js_error + byte list" where
  "memory_slice h l b e = mw_slice (lmemory l) (GetInt h b) (GetInt h e)"

definition getAddress :: "log_obj \<Rightarrow> byte list" where
  "getAddress l = self (lcontract l)"

definition getCaller :: "log_obj \<Rightarrow> byte list" where
  "getCaller l = CallerAddress (lcontract l)"

definition getPC :: "host \<Rightarrow> log_obj \<Rightarrow> int" where
  "getPC h l = PushUint h (lpc l)"

definition getGas :: "host \<Rightarrow> log_obj \<Rightarrow> int" where
  "getGas h l = PushUint h (lgas l)"

definition getCost :: "host \<Rightarrow> log_obj \<Rightarrow> int" where
  "getCost h l = PushUint h (lcost l)"

definition getDepth :: "host \<Rightarrow> log_obj \<Rightarrow> int" where
  "getDepth h l = PushUint h (ldepth l)"

definition getError :: "log_obj \<Rightarrow> string option" where
  "getError l = lerror l"

section \<open>The state database\<close>

record StateDB =
  GetBalance :: "byte list \<Rightarrow> int"
  GetNonce :: "byte list \<Rightarrow> u64"
  GetCode :: "byte list \<Rightarrow> byte list"
  GetState :: "byte list \<Rightarrow> byte list \<Rightarrow> byte list"
  Exist :: "byte list \<Rightarrow> bool"

definition db_getBalance :: "host \<Rightarrow> StateDB \<Rightarrow> byte list \<Rightarrow> int" where
  "db_getBalance h d a = GetBalance d (BytesToAddress h a)"

definition db_getNonce :: "host \<Rightarrow> StateDB \<Rightarrow> byte list \<Rightarrow> int" where
  "db_getNonce h d a = PushInt h (sint (GetNonce d (BytesToAddress h a)))"

definition db_getCode :: "host \<Rightarrow> StateDB \<Rightarrow> byte list \<Rightarrow> byte list" where
  "db_getCode h d a = GetCode d (BytesToAddress h a)"

definition db_getState :: "host \<Rightarrow> StateDB \<Rightarrow> byte list \<Rightarrow> byte list \<Rightarrow> byte list" where
  "db_getState h d a k = GetState d (BytesToAddress h a) (BytesToHash h k)"

definition db_exists :: "host \<Rightarrow> StateDB \<Rightarrow> byte list \<Rightarrow> bool" where
  "db_exists h d a = Exist d (BytesToAddress h a)"

section \<open>The transaction context\<close>

text \<open>
  \<open>jst.ctx\<close> is a Go map that the capture calls fill; a key that was never set is
  \<open>undefined\<close> in JavaScript.
\<close>

record ctx_obj =
  ctx_type :: "string option"
  ctx_from :: "byte list option"
  ctx_to :: "byte list option"
  ctx_input :: "byte list option"
  ctx_gas :: "u64 option"
  ctx_value :: "int option"
  ctx_block :: "u64 option"
  ctx_output :: "byte list option"
  ctx_gasUsed :: "u64 option"
  ctx_time :: "string option"
  ctx_error :: "string option"

definition empty_ctx :: ctx_obj where
  "empty_ctx =
     \<lparr>ctx_type = None, ctx_from = None, ctx_to = None, ctx_input = None, ctx_gas = None,
      ctx_value = None, ctx_block = None, ctx_output = None, ctx_gasUsed = None,
      ctx_time = None, ctx_error = None\<rparr>"

section \<open>Global functions\<close>

text \<open>A buffer argument that is \<open>undefined\<close> is read as an empty slice.\<close>

fun buffer :: "byte list option \<Rightarrow> byte list" where
  "buffer None = []"
| "buffer (Some bs) = bs"

definition toHex :: "host \<Rightarrow> byte list \<Rightarrow> string" where
  "toHex h bs = hexutil_Encode h bs"

text \<open>Buffers are left values, strings right values.\<close>

fun toWord :: "host \<Rightarrow> byte list + string \<Rightarrow> byte list" where
  "toWord h (Inl bs) = BytesToHash h bs"
| "toWord h (Inr s) = HexToHash h s"

fun toAddress :: "host \<Rightarrow> byte list + string \<Rightarrow> byte list" where
  "toAddress h (Inl bs) = BytesToAddress h bs"
| "toAddress h (Inr s) = HexToAddress h s"

definition toContract :: "host \<Rightarrow> byte list + string \<Rightarrow> jsnum \<Rightarrow> byte list" where
  "toContract h from nonce = CreateAddress h (toAddress h from) (word_of_int (GetInt h nonce))"

definition CreateAddress2 :: "host \<Rightarrow> byte list \<Rightarrow> byte list \<Rightarrow> byte list \<Rightarrow> byte list" where
  "CreateAddress2 h b salt inithash =
     BytesToAddress h (drop 12 (Keccak256 h ([255] @ b @ salt @ inithash)))"

definition toContract2 :: "host \<Rightarrow> byte list + string \<Rightarrow> string \<Rightarrow> byte list + string \<Rightarrow> byte list" where
  "toContract2 h from salt code =
     CreateAddress2 h (toAddress h from) (HexToHash h salt)
       (Keccak256 h (case code of Inl bs \<Rightarrow> bs | Inr s \<Rightarrow> FromHex h s))"

definition PrecompiledContractsByzantium :: "host \<Rightarrow> byte list list" where
  "PrecompiledContractsByzantium h = map (\<lambda>i. BytesToAddress h [i]) [1, 2, 3, 4, 5, 6, 7, 8]"

definition isPrecompiled :: "host \<Rightarrow> byte list \<Rightarrow> bool" where
  "isPrecompiled h a = (BytesToAddress h a \<in> set (PrecompiledContractsByzantium h))"

definition slice :: "host \<Rightarrow> byte list \<Rightarrow> jsnum \<Rightarrow> jsnum \<Rightarrow> byte list" where
  "slice h blob start e =
     (let s = GetInt h start; t = GetInt h e
      in if s < 0 \<or> t < s \<or> int (length blob) < t then []
         else take (nat (t - s)) (drop (nat s) blob))"

section \<open>Facts\<close>

lemma GetInt_small:
  "duk_numbers h \<Longrightarrow> 0 \<le> v \<Longrightarrow> v < 2147483648 \<Longrightarrow> GetInt h (Some v) = v"
  by (simp add: duk_numbers_def)

lemma PushUint_small: "duk_numbers h \<Longrightarrow> unat w < 4294967296 \<Longrightarrow> PushUint h w = int (unat w)"
  by (simp add: duk_numbers_def)

lemma toHex_inj: "hex_encoding h \<Longrightarrow> toHex h a = toHex h b \<longleftrightarrow> a = b"
  by (auto simp: hex_encoding_def toHex_def)

lemma toHex_plain: "hex_encoding h \<Longrightarrow> plain_key (toHex h a)"
  by (rule plain_key_0x) (simp add: hex_encoding_def toHex_def)

text \<open>
  Reading memory with ends \<open>b \<le> e\<close> never panics, whatever the size of the numbers: the binding
  clamps them and the wrapper compares with the length.
\<close>

lemma mem_Get_no_panic: "0 \<le> off \<Longrightarrow> 0 \<le> n \<Longrightarrow> off + n \<le> int (mem_Len m) \<Longrightarrow> mem_Get off n m \<noteq> Inl e"
  by (auto simp: mem_Get_def)

lemma memory_slice_no_panic:
  assumes "duk_numbers h" "0 \<le> b" "b \<le> e"
  shows "\<exists>bs. memory_slice h l (Some b) (Some e) = Inr bs"
proof -
  have le: "0 \<le> GetInt h (Some b)" "GetInt h (Some b) \<le> GetInt h (Some e)"
    using assms by (simp_all add: duk_numbers_def)
  have "memory_slice h l (Some b) (Some e) \<noteq> Inl x" for x
    using mem_Get_no_panic [of "GetInt h (Some b)" "GetInt h (Some e) - GetInt h (Some b)"] le
    by (simp add: memory_slice_def mw_slice_def)
  then show ?thesis by (cases "memory_slice h l (Some b) (Some e)") blast+
qed

lemma memory_slice_exact:
  assumes "duk_numbers h" "b \<le> e" "e \<le> mem_Len (lmemory l)" "e < 2147483648"
  shows "memory_slice h l (Some (int b)) (Some (int e)) =
    Inr (take (e - b) (drop b (store (lmemory l))))"
proof -
  have "GetInt h (Some (int b)) = int b" "GetInt h (Some (int e)) = int e"
    using assms by (simp_all add: GetInt_small)
  moreover have "mem_Get (int b) (int e - int b) (lmemory l) =
      Inr (take (e - b) (drop b (store (lmemory l))))"
    using mem_Get_in_range [of b "e - b" "lmemory l"] assms by simp
  ultimately show ?thesis using assms(3) by (simp add: memory_slice_def mw_slice_def)
qed

text \<open>EVM stack items are 256-bit words, never negative.\<close>

definition evm_log :: "log_obj \<Rightarrow> bool" where
  "evm_log l = (\<forall>v \<in> set (data (lstack l)). 0 \<le> v)"

lemma peek_nonneg: "evm_log l \<Longrightarrow> 0 \<le> peek l i"
  by (simp add: evm_log_def peek_def Let_def)

lemma memory_slice_valueOf:
  assumes "duk_numbers h" "evm_log l" "0 \<le> n"
  shows "\<exists>bs. memory_slice h l (Some (valueOf (peek l i))) (Some (js_add (valueOf (peek l i)) n)) = Inr bs"
  using assms peek_nonneg [OF assms(2), of i]
  by (intro memory_slice_no_panic) (simp_all add: valueOf_def js_add_ge)

section \<open>A reference host\<close>

text \<open>
  An instance of the parameters with the documented behaviour, used where a property is
  evaluated on a concrete trace. The hash and the contract addresses are stand-ins.
\<close>

definition hex_byte :: "byte \<Rightarrow> string" where
  "hex_byte b = [stringify (unat b div 16), stringify (unat b mod 16)]"

definition pad_left :: "nat \<Rightarrow> byte list \<Rightarrow> byte list" where
  "pad_left n bs = replicate (n - length bs) 0 @ drop (length bs - n) bs"

fun unhex :: "string \<Rightarrow> byte list" where
  "unhex (a # b # cs) = word_of_nat (16 * digit_value a + digit_value b) # unhex cs"
| "unhex _ = []"

definition from_hex :: "string \<Rightarrow> byte list" where
  "from_hex s = (let t = (if take 2 s = ''0x'' then drop 2 s else s)
                 in unhex (if odd (length t) then CHR ''0'' # t else t))"

definition ref_host :: host where
  "ref_host =
     \<lparr>GetInt = (\<lambda>n. case n of None \<Rightarrow> 0 | Some v \<Rightarrow> max (- 2147483648) (min 2147483647 v)),
      PushUint = (\<lambda>w. int (unat w mod 4294967296)),
      PushInt = (\<lambda>v. v),
      hexutil_Encode = (\<lambda>bs. ''0x'' @ concat (map hex_byte bs)),
      BytesToAddress = pad_left 20,
      HexToAddress = (\<lambda>s. pad_left 20 (from_hex s)),
      BytesToHash = pad_left 32,
      HexToHash = (\<lambda>s. pad_left 32 (from_hex s)),
      FromHex = from_hex,
      CreateAddress = (\<lambda>a n. pad_left 20 (word_of_int (uint n + 1) # take 19 a)),
      Keccak256 = (\<lambda>bs. pad_left 32 bs)\<rparr>"

lemma ref_duk_numbers: "duk_numbers ref_host"
  by (simp add: duk_numbers_def ref_host_def)

lemma stringify_inj: "d < 36 \<Longrightarrow> e < 36 \<Longrightarrow> stringify d = stringify e \<Longrightarrow> d = e"
  by (metis digit_value_stringify)

lemma byte_nibbles: "unat (b :: byte) div 16 < 36" "unat b mod 16 < 36"
  using unsigned_less [of b, where ?'a = nat] by simp_all

lemma hex_byte_inj: "hex_byte a = hex_byte b \<Longrightarrow> a = b"
proof -
  assume "hex_byte a = hex_byte b"
  then have e1: "stringify (unat a div 16) = stringify (unat b div 16)"
    and e2: "stringify (unat a mod 16) = stringify (unat b mod 16)"
    by (simp_all add: hex_byte_def)
  have d: "unat a div 16 = unat b div 16"
    by (rule stringify_inj [OF byte_nibbles(1) byte_nibbles(1) e1])
  have m: "unat a mod 16 = unat b mod 16"
    by (rule stringify_inj [OF byte_nibbles(2) byte_nibbles(2) e2])
  have "unat a = unat a div 16 * 16 + unat a mod 16" by (rule div_mult_mod_eq [symmetric])
  also have "\<dots> = unat b div 16 * 16 + unat b mod 16" unfolding d m ..
  also have "\<dots> = unat b" by (rule div_mult_mod_eq)
  finally show "a = b" by (rule unsigned_word_eqI)
qed

lemma length_hex_byte [simp]: "length (hex_byte b) = 2"
  by (simp add: hex_byte_def)

lemma concat_hex_byte_inj: "concat (map hex_byte as) = concat (map hex_byte bs) \<Longrightarrow> as = bs"
proof (induction as arbitrary: bs)
  case Nil
  then show ?case by (cases bs) (auto simp: hex_byte_def)
next
  case (Cons a as)
  then obtain b bs' where bs: "bs = b # bs'" by (cases bs) (auto simp: hex_byte_def)
  with Cons.prems have "hex_byte a @ concat (map hex_byte as) = hex_byte b @ concat (map hex_byte bs')"
    by simp
  then have "hex_byte a = hex_byte b \<and> concat (map hex_byte as) = concat (map hex_byte bs')"
    by (rule append_eq_append_conv [THEN iffD1, rotated]) simp
  with Cons.IH bs hex_byte_inj show ?case by blast
qed

lemma ref_hex_encoding: "hex_encoding ref_host"
proof -
  have "hexutil_Encode ref_host bs = ''0x'' @ concat (map hex_byte bs)" for bs
    by (simp add: ref_host_def)
  then show ?thesis unfolding hex_encoding_def using concat_hex_byte_inj by simp
qed

end
