(* ===== verification/Tracer_Driver.thy ===== *)
theory Tracer_Driver
  imports Tracer_Host
begin

text \<open>
  The Go side of a trace, \<^verbatim>\<open>tracers/tracer.go\<close>: the \<open>Tracer\<close> value, the capture calls that the EVM
  makes on it and \<open>GetResult\<close>. The JavaScript object is a parameter: its methods are the three
  functions of \<open>tracer_obj\<close>. A locale states what the driver relies on to finish without an error.
\<close>

section \<open>Tracer objects and the Tracer value\<close>

text \<open>
  The object must expose \<open>step\<close>, \<open>fault\<close> and \<open>result\<close>. The database handed to \<open>fault\<close>
  and \<open>result\<close> is nil when no step was captured.
\<close>

record 's tracer_obj =
  obj_init :: 's
  obj_step :: "log_obj \<Rightarrow> StateDB \<Rightarrow> 's \<Rightarrow> ('s, unit) outcome"
  obj_fault :: "log_obj \<Rightarrow> StateDB option \<Rightarrow> 's \<Rightarrow> ('s, unit) outcome"
  obj_result :: "ctx_obj \<Rightarrow> StateDB option \<Rightarrow> 's \<Rightarrow> ('s, jsval) outcome"

datatype tracer_error =
    InMethod string js_error
  | Interrupted string

text \<open>
  Stack, memory and contract are pointers into the interpreter's frame; \<open>frames\<close> says what
  they point to when a call is made. A frame that was never stored is nil.
\<close>

record frame =
  f_stack :: Stack
  f_memory :: Memory
  f_contract :: Contract

type_synonym frames = "nat \<Rightarrow> frame"

record 's Tracer =
  inited :: bool
  tracerObject :: 's
  opWrapper :: OpCode
  framePtr :: "nat option"
  dbSet :: bool
  pcValue :: u64
  gasValue :: u64
  costValue :: u64
  depthValue :: u64
  errorValue :: "string option"
  tctx :: ctx_obj
  terr :: "tracer_error option"
  interrupt :: bool
  reason :: "string option"
  panicked :: "string option"

definition New :: "'s tracer_obj \<Rightarrow> 's Tracer" where
  "New T =
     \<lparr>inited = False, tracerObject = obj_init T, opWrapper = 0, framePtr = None, dbSet = False,
      pcValue = 0, gasValue = 0, costValue = 0, depthValue = 0, errorValue = None,
      tctx = empty_ctx, terr = None, interrupt = False, reason = None, panicked = None\<rparr>"

definition nil_frame :: frame where
  "nil_frame = \<lparr>f_stack = newstack, f_memory = NewMemory,
     f_contract = \<lparr>CallerAddress = [], self = [], cvalue = 0, Input = []\<rparr>\<rparr>"

definition log_view :: "frames \<Rightarrow> 's Tracer \<Rightarrow> log_obj" where
  "log_view H j =
     (let f = (case framePtr j of None \<Rightarrow> nil_frame | Some p \<Rightarrow> H p)
      in \<lparr>lop = opWrapper j, lstack = f_stack f, lmemory = f_memory f, lcontract = f_contract f,
          lpc = pcValue j, lgas = gasValue j, lcost = costValue j, ldepth = depthValue j,
          lerror = errorValue j\<rparr>)"

section \<open>The capture calls\<close>

text \<open>
  \<open>jst.call\<close> catches what JavaScript throws; a Go panic is not caught by it and leaves the
  capture call.
\<close>

fun note_throw :: "string \<Rightarrow> js_error \<Rightarrow> 's Tracer \<Rightarrow> 's Tracer" where
  "note_throw m (GoPanic p) j = j\<lparr>panicked := Some p\<rparr>"
| "note_throw m e j = j\<lparr>terr := Some (InMethod m e)\<rparr>"

definition call_method :: "string \<Rightarrow> ('s, 'a) outcome \<Rightarrow> 's Tracer \<Rightarrow> 's Tracer" where
  "call_method m r j =
     (case r of
        Return _ s \<Rightarrow> j\<lparr>tracerObject := s\<rparr>
      | Throw e s \<Rightarrow> note_throw m e (j\<lparr>tracerObject := s\<rparr>))"

definition Stop :: "string option \<Rightarrow> 's Tracer \<Rightarrow> 's Tracer" where
  "Stop err j = j\<lparr>reason := err, interrupt := True\<rparr>"

definition CaptureStart ::
    "byte list \<Rightarrow> byte list \<Rightarrow> bool \<Rightarrow> byte list \<Rightarrow> u64 \<Rightarrow> int \<Rightarrow> 's Tracer \<Rightarrow> 's Tracer" where
  "CaptureStart from to create input gas value j =
     j\<lparr>tctx := (tctx j)
        \<lparr>ctx_type := Some (if create then ''CREATE'' else ''CALL''), ctx_from := Some from,
         ctx_to := Some to, ctx_input := Some input, ctx_gas := Some gas,
         ctx_value := Some value\<rparr>\<rparr>"

definition init_block :: "u64 \<Rightarrow> 's Tracer \<Rightarrow> 's Tracer" where
  "init_block block j =
     (if inited j then j
      else j\<lparr>tctx := (tctx j)\<lparr>ctx_block := Some block\<rparr>, inited := True\<rparr>)"

record state_args =
  a_block :: u64
  a_pc :: u64
  a_op :: OpCode
  a_gas :: u64
  a_cost :: u64
  a_frame :: nat
  a_depth :: u64
  a_err :: "string option"

definition set_wrappers :: "state_args \<Rightarrow> 's Tracer \<Rightarrow> 's Tracer" where
  "set_wrappers a j =
     j\<lparr>opWrapper := a_op a, framePtr := Some (a_frame a), dbSet := True, pcValue := a_pc a,
        gasValue := a_gas a, costValue := a_cost a, depthValue := a_depth a,
        errorValue := a_err a\<rparr>"

definition CaptureState ::
    "'s tracer_obj \<Rightarrow> frames \<Rightarrow> StateDB \<Rightarrow> state_args \<Rightarrow> 's Tracer \<Rightarrow> 's Tracer" where
  "CaptureState T H db a j =
     (if terr j = None then
        (let j1 = init_block (a_block a) j in
         if interrupt j1 then j1\<lparr>terr := map_option Interrupted (reason j1)\<rparr>
         else (let j2 = set_wrappers a j1
               in call_method ''step'' (obj_step T (log_view H j2) db (tracerObject j2)) j2))
      else j)"

definition current_db :: "StateDB \<Rightarrow> 's Tracer \<Rightarrow> StateDB option" where
  "current_db db j = (if dbSet j then Some db else None)"

definition CaptureFault ::
    "'s tracer_obj \<Rightarrow> frames \<Rightarrow> StateDB \<Rightarrow> string \<Rightarrow> 's Tracer \<Rightarrow> 's Tracer" where
  "CaptureFault T H db err j =
     (if terr j = None then
        (let j1 = j\<lparr>errorValue := Some err\<rparr>
         in call_method ''fault''
              (obj_fault T (log_view H j1) (current_db db j1) (tracerObject j1)) j1)
      else j)"

definition CaptureEnd ::
    "byte list \<Rightarrow> u64 \<Rightarrow> string \<Rightarrow> string option \<Rightarrow> 's Tracer \<Rightarrow> 's Tracer" where
  "CaptureEnd output gasUsed t err j =
     (let c = (tctx j)\<lparr>ctx_output := Some output, ctx_gasUsed := Some gasUsed, ctx_time := Some t\<rparr>
      in j\<lparr>tctx := (case err of None \<Rightarrow> c | Some e \<Rightarrow> c\<lparr>ctx_error := Some e\<rparr>)\<rparr>)"

definition GetResult ::
    "'s tracer_obj \<Rightarrow> StateDB \<Rightarrow> 's Tracer \<Rightarrow> jsval option \<times> tracer_error option" where
  "GetResult T db j =
     (case obj_result T (tctx j) (current_db db j) (tracerObject j) of
        Return v _ \<Rightarrow> (Some v, terr j)
      | Throw e _ \<Rightarrow> (None, Some (InMethod ''result'' e)))"

section \<open>Sequences of capture calls\<close>

datatype event =
    EvStart "byte list" "byte list" bool "byte list" u64 int
  | EvState frames StateDB state_args
  | EvFault frames StateDB string
  | EvEnd "byte list" u64 string "string option"
  | EvStop "string option"

text \<open>A panic ends the trace: no further call reaches the tracer.\<close>

fun capture :: "'s tracer_obj \<Rightarrow> event \<Rightarrow> 's Tracer \<Rightarrow> 's Tracer" where
  "capture T (EvStart from to create input gas value) j =
     CaptureStart from to create input gas value j"
| "capture T (EvState H db a) j = CaptureState T H db a j"
| "capture T (EvFault H db err) j = CaptureFault T H db err j"
| "capture T (EvEnd output gasUsed t err) j = CaptureEnd output gasUsed t err j"
| "capture T (EvStop err) j = Stop err j"

fun captures :: "'s tracer_obj \<Rightarrow> event list \<Rightarrow> 's Tracer \<Rightarrow> 's Tracer" where
  "captures T [] j = j"
| "captures T (e # es) j =
     (if panicked j = None then captures T es (capture T e j) else j)"

lemmas capture_defs = CaptureStart_def CaptureState_def CaptureFault_def CaptureEnd_def Stop_def
  call_method_def init_block_def set_wrappers_def Let_def

lemma note_throw_cases:
  "note_throw m e j = (case e of GoPanic p \<Rightarrow> j\<lparr>panicked := Some p\<rparr>
                       | _ \<Rightarrow> j\<lparr>terr := Some (InMethod m e)\<rparr>)"
  by (cases e) simp_all

text \<open>An error is sticky: later calls run no JavaScript and keep it.\<close>

lemma capture_after_error:
  assumes "terr j = Some e"
  shows "terr (capture T ev j) = Some e" "tracerObject (capture T ev j) = tracerObject j"
    "panicked (capture T ev j) = panicked j"
  using assms by (cases ev; simp add: capture_defs split: option.splits)+

lemma captures_after_error:
  assumes "terr j = Some e"
  shows "terr (captures T evs j) = Some e \<and> tracerObject (captures T evs j) = tracerObject j"
  using assms
proof (induction evs arbitrary: j)
  case (Cons ev evs)
  then show ?case using capture_after_error [OF Cons.prems] by simp
qed simp

section \<open>Tracers that never fail\<close>

text \<open>
  The log objects the driver hands to \<open>step\<close> in a state event, and to \<open>fault\<close> after it.
\<close>

definition args_log :: "frames \<Rightarrow> state_args \<Rightarrow> log_obj" where
  "args_log H a =
     \<lparr>lop = a_op a, lstack = f_stack (H (a_frame a)), lmemory = f_memory (H (a_frame a)),
      lcontract = f_contract (H (a_frame a)), lpc = a_pc a, lgas = a_gas a, lcost = a_cost a,
      ldepth = a_depth a, lerror = a_err a\<rparr>"

lemma log_view_set_wrappers: "log_view H (set_wrappers a j) = args_log H a"
  by (simp add: log_view_def set_wrappers_def args_log_def Let_def)

lemma wrappers_frame [simp]:
  "tracerObject (set_wrappers a (init_block b j)) = tracerObject j"
  "terr (set_wrappers a (init_block b j)) = terr j"
  "interrupt (set_wrappers a (init_block b j)) = interrupt j"
  "panicked (set_wrappers a (init_block b j)) = panicked j"
  "interrupt (init_block b j) = interrupt j" "reason (init_block b j) = reason j"
  by (simp_all add: set_wrappers_def init_block_def)

lemma CaptureState_running:
  "terr j = None \<Longrightarrow> \<not> interrupt j \<Longrightarrow>
   CaptureState T H db a j =
     call_method ''step'' (obj_step T (args_log H a) db (tracerObject j))
       (set_wrappers a (init_block (a_block a) j))"
  by (simp add: CaptureState_def Let_def log_view_set_wrappers)

fun event_ok :: "(log_obj \<Rightarrow> bool) \<Rightarrow> event \<Rightarrow> bool" where
  "event_ok ok (EvState H db a) = ok (args_log H a)"
| "event_ok ok _ = True"

locale safe_tracer =
  fixes T :: "'s tracer_obj"
    and inv :: "'s \<Rightarrow> bool"
    and ok :: "log_obj \<Rightarrow> bool"
  assumes inv_init: "inv (obj_init T)"
    and step_safe: "inv s \<Longrightarrow> ok l \<Longrightarrow> \<exists>s'. obj_step T l d s = Return () s' \<and> inv s'"
    and fault_safe: "inv s \<Longrightarrow> lerror l = Some e \<Longrightarrow> \<exists>s'. obj_fault T l d' s = Return () s' \<and> inv s'"
begin

definition fine :: "'s Tracer \<Rightarrow> bool" where
  "fine j = (inv (tracerObject j) \<and> panicked j = None \<and>
     (terr j = None \<or> (\<exists>r. terr j = Some (Interrupted r) \<and> interrupt j)))"

lemma fine_New: "fine (New T)"
  by (simp add: fine_def New_def inv_init)

lemma fine_capture:
  assumes "fine j" "event_ok ok ev"
  shows "fine (capture T ev j)"
proof (cases ev)
  case (EvState H db a)
  show ?thesis
  proof (cases "terr j = None \<and> \<not> interrupt j")
    case True
    then obtain s' where "obj_step T (args_log H a) db (tracerObject j) = Return () s'" "inv s'"
      using step_safe [of "tracerObject j" "args_log H a" db] assms EvState by (auto simp: fine_def)
    with True EvState assms(1) show ?thesis
      by (simp add: CaptureState_running call_method_def fine_def)
  next
    case False
    then show ?thesis using assms(1) EvState
      by (cases "reason j") (auto simp: CaptureState_def fine_def init_block_def Let_def)
  qed
next
  case (EvFault H db err)
  show ?thesis
  proof (cases "terr j = None")
    case True
    define j1 where "j1 = j\<lparr>errorValue := Some err\<rparr>"
    have "lerror (log_view H j1) = Some err" by (simp add: j1_def log_view_def Let_def)
    moreover have "inv (tracerObject j1)" using assms(1) by (simp add: fine_def j1_def)
    ultimately obtain s' where s': "inv s'"
      "obj_fault T (log_view H j1) (current_db db j1) (tracerObject j1) = Return () s'"
      using fault_safe by blast
    then have "capture T ev j = j1\<lparr>tracerObject := s'\<rparr>"
      using True EvFault by (simp add: CaptureFault_def call_method_def j1_def)
    then show ?thesis using assms(1) s'(1) True by (simp add: fine_def j1_def)
  qed (use assms(1) EvFault in \<open>auto simp: CaptureFault_def\<close>)
qed (use assms(1) in \<open>auto simp: capture_defs fine_def split: option.splits\<close>)

lemma fine_captures: "fine j \<Longrightarrow> list_all (event_ok ok) evs \<Longrightarrow> fine (captures T evs j)"
proof (induction evs arbitrary: j)
  case (Cons ev evs)
  then show ?case by (simp add: fine_capture)
qed simp

text \<open>
  A trace of such a tracer never panics, and its only possible error is the interruption that
  a caller of \<open>Stop\<close> asked for.
\<close>

lemma captures_safe:
  assumes "list_all (event_ok ok) evs"
  shows "panicked (captures T evs (New T)) = None"
    and "terr (captures T evs (New T)) = None \<or>
         (\<exists>r. terr (captures T evs (New T)) = Some (Interrupted r))"
    and "inv (tracerObject (captures T evs (New T)))"
  using fine_captures [OF fine_New assms] by (auto simp: fine_def)

end

section \<open>Sequences of steps\<close>

text \<open>
  The state events alone determine what a tracer with an empty \<open>fault\<close> computes.
\<close>

fun run_steps ::
    "(log_obj \<Rightarrow> StateDB \<Rightarrow> 's \<Rightarrow> ('s, unit) outcome) \<Rightarrow> (log_obj \<times> StateDB) list \<Rightarrow> 's \<Rightarrow>
     ('s, unit) outcome" where
  "run_steps step [] s = Return () s"
| "run_steps step ((l, d) # rest) s = andThen (step l d s) (\<lambda>_. run_steps step rest)"

fun state_logs :: "event list \<Rightarrow> (log_obj \<times> StateDB) list" where
  "state_logs [] = []"
| "state_logs (EvState H db a # evs) = (args_log H a, db) # state_logs evs"
| "state_logs (_ # evs) = state_logs evs"

definition is_stop :: "event \<Rightarrow> bool" where
  "is_stop ev = (\<exists>r. ev = EvStop r)"

lemma run_steps_append:
  "run_steps step (xs @ ys) s = andThen (run_steps step xs s) (\<lambda>_. run_steps step ys)"
proof (induction xs arbitrary: s)
  case (Cons p xs)
  obtain l d where "p = (l, d)" by (cases p)
  then show ?case by (cases "step l d s") (simp_all add: Cons.IH)
qed simp

lemma state_logs_Cons: "state_logs (ev # evs) = state_logs [ev] @ state_logs evs"
  by (cases ev) simp_all

text \<open>
  When \<open>fault\<close> does nothing and nobody calls \<open>Stop\<close>, a trace is a run of \<open>step\<close> over the
  captured states; a throw is recorded and ends the run.
\<close>

lemma capture_run_steps:
  assumes fault: "\<And>l d s. obj_fault T l d s = Return () s" and "\<not> is_stop ev"
    and "terr j = None" "\<not> interrupt j" "panicked j = None"
  shows "\<not> interrupt (capture T ev j)"
    and "run_steps (obj_step T) (state_logs [ev]) (tracerObject j) = Return () s' \<Longrightarrow>
      tracerObject (capture T ev j) = s' \<and> terr (capture T ev j) = None \<and>
      panicked (capture T ev j) = None"
    and "run_steps (obj_step T) (state_logs [ev]) (tracerObject j) = Throw TypeError s' \<Longrightarrow>
      tracerObject (capture T ev j) = s' \<and>
      terr (capture T ev j) = Some (InMethod ''step'' TypeError) \<and> panicked (capture T ev j) = None"
proof -
  have intr: "interrupt (call_method m r j') = interrupt j'" for m r and j' :: "'a Tracer"
    by (cases r; simp add: call_method_def note_throw_cases split: js_error.split)
  show "\<not> interrupt (capture T ev j)"
    using assms(2-5)
    by (cases ev) (simp_all add: CaptureStart_def CaptureState_running CaptureFault_def CaptureEnd_def
        is_stop_def intr Let_def split: option.split)
  show "run_steps (obj_step T) (state_logs [ev]) (tracerObject j) = Return () s' \<Longrightarrow>
      tracerObject (capture T ev j) = s' \<and> terr (capture T ev j) = None \<and>
      panicked (capture T ev j) = None"
    using assms(2-5) fault
    by (cases ev) (auto simp: CaptureStart_def CaptureState_running CaptureFault_def CaptureEnd_def
        is_stop_def call_method_def andThen_Return_iff Let_def split: option.splits)
  show "run_steps (obj_step T) (state_logs [ev]) (tracerObject j) = Throw TypeError s' \<Longrightarrow>
      tracerObject (capture T ev j) = s' \<and>
      terr (capture T ev j) = Some (InMethod ''step'' TypeError) \<and> panicked (capture T ev j) = None"
    using assms(2-5)
    by (cases ev) (auto simp: CaptureState_running call_method_def andThen_Throw_iff)
qed

lemma captures_run_steps:
  assumes fault: "\<And>l d s. obj_fault T l d s = Return () s"
    and "list_all (\<lambda>ev. \<not> is_stop ev) evs"
    and "terr j = None" "\<not> interrupt j" "panicked j = None"
    and "run_steps (obj_step T) (state_logs evs) (tracerObject j) = Return () s'"
  shows "tracerObject (captures T evs j) = s' \<and> terr (captures T evs j) = None \<and>
    panicked (captures T evs j) = None"
  using assms(2-6)
proof (induction evs arbitrary: j)
  case (Cons ev evs)
  have ev: "\<not> is_stop ev" using Cons.prems(1) by simp
  obtain s1 where s1: "run_steps (obj_step T) (state_logs [ev]) (tracerObject j) = Return () s1"
    "run_steps (obj_step T) (state_logs evs) s1 = Return () s'"
    using Cons.prems(5) unfolding state_logs_Cons [of ev evs] run_steps_append andThen_Return_iff
    by auto
  note cap = capture_run_steps [OF fault ev Cons.prems(2-4)]
  have "tracerObject (capture T ev j) = s1" "terr (capture T ev j) = None"
    "panicked (capture T ev j) = None" "\<not> interrupt (capture T ev j)"
    using cap(1) cap(2) [OF s1(1)] by simp_all
  then show ?case using Cons.IH [of "capture T ev j"] Cons.prems(1,4) s1(2) by simp
qed simp

lemma captures_type_error:
  assumes fault: "\<And>l d s. obj_fault T l d s = Return () s"
    and "list_all (\<lambda>ev. \<not> is_stop ev) evs"
    and "terr j = None" "\<not> interrupt j" "panicked j = None"
    and "run_steps (obj_step T) (state_logs evs) (tracerObject j) = Throw TypeError s'"
  shows "tracerObject (captures T evs j) = s' \<and>
    terr (captures T evs j) = Some (InMethod ''step'' TypeError)"
  using assms(2-6)
proof (induction evs arbitrary: j)
  case (Cons ev evs)
  have ev: "\<not> is_stop ev" using Cons.prems(1) by simp
  note cap = capture_run_steps [OF fault ev Cons.prems(2-4)]
  show ?case
  proof (cases "run_steps (obj_step T) (state_logs [ev]) (tracerObject j)")
    case (Return u s1)
    then have rest: "run_steps (obj_step T) (state_logs evs) s1 = Throw TypeError s'"
      using Cons.prems(5) unfolding state_logs_Cons [of ev evs] run_steps_append by simp
    have "tracerObject (capture T ev j) = s1" "terr (capture T ev j) = None"
      "panicked (capture T ev j) = None" "\<not> interrupt (capture T ev j)"
      using cap(1) cap(2) [of s1] Return by simp_all
    then show ?thesis using Cons.IH [of "capture T ev j"] Cons.prems(1,4) rest by simp
  next
    case (Throw e s1)
    then have "e = TypeError" "s1 = s'"
      using Cons.prems(5) unfolding state_logs_Cons [of ev evs] run_steps_append by simp_all
    then have stop: "tracerObject (capture T ev j) = s'"
      "terr (capture T ev j) = Some (InMethod ''step'' TypeError)"
      using cap(3) [of s'] Throw by simp_all
    then show ?thesis using captures_after_error [OF stop(2), of T evs] Cons.prems(4) by simp
  qed
qed simp

text \<open>
  \<open>runs T evs s s'\<close>: from a tracer that is running with the object \<open>s\<close>, the events lead to a
  running tracer with the object \<open>s'\<close>. Runs compose.
\<close>

definition running :: "'s Tracer \<Rightarrow> bool" where
  "running j = (terr j = None \<and> \<not> interrupt j \<and> panicked j = None)"

definition runs :: "'s tracer_obj \<Rightarrow> event list \<Rightarrow> 's \<Rightarrow> 's \<Rightarrow> bool" where
  "runs T evs s s' = (\<forall>j. running j \<and> tracerObject j = s \<longrightarrow>
     running (captures T evs j) \<and> tracerObject (captures T evs j) = s')"

lemma runs_Nil [simp]: "runs T [] s s"
  by (simp add: runs_def)

lemma captures_append:
  "captures T (es @ fs) j = captures T fs (captures T es j)"
proof (induction es arbitrary: j)
  case (Cons e es)
  have stop: "captures T gs j = j" if "panicked j \<noteq> None" for gs using that by (cases gs) auto
  show ?case using Cons.IH stop by (cases "panicked j = None") auto
qed simp

lemma runs_append: "runs T es s s1 \<Longrightarrow> runs T fs s1 s2 \<Longrightarrow> runs T (es @ fs) s s2"
  by (simp add: runs_def captures_append)

lemma runs_Cons: "runs T [e] s s1 \<Longrightarrow> runs T fs s1 s2 \<Longrightarrow> runs T (e # fs) s s2"
  using runs_append [of T "[e]"] by simp

lemma runs_step: "obj_step T (args_log H a) db s = Return () s' \<Longrightarrow> runs T [EvState H db a] s s'"
  by (auto simp: runs_def running_def CaptureState_running call_method_def)

lemma runs_fault:
  assumes "\<And>l d. lerror l = Some err \<Longrightarrow> obj_fault T l d s = Return () s'"
  shows "runs T [EvFault H db err] s s'"
proof -
  have "lerror (log_view H (j\<lparr>errorValue := Some err\<rparr>)) = Some err" for j :: "'a Tracer"
    by (simp add: log_view_def Let_def)
  then show ?thesis using assms
    by (auto simp: runs_def running_def CaptureFault_def call_method_def)
qed

lemma runs_other:
  "runs T [EvEnd out used t err] s s" "runs T [EvStart from to create input gas value] s s"
  by (simp_all add: runs_def running_def CaptureEnd_def CaptureStart_def Let_def split: option.split)

lemma runs_New:
  "runs T evs (obj_init T) s' \<Longrightarrow>
   terr (captures T evs (New T)) = None \<and> tracerObject (captures T evs (New T)) = s'"
  by (simp add: runs_def running_def New_def)

text \<open>The database pointer is set by the first captured state and stays set.\<close>

lemma dbSet_capture: "dbSet j \<Longrightarrow> dbSet (capture T ev j)"
  by (cases ev) (auto simp: capture_defs note_throw_cases split: outcome.splits js_error.splits option.splits)

lemma dbSet_captures: "dbSet j \<Longrightarrow> dbSet (captures T evs j)"
  by (induction evs arbitrary: j) (simp_all add: dbSet_capture)

lemma dbSet_state:
  "terr j = None \<Longrightarrow> \<not> interrupt j \<Longrightarrow> state_logs [ev] \<noteq> [] \<Longrightarrow> dbSet (capture T ev j)"
  by (cases ev) (auto simp: capture_defs note_throw_cases split: outcome.splits js_error.splits)

lemma interrupt_capture: "\<not> is_stop ev \<Longrightarrow> interrupt (capture T ev j) = interrupt j"
  by (cases ev) (auto simp: capture_defs note_throw_cases is_stop_def
      split: outcome.splits js_error.splits option.splits)

lemma captures_dbSet:
  assumes "list_all (\<lambda>ev. \<not> is_stop ev) evs" "\<not> interrupt j"
    and "terr (captures T evs j) = None" "panicked (captures T evs j) = None" "state_logs evs \<noteq> []"
  shows "dbSet (captures T evs j)"
  using assms
proof (induction evs arbitrary: j)
  case (Cons ev evs)
  have "terr j = None" using captures_after_error [of j _ T "ev # evs"] Cons.prems(3)
    by (metis option.exhaust option.distinct(1))
  show ?case
  proof (cases "panicked j = None")
    case True
    show ?thesis
    proof (cases "state_logs [ev] = []")
      case False
      with \<open>terr j = None\<close> Cons.prems(2) True show ?thesis by (simp add: dbSet_captures dbSet_state)
    next
      case none: True
      with Cons.prems True show ?thesis
        using Cons.IH [of "capture T ev j"] state_logs_Cons [of ev evs] by (simp add: interrupt_capture)
    qed
  qed (use Cons.prems(4) in \<open>simp split: if_splits\<close>)
qed simp

locale passive_tracer = safe_tracer +
  assumes fault_id: "obj_fault T l d' s = Return () s"
begin

lemma run_safe:
  "list_all (\<lambda>(l, d). ok l) ls \<Longrightarrow> inv s \<Longrightarrow> \<exists>s'. run_steps (obj_step T) ls s = Return () s' \<and> inv s'"
proof (induction ls arbitrary: s)
  case (Cons p ls)
  obtain l d where p: "p = (l, d)" by (cases p)
  with Cons.prems obtain s1 where "obj_step T l d s = Return () s1" "inv s1"
    using step_safe [of s l d] by auto
  with Cons p show ?case by simp
qed simp

lemma event_ok_logs: "list_all (event_ok ok) evs \<longleftrightarrow> list_all (\<lambda>(l, d). ok l) (state_logs evs)"
  by (induction evs rule: state_logs.induct) simp_all

text \<open>
  Without a call of \<open>Stop\<close>, the object at the end of the trace is the result of running
  \<open>step\<close> over the captured states, and no error is recorded.
\<close>

lemma captures_steps:
  assumes "list_all (\<lambda>ev. \<not> is_stop ev) evs" "list_all (event_ok ok) evs"
  shows "terr (captures T evs (New T)) = None \<and>
    run_steps (obj_step T) (state_logs evs) (obj_init T) =
      Return () (tracerObject (captures T evs (New T)))"
proof -
  obtain s' where s': "run_steps (obj_step T) (state_logs evs) (obj_init T) = Return () s'"
    using run_safe [of "state_logs evs" "obj_init T"] assms(2) inv_init event_ok_logs by auto
  have "tracerObject (captures T evs (New T)) = s' \<and> terr (captures T evs (New T)) = None \<and>
      panicked (captures T evs (New T)) = None"
    by (rule captures_run_steps [OF fault_id assms(1)]) (simp_all add: New_def s')
  with s' show ?thesis by simp
qed

end

lemma event_ok_True [simp]: "event_ok (\<lambda>_. True) ev"
  by (cases ev) simp_all

lemma list_all_event_ok_True [simp]: "list_all (event_ok (\<lambda>_. True)) evs"
  by (simp add: list_all_iff)

section \<open>The context over a trace\<close>

definition is_start :: "event \<Rightarrow> bool" where
  "is_start ev = (\<exists>f t c i g v. ev = EvStart f t c i g v)"

lemma note_throw_tctx [simp]: "tctx (note_throw m e j) = tctx j"
  by (cases e) simp_all

lemma call_method_tctx [simp]: "tctx (call_method m r j) = tctx j"
  by (cases r) (simp_all add: call_method_def)

lemma capture_ctx_start:
  assumes "\<not> is_start ev"
  shows "ctx_type (tctx (capture T ev j)) = ctx_type (tctx j)"
    "ctx_from (tctx (capture T ev j)) = ctx_from (tctx j)"
    "ctx_to (tctx (capture T ev j)) = ctx_to (tctx j)"
    "ctx_input (tctx (capture T ev j)) = ctx_input (tctx j)"
    "ctx_value (tctx (capture T ev j)) = ctx_value (tctx j)"
    "ctx_gas (tctx (capture T ev j)) = ctx_gas (tctx j)"
  using assms
  by (cases ev; simp add: is_start_def CaptureState_def CaptureFault_def CaptureEnd_def Stop_def
      init_block_def set_wrappers_def Let_def split: option.splits)+

text \<open>What \<open>CaptureStart\<close> recorded is still there at the end of the trace.\<close>

lemma captures_ctx_start:
  assumes "list_all (\<lambda>ev. \<not> is_start ev) evs"
  shows "ctx_type (tctx (captures T evs j)) = ctx_type (tctx j)"
    "ctx_from (tctx (captures T evs j)) = ctx_from (tctx j)"
    "ctx_to (tctx (captures T evs j)) = ctx_to (tctx j)"
    "ctx_input (tctx (captures T evs j)) = ctx_input (tctx j)"
    "ctx_value (tctx (captures T evs j)) = ctx_value (tctx j)"
    "ctx_gas (tctx (captures T evs j)) = ctx_gas (tctx j)"
  using assms by (induction evs arbitrary: j) (simp_all add: capture_ctx_start)

lemma ctx_after_start:
  assumes "list_all (\<lambda>ev. \<not> is_start ev) evs"
    and "j = captures T (EvStart from to create input gas value # evs) (New T)"
  shows "ctx_type (tctx j) = Some (if create then ''CREATE'' else ''CALL'')"
    "ctx_from (tctx j) = Some from" "ctx_to (tctx j) = Some to" "ctx_input (tctx j) = Some input"
    "ctx_value (tctx j) = Some value" "ctx_gas (tctx j) = Some gas"
proof -
  have j: "j = captures T evs (CaptureStart from to create input gas value (New T))"
    by (simp add: assms(2) New_def)
  show "ctx_type (tctx j) = Some (if create then ''CREATE'' else ''CALL'')"
    "ctx_from (tctx j) = Some from" "ctx_to (tctx j) = Some to" "ctx_input (tctx j) = Some input"
    "ctx_value (tctx j) = Some value" "ctx_gas (tctx j) = Some gas"
    by (simp_all only: j captures_ctx_start [OF assms(1)]) (simp_all add: CaptureStart_def)
qed

lemma captures_end:
  assumes "j = captures T (evs @ [EvEnd output used t err]) (New T)" "running (captures T evs (New T))"
  shows "ctx_output (tctx j) = Some output" "ctx_gasUsed (tctx j) = Some used" "ctx_time (tctx j) = Some t"
    "err = None \<Longrightarrow> ctx_error (tctx j) = ctx_error (tctx (captures T evs (New T)))"
    "err \<noteq> None \<Longrightarrow> ctx_error (tctx j) = err"
  using assms by (auto simp: captures_append running_def CaptureEnd_def Let_def split: option.splits)

text \<open>Only \<open>CaptureEnd\<close> sets the error of the context.\<close>

definition is_end :: "event \<Rightarrow> bool" where
  "is_end ev = (\<exists>out used t err. ev = EvEnd out used t err)"

lemma ctx_error_capture: "\<not> is_end ev \<Longrightarrow> ctx_error (tctx (capture T ev j)) = ctx_error (tctx j)"
  by (cases ev) (auto simp: is_end_def capture_defs note_throw_cases
      split: outcome.splits js_error.splits option.splits)

lemma ctx_error_captures:
  "list_all (\<lambda>ev. \<not> is_end ev) evs \<Longrightarrow> ctx_error (tctx (captures T evs j)) = ctx_error (tctx j)"
  by (induction evs arbitrary: j) (simp_all add: ctx_error_capture)

section \<open>Sample events\<close>

text \<open>Small concrete events, on which the properties are evaluated.\<close>

definition sample_db :: StateDB where
  "sample_db =
     \<lparr>GetBalance = (\<lambda>a. 100), GetNonce = (\<lambda>a. 0), GetCode = (\<lambda>a. []),
      GetState = (\<lambda>a k. replicate 32 0), Exist = (\<lambda>a. True)\<rparr>"

definition sample_state :: "OpCode \<Rightarrow> u64 \<Rightarrow> event" where
  "sample_state op depth =
     EvState (\<lambda>_. nil_frame) sample_db
       \<lparr>a_block = 1, a_pc = 0, a_op = op, a_gas = 100, a_cost = 3, a_frame = 0, a_depth = depth,
        a_err = None\<rparr>"

lemma sample_not_stop [simp]: "\<not> is_stop (sample_state op depth)"
  by (simp add: sample_state_def is_stop_def)

text \<open>
  A frame that is about to call the contract \<open>0x2a\<close> with four bytes of input at offset zero,
  no output and no value.
\<close>

definition call_frame :: frame where
  "call_frame =
     \<lparr>f_stack = \<lparr>data = [0, 0, 4, 0, 0, 42, 50]\<rparr>,
      f_memory = \<lparr>store = replicate 32 7, lastGasCost = 0\<rparr>,
      f_contract = \<lparr>CallerAddress = [1], self = [2], cvalue = 0, Input = []\<rparr>\<rparr>"

definition sample_call :: "u64 \<Rightarrow> event" where
  "sample_call depth =
     EvState (\<lambda>_. call_frame) sample_db
       \<lparr>a_block = 1, a_pc = 0, a_op = CALL, a_gas = 100, a_cost = 60, a_frame = 0,
        a_depth = depth, a_err = None\<rparr>"

lemma sample_call_simps [simp]:
  "\<not> is_stop (sample_call depth)" "\<not> is_start (sample_call depth)"
  "\<not> is_start (sample_state op depth)"
  by (simp_all add: sample_call_def sample_state_def is_stop_def is_start_def)

end
