(* ===== verification/Counting_Tracers.thy ===== *)
theory Counting_Tracers
  imports Tracer_Driver
begin

text \<open>
  The tracers that only count: \<open>noopTracer\<close>, \<open>opcountTracer\<close> and the opcode histograms
  \<open>unigramTracer\<close>, \<open>bigramTracer\<close> and \<open>trigramTracer\<close>. The locale \<open>histogram\<close> is
  the interface they share: a step adds at most one key to a table, and the table then holds the
  number of times each key was added.
\<close>

section \<open>Counters in an object\<close>

fun truthy :: "jsval \<Rightarrow> bool" where
  "truthy JUndef = False"
| "truthy JNull = False"
| "truthy (JBool b) = b"
| "truthy (JNum n) = (n \<noteq> 0)"
| "truthy JNaN = False"
| "truthy (JStr s) = (s \<noteq> [])"
| "truthy _ = True"

fun js_incr :: "jsval \<Rightarrow> jsval" where
  "js_incr (JNum n) = JNum (js_add n 1)"
| "js_incr JNull = JNum 1"
| "js_incr (JBool b) = JNum (if b then 2 else 1)"
| "js_incr _ = JNaN"

text \<open>
  \<open>if (this.hist[key]) this.hist[key]++; else this.hist[key] = 1;\<close> A function found on the
  prototype is truthy, and incrementing it gives \<open>NaN\<close>.
\<close>

definition bump :: "string \<Rightarrow> jsval jsobj \<Rightarrow> jsval jsobj" where
  "bump key hist =
     (case get_prop hist key of
        Own v \<Rightarrow> if truthy v then set_prop key (js_incr v) hist else set_prop key (JNum 1) hist
      | Inherited \<Rightarrow> set_prop key JNaN hist
      | Missing \<Rightarrow> set_prop key (JNum 1) hist)"

text \<open>
  What a table of counters promises: each key that was added maps to how often it was added,
  up to \<open>2 ^ 53\<close> where a double stops counting; the keys stand in the order of first use.
\<close>

definition saturated :: "nat \<Rightarrow> jsval" where
  "saturated n = JNum (int (min n max_int))"

definition counts :: "jsval jsobj \<Rightarrow> string list \<Rightarrow> bool" where
  "counts hist ks =
     (\<forall>k. map_of hist k = (if k \<in> set ks then Some (saturated (count_list ks k)) else None))"

lemma counts_empty [simp]: "counts [] []"
  by (simp add: counts_def)

lemma counts_missing: "counts hist ks \<Longrightarrow> k \<notin> set ks \<Longrightarrow> map_of hist k = None"
  by (simp add: counts_def)

lemma counts_present:
  "counts hist ks \<Longrightarrow> k \<in> set ks \<Longrightarrow> map_of hist k = Some (saturated (count_list ks k))"
  by (simp add: counts_def)

lemma max_int_pos: "0 < max_int"
  by (simp add: max_int_def)

lemma saturated_incr: "js_incr (saturated n) = saturated (Suc n)"
  using js_inc_min [of n] by (simp add: saturated_def)

lemma saturated_truthy: "truthy (saturated n) \<longleftrightarrow> n \<noteq> 0"
  using max_int_pos by (auto simp: saturated_def)

lemma saturated_1: "saturated (Suc 0) = JNum 1"
  by (simp add: saturated_def max_int_def)

lemma count_list_pos: "k \<in> set ks \<longleftrightarrow> count_list ks k \<noteq> 0"
  by (simp add: count_list_0_iff)

lemma counts_set_prop:
  assumes "counts hist ks" "plain_key k"
  shows "counts (set_prop k (saturated (Suc (count_list ks k))) hist) (ks @ [k])"
  using assms by (auto simp: counts_def map_of_set_prop)

lemma counts_bump:
  assumes "counts hist ks" "plain_key k"
  shows "counts (bump k hist) (ks @ [k])"
proof (cases "k \<in> set ks")
  case True
  then have "bump k hist = set_prop k (saturated (Suc (count_list ks k))) hist"
    using assms counts_present [OF assms(1) True]
    by (simp add: bump_def get_prop_plain saturated_truthy saturated_incr count_list_pos)
  with assms show ?thesis by (simp add: counts_set_prop)
next
  case False
  then have "bump k hist = set_prop k (saturated (Suc (count_list ks k))) hist"
    using assms counts_missing [OF assms(1) False]
    by (simp add: bump_def get_prop_plain saturated_1 count_notin)
  with assms show ?thesis by (simp add: counts_set_prop)
qed

section \<open>The histogram interface\<close>

text \<open>The keys that a run of steps adds, in order.\<close>

fun emitted ::
    "(log_obj \<Rightarrow> StateDB \<Rightarrow> 's \<Rightarrow> ('s, unit) outcome) \<Rightarrow> ('s \<Rightarrow> log_obj \<Rightarrow> string option) \<Rightarrow>
     (log_obj \<times> StateDB) list \<Rightarrow> 's \<Rightarrow> string list" where
  "emitted step emit [] s = []"
| "emitted step emit ((l, d) # rest) s =
     (case emit s l of None \<Rightarrow> [] | Some k \<Rightarrow> [k]) @
     emitted step emit rest (obj_of (step l d s))"

locale histogram =
  fixes step :: "log_obj \<Rightarrow> StateDB \<Rightarrow> 's \<Rightarrow> ('s, unit) outcome"
    and hist :: "'s \<Rightarrow> jsval jsobj"
    and emit :: "'s \<Rightarrow> log_obj \<Rightarrow> string option"
    and upd :: "string \<Rightarrow> jsval jsobj \<Rightarrow> jsval jsobj"
    and ok :: "log_obj \<Rightarrow> bool"
  assumes step_returns: "ok l \<Longrightarrow> \<exists>s'. step l d s = Return () s'"
    and hist_step: "ok l \<Longrightarrow> step l d s = Return () s' \<Longrightarrow>
      hist s' = (case emit s l of None \<Rightarrow> hist s | Some k \<Rightarrow> upd k (hist s))"
    and emit_plain: "ok l \<Longrightarrow> emit s l = Some k \<Longrightarrow> plain_key k"
    and upd_counts: "counts o' ks \<Longrightarrow> plain_key k \<Longrightarrow> counts (upd k o') (ks @ [k])"
begin

lemma run_counts:
  assumes "list_all (\<lambda>(l, d). ok l) ls" "counts (hist s) ks"
  shows "\<exists>s'. run_steps step ls s = Return () s' \<and> counts (hist s') (ks @ emitted step emit ls s)"
  using assms
proof (induction ls arbitrary: s ks)
  case (Cons p rest)
  obtain l d where p: "p = (l, d)" by (cases p)
  with Cons.prems have ok: "ok l" by simp
  from step_returns [OF ok] obtain s1 where s1: "step l d s = Return () s1" by blast
  let ?e = "case emit s l of None \<Rightarrow> [] | Some k \<Rightarrow> [k]"
  have "counts (hist s1) (ks @ ?e)"
    using Cons.prems(2) hist_step [OF ok s1] emit_plain [OF ok] upd_counts
    by (cases "emit s l") simp_all
  then obtain s' where "run_steps step rest s1 = Return () s'"
    "counts (hist s') ((ks @ ?e) @ emitted step emit rest s1)"
    using Cons.IH [of s1 "ks @ ?e"] Cons.prems(1) by auto
  with s1 p show ?case by simp
qed simp

text \<open>From an empty table the result counts exactly the keys that the steps emit.\<close>

lemma run_from_empty:
  assumes "list_all (\<lambda>(l, d). ok l) ls" "hist s = []"
  shows "\<exists>s'. run_steps step ls s = Return () s' \<and> counts (hist s') (emitted step emit ls s)"
  using run_counts [OF assms(1), of s "[]"] assms(2) by simp

end

section \<open>noopTracer\<close>

definition noop_step :: "log_obj \<Rightarrow> StateDB \<Rightarrow> unit \<Rightarrow> (unit, unit) outcome" where
  "noop_step l d s = Return () s"

definition noop_fault :: "log_obj \<Rightarrow> StateDB option \<Rightarrow> unit \<Rightarrow> (unit, unit) outcome" where
  "noop_fault l d s = Return () s"

definition noop_result :: "ctx_obj \<Rightarrow> StateDB option \<Rightarrow> unit \<Rightarrow> (unit, jsval) outcome" where
  "noop_result c d s = Return (JObj []) s"

definition noopTracer :: "unit tracer_obj" where
  "noopTracer =
     \<lparr>obj_init = (), obj_step = noop_step, obj_fault = noop_fault, obj_result = noop_result\<rparr>"

section \<open>opcountTracer\<close>

definition opcount_step :: "log_obj \<Rightarrow> StateDB \<Rightarrow> int \<Rightarrow> (int, unit) outcome" where
  "opcount_step l d n = Return () (js_add n 1)"

definition opcount_fault :: "log_obj \<Rightarrow> StateDB option \<Rightarrow> int \<Rightarrow> (int, unit) outcome" where
  "opcount_fault l d n = Return () n"

definition opcount_result :: "ctx_obj \<Rightarrow> StateDB option \<Rightarrow> int \<Rightarrow> (int, jsval) outcome" where
  "opcount_result c d n = Return (JNum n) n"

definition opcountTracer :: "int tracer_obj" where
  "opcountTracer =
     \<lparr>obj_init = 0, obj_step = opcount_step, obj_fault = opcount_fault,
      obj_result = opcount_result\<rparr>"

section \<open>unigramTracer\<close>

record unigram =
  u_hist :: "jsval jsobj"
  u_nops :: int

definition unigram_step :: "log_obj \<Rightarrow> StateDB \<Rightarrow> unigram \<Rightarrow> (unigram, unit) outcome" where
  "unigram_step l d s =
     Return () (s\<lparr>u_hist := bump (op_toString l) (u_hist s), u_nops := js_add (u_nops s) 1\<rparr>)"

definition unigram_fault :: "log_obj \<Rightarrow> StateDB option \<Rightarrow> unigram \<Rightarrow> (unigram, unit) outcome" where
  "unigram_fault l d s = Return () s"

text \<open>Falling off the end of the function returns \<open>undefined\<close>.\<close>

definition unigram_result :: "ctx_obj \<Rightarrow> StateDB option \<Rightarrow> unigram \<Rightarrow> (unigram, jsval) outcome" where
  "unigram_result c d s = Return (if 0 < u_nops s then JObj (u_hist s) else JUndef) s"

definition unigramTracer :: "unigram tracer_obj" where
  "unigramTracer =
     \<lparr>obj_init = \<lparr>u_hist = [], u_nops = 0\<rparr>, obj_step = unigram_step,
      obj_fault = unigram_fault, obj_result = unigram_result\<rparr>"

section \<open>bigramTracer\<close>

record bigram =
  b_hist :: "jsval jsobj"
  b_lastOp :: string
  b_lastDepth :: int

definition bigram_step :: "host \<Rightarrow> log_obj \<Rightarrow> StateDB \<Rightarrow> bigram \<Rightarrow> (bigram, unit) outcome" where
  "bigram_step h l d s =
     (let op = op_toString l; depth = getDepth h l;
          s1 = (if depth = b_lastDepth s
                then s\<lparr>b_hist := bump (b_lastOp s @ ''-'' @ op) (b_hist s)\<rparr> else s)
      in Return () (s1\<lparr>b_lastOp := op, b_lastDepth := depth\<rparr>))"

definition bigram_fault :: "log_obj \<Rightarrow> StateDB option \<Rightarrow> bigram \<Rightarrow> (bigram, unit) outcome" where
  "bigram_fault l d s = Return () s"

definition bigram_result :: "ctx_obj \<Rightarrow> StateDB option \<Rightarrow> bigram \<Rightarrow> (bigram, jsval) outcome" where
  "bigram_result c d s = Return (JObj (b_hist s)) s"

definition bigramTracer :: "host \<Rightarrow> bigram tracer_obj" where
  "bigramTracer h =
     \<lparr>obj_init = \<lparr>b_hist = [], b_lastOp = [], b_lastDepth = 0\<rparr>, obj_step = bigram_step h,
      obj_fault = bigram_fault, obj_result = bigram_result\<rparr>"

section \<open>trigramTracer\<close>

record trigram =
  t_hist :: "jsval jsobj"
  t_lastOps :: "string \<times> string"
  t_lastDepth :: int

definition trigram_key :: "string \<times> string \<Rightarrow> string \<Rightarrow> string" where
  "trigram_key lastOps op = fst lastOps @ ''-'' @ snd lastOps @ ''-'' @ op"

definition trigram_step :: "host \<Rightarrow> log_obj \<Rightarrow> StateDB \<Rightarrow> trigram \<Rightarrow> (trigram, unit) outcome" where
  "trigram_step h l d s =
     (let depth = getDepth h l in
      if depth \<noteq> t_lastDepth s
      then Return () (s\<lparr>t_lastOps := ([], []), t_lastDepth := depth\<rparr>)
      else (let op = op_toString l
            in Return () (s\<lparr>t_hist := bump (trigram_key (t_lastOps s) op) (t_hist s),
                            t_lastOps := (snd (t_lastOps s), op)\<rparr>)))"

definition trigram_fault :: "log_obj \<Rightarrow> StateDB option \<Rightarrow> trigram \<Rightarrow> (trigram, unit) outcome" where
  "trigram_fault l d s = Return () s"

definition trigram_result :: "ctx_obj \<Rightarrow> StateDB option \<Rightarrow> trigram \<Rightarrow> (trigram, jsval) outcome" where
  "trigram_result c d s = Return (JObj (t_hist s)) s"

definition trigramTracer :: "host \<Rightarrow> trigram tracer_obj" where
  "trigramTracer h =
     \<lparr>obj_init = \<lparr>t_hist = [], t_lastOps = ([], []), t_lastDepth = 0\<rparr>,
      obj_step = trigram_step h, obj_fault = trigram_fault, obj_result = trigram_result\<rparr>"

section \<open>Specifications\<close>

text \<open>
  The keys each histogram is about, read off the list of executed steps. Bigrams are the pairs
  of consecutive opcodes at one call depth. Trigrams are taken inside a maximal run of steps at
  one depth without the run's first step, over two empty names in front.
\<close>

fun bigrams :: "host \<Rightarrow> log_obj list \<Rightarrow> string list" where
  "bigrams h (a # b # ls) =
     (if getDepth h a = getDepth h b then [op_toString a @ ''-'' @ op_toString b] else []) @
     bigrams h (b # ls)"
| "bigrams h _ = []"

fun windows :: "string \<times> string \<Rightarrow> string list \<Rightarrow> string list" where
  "windows p [] = []"
| "windows p (c # cs) = trigram_key p c # windows (snd p, c) cs"

function depth_runs :: "host \<Rightarrow> log_obj list \<Rightarrow> log_obj list list" where
  "depth_runs h [] = []"
| "depth_runs h (l # ls) =
     (l # takeWhile (\<lambda>x. getDepth h x = getDepth h l) ls) #
     depth_runs h (dropWhile (\<lambda>x. getDepth h x = getDepth h l) ls)"
  by pat_completeness auto
termination
  by (relation "measure (length \<circ> snd)") (auto simp: le_imp_less_Suc length_dropWhile_le)

definition trigrams :: "host \<Rightarrow> log_obj list \<Rightarrow> string list" where
  "trigrams h ls =
     concat (map (\<lambda>run. windows ([], []) (map op_toString (tl run))) (depth_runs h ls))"

section \<open>Interpretations\<close>

definition unigram_emit :: "unigram \<Rightarrow> log_obj \<Rightarrow> string option" where
  "unigram_emit s l = Some (op_toString l)"

definition bigram_emit :: "host \<Rightarrow> bigram \<Rightarrow> log_obj \<Rightarrow> string option" where
  "bigram_emit h s l =
     (if getDepth h l = b_lastDepth s then Some (b_lastOp s @ ''-'' @ op_toString l) else None)"

definition trigram_emit :: "host \<Rightarrow> trigram \<Rightarrow> log_obj \<Rightarrow> string option" where
  "trigram_emit h s l =
     (if getDepth h l = t_lastDepth s then Some (trigram_key (t_lastOps s) (op_toString l)) else None)"

interpretation uni: histogram unigram_step u_hist unigram_emit bump "\<lambda>_. True"
  by unfold_locales (auto simp: unigram_step_def unigram_emit_def op_toString_def counts_bump)

interpretation bi: histogram "bigram_step h" b_hist "bigram_emit h" bump "\<lambda>_. True" for h
  by unfold_locales
    (auto simp: bigram_step_def bigram_emit_def Let_def counts_bump plain_key_hyphen split: if_splits)

interpretation tri: histogram "trigram_step h" t_hist "trigram_emit h" bump "\<lambda>_. True" for h
  by unfold_locales
    (auto simp: trigram_step_def trigram_emit_def trigram_key_def Let_def counts_bump
      plain_key_hyphen split: if_splits)

lemmas counting_defs = noopTracer_def opcountTracer_def unigramTracer_def bigramTracer_def
  trigramTracer_def noop_step_def opcount_step_def unigram_step_def bigram_step_def
  trigram_step_def noop_fault_def opcount_fault_def unigram_fault_def bigram_fault_def
  trigram_fault_def

interpretation noop_safe: passive_tracer noopTracer "\<lambda>_. True" "\<lambda>_. True"
  by unfold_locales (simp_all add: counting_defs)

interpretation opcount_safe: passive_tracer opcountTracer "\<lambda>_. True" "\<lambda>_. True"
  by unfold_locales (simp_all add: counting_defs)

interpretation unigram_safe: passive_tracer unigramTracer "\<lambda>_. True" "\<lambda>_. True"
  by unfold_locales (simp_all add: counting_defs)

interpretation bigram_safe: passive_tracer "bigramTracer h" "\<lambda>_. True" "\<lambda>_. True" for h
  by unfold_locales (simp_all add: counting_defs Let_def)

interpretation trigram_safe: passive_tracer "trigramTracer h" "\<lambda>_. True" "\<lambda>_. True" for h
  by unfold_locales (simp_all add: counting_defs Let_def)

section \<open>What the histograms count\<close>

lemma unigram_emitted: "emitted unigram_step unigram_emit ls s = map (op_toString \<circ> fst) ls"
  by (induction ls arbitrary: s) (auto simp: unigram_emit_def)

lemma bigram_emitted:
  "emitted (bigram_step h) (bigram_emit h) ls s =
     (case ls of
        [] \<Rightarrow> []
      | (l, d) # _ \<Rightarrow>
          (if getDepth h l = b_lastDepth s then [b_lastOp s @ ''-'' @ op_toString l] else []) @
          bigrams h (map fst ls))"
proof (induction ls arbitrary: s)
  case (Cons p rest)
  obtain l d where "p = (l, d)" by (cases p)
  then show ?case
    by (auto simp: bigram_emit_def [of h s l] bigram_step_def [of h l d s] Let_def Cons.IH
        split: list.splits)
qed simp

lemma trigrams_Cons:
  "trigrams h (l # ls) =
     windows ([], []) (map op_toString (takeWhile (\<lambda>x. getDepth h x = getDepth h l) ls)) @
     trigrams h (dropWhile (\<lambda>x. getDepth h x = getDepth h l) ls)"
  by (simp add: trigrams_def)

lemma trigram_emitted:
  "emitted (trigram_step h) (trigram_emit h) ls s =
     windows (t_lastOps s)
       (map op_toString (takeWhile (\<lambda>x. getDepth h x = t_lastDepth s) (map fst ls))) @
     trigrams h (dropWhile (\<lambda>x. getDepth h x = t_lastDepth s) (map fst ls))"
proof (induction ls arbitrary: s)
  case Nil
  then show ?case by (simp add: trigrams_def)
next
  case (Cons p rest)
  obtain l d where "p = (l, d)" by (cases p)
  then show ?case
    by (simp add: trigram_emit_def [of h s l] trigram_step_def [of h l d s] Let_def trigrams_Cons
        Cons.IH)
qed

lemma unigram_nops:
  "run_steps unigram_step ls s = Return () s' \<Longrightarrow> u_nops s = int (min n max_int) \<Longrightarrow>
   u_nops s' = int (min (n + length ls) max_int)"
proof (induction ls arbitrary: s n)
  case (Cons p ls)
  obtain l d where "p = (l, d)" by (cases p)
  with Cons.prems(1) have "run_steps unigram_step ls (obj_of (unigram_step l d s)) = Return () s'"
    by (simp add: unigram_step_def [of l d s])
  moreover have "u_nops (obj_of (unigram_step l d s)) = int (min (Suc n) max_int)"
    using Cons.prems(2) js_inc_min [of n] by (simp add: unigram_step_def [of l d s])
  ultimately have "u_nops s' = int (min (Suc n + length ls) max_int)" by (rule Cons.IH)
  then show ?case by simp
qed simp

lemma opcount_run:
  "run_steps opcount_step ls (int (min n max_int)) = Return () (int (min (n + length ls) max_int))"
proof (induction ls arbitrary: n)
  case (Cons p ls)
  obtain l d where "p = (l, d)" by (cases p)
  then show ?case
    using Cons.IH [of "Suc n"] js_inc_min [of n]
    by (simp add: opcount_step_def [of l d])
qed simp

section \<open>Properties\<close>

text \<open>C32: At the end of every trace that nobody stopped, \<open>opcountTracer\<close> reports the number of captured
  steps, up to \<open>2 ^ 53\<close> where a JavaScript counter no longer grows, and no error.\<close>

theorem opcount_reports_steps:
  assumes "list_all (\<lambda>ev. \<not> is_stop ev) evs"
  shows "GetResult opcountTracer db (captures opcountTracer evs (New opcountTracer)) =
    (Some (JNum (int (min (length (state_logs evs)) max_int))), None)"
  using opcount_safe.captures_steps [OF assms] opcount_run [of "state_logs evs" 0]
  by (auto simp: GetResult_def opcountTracer_def opcount_result_def)

theorem opcount_reports_steps_witness:
  "list_all (\<lambda>ev. \<not> is_stop ev) [sample_state 1 1, sample_state 2 1] \<and>
   GetResult opcountTracer sample_db
     (captures opcountTracer [sample_state 1 1, sample_state 2 1] (New opcountTracer)) =
     (Some (JNum 2), None)"
proof -
  have ok: "list_all (\<lambda>ev. \<not> is_stop ev) [sample_state 1 1, sample_state 2 1]" by simp
  have "length (state_logs [sample_state 1 1, sample_state 2 1]) = 2"
    by (simp add: sample_state_def)
  with ok opcount_reports_steps [OF ok, of sample_db] show ?thesis by (simp add: max_int_def)
qed

text \<open>C31: \<open>unigramTracer\<close> reports, for every trace that nobody stopped, a table that maps each executed
  opcode's name to how often it was executed (up to \<open>2 ^ 53\<close>) and has no other key; without any
  step it reports \<open>undefined\<close>. No opcode name collides with the object prototype.\<close>

theorem unigram_reports_counts:
  assumes "list_all (\<lambda>ev. \<not> is_stop ev) evs"
  shows "\<exists>hist.
    GetResult unigramTracer db (captures unigramTracer evs (New unigramTracer)) =
      (Some (if state_logs evs = [] then JUndef else JObj hist), None) \<and>
    counts hist (map (op_toString \<circ> fst) (state_logs evs))"
proof -
  define s where "s = tracerObject (captures unigramTracer evs (New unigramTracer))"
  have run: "terr (captures unigramTracer evs (New unigramTracer)) = None"
    "run_steps unigram_step (state_logs evs) \<lparr>u_hist = [], u_nops = 0\<rparr> = Return () s"
    using unigram_safe.captures_steps [OF assms] by (simp_all add: unigramTracer_def s_def)
  then have "u_nops s = int (min (length (state_logs evs)) max_int)"
    using unigram_nops [of "state_logs evs" _ s 0] by simp
  then have "0 < u_nops s \<longleftrightarrow> state_logs evs \<noteq> []" using max_int_pos by auto
  moreover have "counts (u_hist s) (map (op_toString \<circ> fst) (state_logs evs))"
    using uni.run_from_empty [of "state_logs evs" "\<lparr>u_hist = [], u_nops = 0\<rparr>"] run(2)
    by (simp add: unigram_emitted list_all_iff)
  ultimately show ?thesis
    using run(1) by (auto simp: GetResult_def unigramTracer_def unigram_result_def s_def)
qed

theorem unigram_reports_counts_witness:
  "list_all (\<lambda>ev. \<not> is_stop ev) [sample_state 1 1, sample_state 1 1] \<and>
   (\<exists>hist.
      GetResult unigramTracer sample_db
        (captures unigramTracer [sample_state 1 1, sample_state 1 1] (New unigramTracer)) =
        (Some (JObj hist), None) \<and>
      map_of hist ''ADD'' = Some (JNum 2))"
proof -
  have ok: "list_all (\<lambda>ev. \<not> is_stop ev) [sample_state 1 1, sample_state 1 1]" by simp
  have logs: "map (op_toString \<circ> fst) (state_logs [sample_state 1 1, sample_state 1 1]) = [''ADD'', ''ADD'']"
    by (simp add: sample_state_def op_toString_def args_log_def op_String_def opCodeToString_def)
  then have ne: "state_logs [sample_state 1 1, sample_state 1 1] \<noteq> []" by auto
  from unigram_reports_counts [OF ok, of sample_db] ne logs obtain hist where
    "GetResult unigramTracer sample_db
       (captures unigramTracer [sample_state 1 1, sample_state 1 1] (New unigramTracer)) =
       (Some (JObj hist), None)" "counts hist [''ADD'', ''ADD'']" by auto
  then show ?thesis using ok by (auto simp: counts_def saturated_def max_int_def)
qed

text \<open>C29: \<open>bigramTracer\<close> reports exactly the consecutive pairs of opcodes executed at the same call depth,
  each with its number of occurrences: a pair across a call or a return is never counted. EVM
  depths start at one, so no step has depth zero.\<close>

theorem bigram_reports_pairs:
  assumes "list_all (\<lambda>ev. \<not> is_stop ev) evs"
    and "\<forall>(l, d) \<in> set (state_logs evs). getDepth h l \<noteq> 0"
  shows "\<exists>hist.
    GetResult (bigramTracer h) db (captures (bigramTracer h) evs (New (bigramTracer h))) =
      (Some (JObj hist), None) \<and>
    counts hist (bigrams h (map fst (state_logs evs)))"
proof -
  let ?T = "bigramTracer h" and ?s0 = "\<lparr>b_hist = [], b_lastOp = [], b_lastDepth = 0\<rparr>"
  define s where "s = tracerObject (captures ?T evs (New ?T))"
  have run: "terr (captures ?T evs (New ?T)) = None"
    "run_steps (bigram_step h) (state_logs evs) ?s0 = Return () s"
    using bigram_safe.captures_steps [OF assms(1)] by (simp_all add: bigramTracer_def s_def)
  have "emitted (bigram_step h) (bigram_emit h) (state_logs evs) ?s0 =
      bigrams h (map fst (state_logs evs))"
    using assms(2) by (auto simp: bigram_emitted split: list.splits)
  then have "counts (b_hist s) (bigrams h (map fst (state_logs evs)))"
    using bi.run_from_empty [of "state_logs evs" ?s0 h] run(2) by (simp add: list_all_iff)
  then show ?thesis
    using run(1) by (auto simp: GetResult_def bigramTracer_def bigram_result_def s_def)
qed

theorem bigram_reports_pairs_witness:
  "list_all (\<lambda>ev. \<not> is_stop ev) [sample_state 1 1, sample_state 2 1, sample_state 2 2] \<and>
   (\<exists>hist.
      GetResult (bigramTracer ref_host) sample_db
        (captures (bigramTracer ref_host) [sample_state 1 1, sample_state 2 1, sample_state 2 2]
          (New (bigramTracer ref_host))) = (Some (JObj hist), None) \<and>
      map_of hist ''ADD-MUL'' = Some (JNum 1) \<and> map_of hist ''MUL-MUL'' = None)"
proof -
  let ?evs = "[sample_state 1 1, sample_state 2 1, sample_state 2 2]"
  have ok: "list_all (\<lambda>ev. \<not> is_stop ev) ?evs" by simp
  have depths: "\<forall>(l, d) \<in> set (state_logs ?evs). getDepth ref_host l \<noteq> 0"
    by (simp add: sample_state_def getDepth_def args_log_def ref_host_def)
  have logs: "bigrams ref_host (map fst (state_logs ?evs)) = [''ADD-MUL'']"
    by (simp add: sample_state_def op_toString_def args_log_def op_String_def opCodeToString_def
        getDepth_def ref_host_def)
  from bigram_reports_pairs [OF ok depths, of sample_db] logs obtain hist where
    "GetResult (bigramTracer ref_host) sample_db
       (captures (bigramTracer ref_host) ?evs (New (bigramTracer ref_host))) =
       (Some (JObj hist), None)" "counts hist [''ADD-MUL'']" by auto
  then show ?thesis using ok depths by (auto simp: counts_def saturated_def max_int_def)
qed

text \<open>C30: \<open>trigramTracer\<close> reports the windows of three opcodes inside each maximal run of steps at one
  depth. The first step of every run only resets the window and is never part of a key, and the
  first two keys of a run have empty names in them.\<close>

theorem trigram_reports_windows:
  assumes "list_all (\<lambda>ev. \<not> is_stop ev) evs"
    and "\<forall>(l, d) \<in> set (state_logs evs). getDepth h l \<noteq> 0"
  shows "\<exists>hist.
    GetResult (trigramTracer h) db (captures (trigramTracer h) evs (New (trigramTracer h))) =
      (Some (JObj hist), None) \<and>
    counts hist (trigrams h (map fst (state_logs evs)))"
proof -
  let ?T = "trigramTracer h" and ?s0 = "\<lparr>t_hist = [], t_lastOps = ([], []), t_lastDepth = 0\<rparr>"
  define s where "s = tracerObject (captures ?T evs (New ?T))"
  have run: "terr (captures ?T evs (New ?T)) = None"
    "run_steps (trigram_step h) (state_logs evs) ?s0 = Return () s"
    using trigram_safe.captures_steps [OF assms(1)] by (simp_all add: trigramTracer_def s_def)
  have "takeWhile (\<lambda>x. getDepth h x = 0) (map fst (state_logs evs)) = []"
    "dropWhile (\<lambda>x. getDepth h x = 0) (map fst (state_logs evs)) = map fst (state_logs evs)"
    using assms(2) by (cases "state_logs evs"; auto)+
  then have "emitted (trigram_step h) (trigram_emit h) (state_logs evs) ?s0 =
      trigrams h (map fst (state_logs evs))"
    by (simp add: trigram_emitted)
  then have "counts (t_hist s) (trigrams h (map fst (state_logs evs)))"
    using tri.run_from_empty [of "state_logs evs" ?s0 h] run(2) by (simp add: list_all_iff)
  then show ?thesis
    using run(1) by (auto simp: GetResult_def trigramTracer_def trigram_result_def s_def)
qed

theorem trigram_reports_windows_witness:
  "list_all (\<lambda>ev. \<not> is_stop ev) [sample_state 1 1, sample_state 2 1, sample_state 3 1] \<and>
   (\<exists>hist.
      GetResult (trigramTracer ref_host) sample_db
        (captures (trigramTracer ref_host) [sample_state 1 1, sample_state 2 1, sample_state 3 1]
          (New (trigramTracer ref_host))) = (Some (JObj hist), None) \<and>
      map_of hist ''--MUL'' = Some (JNum 1) \<and> map_of hist ''-MUL-SUB'' = Some (JNum 1) \<and>
      map_of hist ''ADD-MUL-SUB'' = None)"
proof -
  let ?evs = "[sample_state 1 1, sample_state 2 1, sample_state 3 1]"
  have ok: "list_all (\<lambda>ev. \<not> is_stop ev) ?evs" by simp
  have depths: "\<forall>(l, d) \<in> set (state_logs ?evs). getDepth ref_host l \<noteq> 0"
    by (simp add: sample_state_def getDepth_def args_log_def ref_host_def)
  have logs: "trigrams ref_host (map fst (state_logs ?evs)) = [''--MUL'', ''-MUL-SUB'']"
    by (simp add: sample_state_def op_toString_def args_log_def op_String_def opCodeToString_def
        getDepth_def ref_host_def trigrams_def trigram_key_def)
  from trigram_reports_windows [OF ok depths, of sample_db] logs obtain hist where
    "GetResult (trigramTracer ref_host) sample_db
       (captures (trigramTracer ref_host) ?evs (New (trigramTracer ref_host))) =
       (Some (JObj hist), None)" "counts hist [''--MUL'', ''-MUL-SUB'']" by auto
  then show ?thesis using ok depths by (auto simp: counts_def saturated_def max_int_def)
qed

end
