(* ===== verification/FourByte_Tracer.thy ===== *)
theory FourByte_Tracer
  imports Counting_Tracers
begin

text \<open>
  \<open>4byteTracer\<close> (\<^verbatim>\<open>4byte_tracer.js\<close>): collects the method identifiers that calls pass, with the
  size of the remaining call data. Its table of identifiers is another instance of the
  histogram interface.
\<close>

section \<open>The tracer\<close>

text \<open>\<open>callType\<close> returns \<open>false\<close> (here \<open>None\<close>) or the index of the first input word.\<close>

definition callType :: "string \<Rightarrow> nat option" where
  "callType opstr =
     (if opstr = ''CALL'' \<or> opstr = ''CALLCODE'' then Some 3
      else if opstr = ''DELEGATECALL'' \<or> opstr = ''STATICCALL'' then Some 2
      else None)"

text \<open>
  \<open>v + 1\<close> and \<open>v || 1\<close> on values; adding to a string or an object concatenates. The table only ever holds
  numbers. A key that \<open>store\<close> builds contains a hyphen and is not a name of the prototype
  (\<open>store_key_plain\<close> below), so reading it finds an own property or nothing.
\<close>

fun plus_one :: "jsval \<Rightarrow> jsval" where
  "plus_one JUndef = JNaN"
| "plus_one JNull = JNum 1"
| "plus_one (JBool b) = JNum (if b then 2 else 1)"
| "plus_one (JNum n) = JNum (js_add n 1)"
| "plus_one JNaN = JNaN"
| "plus_one (JStr s) = JStr (s @ ''1'')"
| "plus_one _ = JStr ''[object Object]1''"

definition or_one :: "jsval \<Rightarrow> jsval" where
  "or_one v = (if truthy v then v else JNum 1)"

definition bump_or_one :: "string \<Rightarrow> jsval jsobj \<Rightarrow> jsval jsobj" where
  "bump_or_one key ids =
     set_prop key
       (or_one (case map_of ids key of
                  Some v \<Rightarrow> plus_one v
                | None \<Rightarrow> plus_one JUndef)) ids"

definition store_key :: "host \<Rightarrow> byte list \<Rightarrow> int \<Rightarrow> string" where
  "store_key h ident sz = toHex h ident @ ''-'' @ number_to_string sz"

definition fourbyte_store :: "host \<Rightarrow> byte list \<Rightarrow> int \<Rightarrow> jsval jsobj \<Rightarrow> jsval jsobj" where
  "fourbyte_store h ident sz ids = bump_or_one (store_key h ident sz) ids"

definition fourbyte_step ::
    "host \<Rightarrow> log_obj \<Rightarrow> StateDB \<Rightarrow> jsval jsobj \<Rightarrow> (jsval jsobj, unit) outcome" where
  "fourbyte_step h l d ids =
     (case callType (op_toString l) of
        None \<Rightarrow> Return () ids
      | Some ct \<Rightarrow>
          if isPrecompiled h (toAddress h (Inr (toBase 16 (peek l 1)))) then Return () ids
          else (let inSz = valueOf (peek l (ct + 1)) in
                if 4 \<le> inSz then
                  (let inOff = valueOf (peek l ct) in
                   evalTo (memory_slice h l (Some inOff) (Some (js_add inOff 4))) ids
                     (\<lambda>ident. Return () (fourbyte_store h ident (js_sub inSz 4) ids)))
                else Return () ids))"

definition fourbyte_fault ::
    "log_obj \<Rightarrow> StateDB option \<Rightarrow> jsval jsobj \<Rightarrow> (jsval jsobj, unit) outcome" where
  "fourbyte_fault l d ids = Return () ids"

definition fourbyte_result ::
    "host \<Rightarrow> ctx_obj \<Rightarrow> StateDB option \<Rightarrow> jsval jsobj \<Rightarrow> (jsval jsobj, jsval) outcome" where
  "fourbyte_result h c d ids =
     (case ctx_input c of
        None \<Rightarrow> Throw TypeError ids
      | Some input \<Rightarrow>
          (let n = int (length input);
               ids' = (if 4 \<le> n
                       then fourbyte_store h (slice h input (Some 0) (Some 4)) (js_sub n 4) ids
                       else ids)
           in Return (JObj ids') ids'))"

definition fourbyteTracer :: "host \<Rightarrow> jsval jsobj tracer_obj" where
  "fourbyteTracer h =
     \<lparr>obj_init = [], obj_step = fourbyte_step h, obj_fault = fourbyte_fault,
      obj_result = fourbyte_result h\<rparr>"

section \<open>What it collects\<close>

text \<open>
  The identifier of one call: the first four bytes of its input in memory and the size of the
  rest, for calls of contracts (not precompiles) with at least four bytes of input.
\<close>

definition call_ident :: "host \<Rightarrow> log_obj \<Rightarrow> string option" where
  "call_ident h l =
     (case callType (op_toString l) of
        None \<Rightarrow> None
      | Some ct \<Rightarrow>
          if isPrecompiled h (HexToAddress h (toBase 16 (peek l 1))) then None
          else (let inOff = js_round (peek l ct); inSz = js_round (peek l (ct + 1))
                in if inSz < 4 then None
                   else case memory_slice h l (Some inOff) (Some (js_add inOff 4)) of
                          Inl _ \<Rightarrow> None
                        | Inr ident \<Rightarrow> Some (store_key h ident (js_sub inSz 4))))"

lemma counts_bump_or_one:
  assumes "counts ids ks" "plain_key k"
  shows "counts (bump_or_one k ids) (ks @ [k])"
proof -
  have "or_one (plus_one (saturated n)) = saturated (Suc n)" for n
    using js_inc_min [of n] saturated_truthy [of "Suc n"] by (simp add: or_one_def saturated_def)
  then have "bump_or_one k ids = set_prop k (saturated (Suc (count_list ks k))) ids"
    using assms(2) counts_present [OF assms(1), of k] counts_missing [OF assms(1), of k]
    by (cases "k \<in> set ks")
      (simp_all add: bump_or_one_def get_prop_plain count_notin saturated_1 or_one_def)
  with assms show ?thesis by (simp add: counts_set_prop)
qed

lemma store_key_plain [simp]: "plain_key (store_key h ident sz)"
  by (rule plain_key_hyphen) (simp add: store_key_def)

definition fourbyte_ok :: "host \<Rightarrow> log_obj \<Rightarrow> bool" where
  "fourbyte_ok h l = (duk_numbers h \<and> evm_log l)"

lemma fourbyte_step_eq:
  assumes "fourbyte_ok h l"
  shows "fourbyte_step h l d ids =
    Return () (case call_ident h l of None \<Rightarrow> ids | Some k \<Rightarrow> bump_or_one k ids)"
proof (cases "callType (op_toString l)")
  case None
  then show ?thesis by (simp add: fourbyte_step_def call_ident_def)
next
  case (Some ct)
  obtain bs where bs: "memory_slice h l (Some (js_round (peek l ct)))
      (Some (js_add (js_round (peek l ct)) 4)) = Inr bs"
    using memory_slice_valueOf [of h l 4 ct] assms by (auto simp: fourbyte_ok_def valueOf_def)
  show ?thesis
    using Some bs by (simp add: fourbyte_step_def call_ident_def Let_def valueOf_def fourbyte_store_def)
qed

interpretation fourbyte: histogram "fourbyte_step h" "\<lambda>ids. ids" "\<lambda>_. call_ident h" bump_or_one
  "fourbyte_ok h" for h
proof unfold_locales
  fix l d s k
  assume ok: "fourbyte_ok h l"
  show "\<exists>s'. fourbyte_step h l d s = Return () s'"
    by (simp add: fourbyte_step_eq [OF ok])
  show "call_ident h l = Some k \<Longrightarrow> plain_key k"
    by (auto simp: call_ident_def Let_def split: option.splits if_splits sum.splits)
qed (auto simp: fourbyte_step_eq counts_bump_or_one)

interpretation fourbyte_safe: passive_tracer "fourbyteTracer h" "\<lambda>_. True" "fourbyte_ok h" for h
  by unfold_locales (simp_all add: fourbyteTracer_def fourbyte_step_eq fourbyte_fault_def)

lemma fourbyte_emitted:
  "list_all (\<lambda>(l, d). fourbyte_ok h l) ls \<Longrightarrow>
   emitted (fourbyte_step h) (\<lambda>_. call_ident h) ls ids = List.map_filter (call_ident h \<circ> fst) ls"
proof (induction ls arbitrary: ids)
  case (Cons p ls)
  obtain l d where "p = (l, d)" by (cases p)
  with Cons show ?case by (cases "call_ident h l") (simp_all add: List.map_filter_def)
qed (simp add: List.map_filter_def)

section \<open>Properties\<close>



text \<open>C9: For every trace of a call with the given input that nobody stopped, \<open>4byteTracer\<close> reports a
  table that counts the identifiers of all inner calls and, when it has at least four bytes, that
  of the outer call data; there is no error.\<close>

theorem fourbyte_reports_identifiers:
  assumes "duk_numbers h"
    and "list_all (\<lambda>ev. \<not> is_stop ev \<and> \<not> is_start ev) evs"
    and "\<forall>(l, d) \<in> set (state_logs evs). evm_log l"
    and "length input < 2147483648"
  shows "\<exists>ids.
    GetResult (fourbyteTracer h) db
      (captures (fourbyteTracer h) (EvStart from to create input gas value # evs)
        (New (fourbyteTracer h))) = (Some (JObj ids), None) \<and>
    counts ids
      (List.map_filter (call_ident h \<circ> fst) (state_logs evs) @
       (if 4 \<le> length input then [store_key h (take 4 input) (int (length input) - 4)] else []))"
proof -
  let ?T = "fourbyteTracer h" and ?evs = "EvStart from to create input gas value # evs"
  let ?ls = "state_logs evs"
  define j where "j = captures ?T ?evs (New ?T)"
  have oks: "list_all (\<lambda>(l, d). fourbyte_ok h l) ?ls"
    using assms(1,3) by (auto simp: list_all_iff fourbyte_ok_def)
  have "list_all (event_ok (fourbyte_ok h)) evs"
    using oks by (induction evs rule: state_logs.induct) simp_all
  moreover have "list_all (\<lambda>ev. \<not> is_stop ev) ?evs"
    using assms(2) by (auto simp: list_all_iff is_stop_def)
  ultimately have run: "terr j = None" "run_steps (fourbyte_step h) ?ls [] = Return () (tracerObject j)"
    using fourbyte_safe.captures_steps [of ?evs h] by (simp_all add: fourbyteTracer_def j_def)
  have idents: "counts (tracerObject j) (List.map_filter (call_ident h \<circ> fst) ?ls)"
    using fourbyte.run_from_empty [OF oks, of "[]"] run(2) by (simp add: fourbyte_emitted [OF oks])
  have input: "ctx_input (tctx j) = Some input"
    by (rule ctx_after_start(4) [OF _ j_def]) (use assms(2) in \<open>simp add: list_all_iff\<close>)
  have small: "js_sub (int (length input)) 4 = int (length input) - 4"
    "4 \<le> length input \<Longrightarrow> slice h input (Some 0) (Some 4) = take 4 input"
    using assms(1,4) by (simp_all add: js_num max_int_def slice_def GetInt_small Let_def)
  define ids where "ids = (if 4 \<le> length input
      then bump_or_one (store_key h (take 4 input) (int (length input) - 4)) (tracerObject j)
      else tracerObject j)"
  have "GetResult ?T db j = (Some (JObj ids), None)"
    using run(1) input small
    by (simp add: GetResult_def fourbyteTracer_def fourbyte_result_def fourbyte_store_def Let_def ids_def)
  moreover have "counts ids (List.map_filter (call_ident h \<circ> fst) ?ls @
      (if 4 \<le> length input then [store_key h (take 4 input) (int (length input) - 4)] else []))"
    using idents counts_bump_or_one [OF idents store_key_plain] by (simp add: ids_def)
  ultimately show ?thesis unfolding j_def by blast
qed

theorem fourbyte_reports_identifiers_witness:
  "\<exists>ids.
    GetResult (fourbyteTracer ref_host) sample_db
      (captures (fourbyteTracer ref_host)
        (EvStart [1] [2] False [9, 9, 9, 9, 9] 1000 0 # [sample_state 1 1])
        (New (fourbyteTracer ref_host))) = (Some (JObj ids), None) \<and>
    counts ids [store_key ref_host [9, 9, 9, 9] 1]"
proof -
  have h1: "list_all (\<lambda>ev. \<not> is_stop ev \<and> \<not> is_start ev) [sample_state 1 1]" by simp
  have h2: "\<forall>(l, d) \<in> set (state_logs [sample_state 1 1]). evm_log l"
    by (simp add: sample_state_def evm_log_def args_log_def nil_frame_def newstack_def)
  have "List.map_filter (call_ident ref_host \<circ> fst) (state_logs [sample_state 1 1]) = []"
    by (simp add: sample_state_def List.map_filter_def call_ident_def callType_def op_toString_def
        args_log_def)
  then show ?thesis
    using fourbyte_reports_identifiers [OF ref_duk_numbers h1 h2, of "[9, 9, 9, 9, 9]" sample_db "[1]" "[2]"
        False 1000 0]
    by simp
qed

end
