(* ===== verification/Prestate_Tracer.thy ===== *)
theory Prestate_Tracer
  imports Tracer_Driver
begin

text \<open>
  \<open>prestateTracer\<close> (\<^verbatim>\<open>prestate_tracer.js\<close>): assembles the accounts and storage slots that a
  transaction touches, as they were before it, from the database at the moment of the first
  access.
\<close>

section \<open>The tracer\<close>

record account =
  balance :: string
  nonce :: int
  code :: string
  storage :: "string jsobj"

text \<open>The field \<open>prestate\<close> is \<open>null\<close> until the first step.\<close>

type_synonym prestate = "account jsobj option"

definition lookupAccount ::
    "host \<Rightarrow> byte list \<Rightarrow> StateDB option \<Rightarrow> prestate \<Rightarrow> (prestate, unit) outcome" where
  "lookupAccount h addr db ps =
     (let acc = toHex h addr in
      case ps of
        None \<Rightarrow> Throw TypeError ps
      | Some accts \<Rightarrow>
          (case get_prop accts acc of
             Missing \<Rightarrow>
               (case db of
                  None \<Rightarrow> Throw (GoPanic ''nil pointer dereference'') ps
                | Some d \<Rightarrow>
                    Return () (Some (set_prop acc
                      \<lparr>balance = hex0x (db_getBalance h d addr), nonce = db_getNonce h d addr,
                       code = toHex h (db_getCode h d addr), storage = []\<rparr> accts)))
           | _ \<Rightarrow> Return () ps))"

definition lookupStorage ::
    "host \<Rightarrow> byte list \<Rightarrow> byte list \<Rightarrow> StateDB \<Rightarrow> prestate \<Rightarrow> (prestate, unit) outcome" where
  "lookupStorage h addr key db ps =
     (let acc = toHex h addr; idx = toHex h key in
      case ps of
        None \<Rightarrow> Throw TypeError ps
      | Some accts \<Rightarrow>
          (case get_prop accts acc of
             Own a \<Rightarrow>
               (case get_prop (storage a) idx of
                  Missing \<Rightarrow>
                    Return () (Some (set_prop acc
                      (a\<lparr>storage := set_prop idx (toHex h (db_getState h db addr key)) (storage a)\<rparr>)
                      accts))
                | _ \<Rightarrow> Return () ps)
           | _ \<Rightarrow> Throw TypeError ps))"

text \<open>\<open>step\<close>: the switch on the opcode's name.\<close>

definition prestate_op :: "host \<Rightarrow> log_obj \<Rightarrow> StateDB \<Rightarrow> prestate \<Rightarrow> (prestate, unit) outcome" where
  "prestate_op h l db ps =
     (let op = op_toString l; from = getAddress l in
      if op = ''EXTCODECOPY'' \<or> op = ''EXTCODESIZE'' \<or> op = ''BALANCE'' then
        lookupAccount h (toAddress h (Inr (toBase 16 (peek l 0)))) (Some db) ps
      else if op = ''CREATE'' then
        lookupAccount h (toContract h (Inl from) (Some (db_getNonce h db from))) (Some db) ps
      else if op = ''CREATE2'' then
        (let offset = valueOf (peek l 1); sz = valueOf (peek l 2); e = js_add offset sz in
         evalTo (memory_slice h l (Some offset) (Some e)) ps
           (\<lambda>bs. lookupAccount h (toContract2 h (Inl from) (toBase 16 (peek l 3)) (Inl bs)) (Some db) ps))
      else if op = ''CALL'' \<or> op = ''CALLCODE'' \<or> op = ''DELEGATECALL'' \<or> op = ''STATICCALL'' then
        lookupAccount h (toAddress h (Inr (toBase 16 (peek l 1)))) (Some db) ps
      else if op = ''SSTORE'' \<or> op = ''SLOAD'' then
        lookupStorage h from (toWord h (Inr (toBase 16 (peek l 0)))) db ps
      else Return () ps)"

definition prestate_step :: "host \<Rightarrow> log_obj \<Rightarrow> StateDB \<Rightarrow> prestate \<Rightarrow> (prestate, unit) outcome" where
  "prestate_step h l db ps =
     andThen
       (case ps of None \<Rightarrow> lookupAccount h (getAddress l) (Some db) (Some [])
                 | Some _ \<Rightarrow> Return () ps)
       (\<lambda>_. prestate_op h l db)"

definition prestate_fault :: "log_obj \<Rightarrow> StateDB option \<Rightarrow> prestate \<Rightarrow> (prestate, unit) outcome" where
  "prestate_fault l db ps = Return () ps"

text \<open>\<open>prestate[acc].balance\<close>, read as a number: a missing account is a type error.\<close>

definition balance_of :: "account jsobj \<Rightarrow> string \<Rightarrow> js_error + int" where
  "balance_of accts acc =
     (case get_prop accts acc of
        Own a \<Rightarrow> Inr (parseBase 16 (drop 2 (balance a)))
      | _ \<Rightarrow> Inl TypeError)"

definition set_balance :: "string \<Rightarrow> int \<Rightarrow> account jsobj \<Rightarrow> account jsobj" where
  "set_balance acc v accts =
     (case get_prop accts acc of
        Own a \<Rightarrow> set_prop acc (a\<lparr>balance := hex0x v\<rparr>) accts
      | _ \<Rightarrow> accts)"

definition dec_nonce :: "string \<Rightarrow> account jsobj \<Rightarrow> account jsobj" where
  "dec_nonce acc accts =
     (case get_prop accts acc of
        Own a \<Rightarrow> set_prop acc (a\<lparr>nonce := js_sub (nonce a) 1\<rparr>) accts
      | _ \<Rightarrow> accts)"

definition delete_prop :: "string \<Rightarrow> 'v jsobj \<Rightarrow> 'v jsobj" where
  "delete_prop k o' = filter (\<lambda>(k', _). k' \<noteq> k) o'"

fun account_json :: "account \<Rightarrow> jsval" where
  "account_json a =
     JObj [(''balance'', JStr (balance a)), (''nonce'', JNum (nonce a)), (''code'', JStr (code a)),
           (''storage'', JObj (map (\<lambda>(k, v). (k, JStr v)) (storage a)))]"

definition accounts_json :: "account jsobj \<Rightarrow> jsval" where
  "accounts_json accts = JObj (map (\<lambda>(k, a). (k, account_json a)) accts)"

text \<open>The part of \<open>result\<close> after the sender was looked up.\<close>

definition settle ::
    "host \<Rightarrow> ctx_obj \<Rightarrow> account jsobj \<Rightarrow> (prestate, jsval) outcome" where
  "settle h c accts =
     (let from = toHex h (buffer (ctx_from c)); to = toHex h (buffer (ctx_to c)) in
      evalTo (balance_of accts from) (Some accts) (\<lambda>fromBal.
      evalTo (balance_of accts to) (Some accts) (\<lambda>toBal.
      case ctx_value c of
        None \<Rightarrow> Throw TypeError (Some accts)
      | Some value \<Rightarrow>
          (let a1 = set_balance to (toBal - value) accts;
               a2 = set_balance from (fromBal + value) a1;
               a3 = dec_nonce from a2;
               a4 = (if ctx_type c = Some ''CREATE'' then delete_prop to a3 else a3)
           in Return (accounts_json a4) (Some a4)))))"

definition prestate_result ::
    "host \<Rightarrow> ctx_obj \<Rightarrow> StateDB option \<Rightarrow> prestate \<Rightarrow> (prestate, jsval) outcome" where
  "prestate_result h c db ps =
     andThen (lookupAccount h (buffer (ctx_from c)) db ps)
       (\<lambda>_ ps'. case ps' of None \<Rightarrow> Throw TypeError None | Some accts \<Rightarrow> settle h c accts)"

definition prestateTracer :: "host \<Rightarrow> prestate tracer_obj" where
  "prestateTracer h =
     \<lparr>obj_init = None, obj_step = prestate_step h, obj_fault = prestate_fault,
      obj_result = prestate_result h\<rparr>"

section \<open>First access wins\<close>

text \<open>
  An extension of the accounts: what is recorded stays as it is, slots and accounts are only
  added.
\<close>

definition same_account :: "account \<Rightarrow> account \<Rightarrow> bool" where
  "same_account a a' =
     (balance a' = balance a \<and> nonce a' = nonce a \<and> code a' = code a \<and>
      map_of (storage a) \<subseteq>\<^sub>m map_of (storage a'))"

definition extends :: "account jsobj \<Rightarrow> account jsobj \<Rightarrow> bool" where
  "extends accts accts' =
     (\<forall>k a. map_of accts k = Some a \<longrightarrow> (\<exists>a'. map_of accts' k = Some a' \<and> same_account a a'))"

lemma same_account_refl [simp]: "same_account a a"
  by (simp add: same_account_def)

lemma same_account_trans: "same_account a b \<Longrightarrow> same_account b c \<Longrightarrow> same_account a c"
  by (auto simp: same_account_def intro: map_le_trans)

lemma extendsI:
  "(\<And>k a. map_of accts k = Some a \<Longrightarrow> \<exists>a'. map_of accts' k = Some a' \<and> same_account a a') \<Longrightarrow>
   extends accts accts'"
  by (simp add: extends_def)

lemma extendsE:
  assumes "extends accts accts'" "map_of accts k = Some a"
  obtains a' where "map_of accts' k = Some a'" "same_account a a'"
  using assms unfolding extends_def by blast

lemma extends_refl [simp]: "extends accts accts"
  by (simp add: extends_def)

lemma extends_trans:
  assumes "extends x y" "extends y z"
  shows "extends x z"
proof (rule extendsI)
  fix k a
  assume "map_of x k = Some a"
  with assms(1) obtain b where b: "map_of y k = Some b" "same_account a b" by (rule extendsE)
  from assms(2) b(1) obtain c where "map_of z k = Some c" "same_account b c" by (rule extendsE)
  with b(2) show "\<exists>c. map_of z k = Some c \<and> same_account a c" using same_account_trans by blast
qed

definition recorded :: "host \<Rightarrow> byte list \<Rightarrow> account jsobj \<Rightarrow> bool" where
  "recorded h addr accts = (map_of accts (toHex h addr) \<noteq> None)"

lemma recorded_extends: "extends accts accts' \<Longrightarrow> recorded h addr accts \<Longrightarrow> recorded h addr accts'"
  unfolding recorded_def by (metis extendsE not_None_eq)

lemma extends_new: "map_of accts k = None \<Longrightarrow> extends accts (set_prop k a accts)"
  by (rule extendsI) (auto simp: set_prop_def)

lemma lookupAccount_effect:
  assumes "hex_encoding h"
  shows "\<exists>accts'. lookupAccount h addr (Some d) (Some accts) = Return () (Some accts') \<and>
    extends accts accts' \<and> recorded h addr accts'"
proof (cases "map_of accts (toHex h addr)")
  case None
  then show ?thesis
    using toHex_plain [OF assms, of addr]
    by (simp add: lookupAccount_def Let_def get_prop_plain extends_new recorded_def map_of_set_prop)
next
  case (Some a)
  then show ?thesis
    using toHex_plain [OF assms, of addr]
    by (simp add: lookupAccount_def Let_def get_prop_plain recorded_def)
qed

text \<open>A new account is recorded with the database's values at that moment.\<close>

lemma lookupAccount_new:
  assumes "hex_encoding h" "\<not> recorded h addr accts"
  shows "lookupAccount h addr (Some d) (Some accts) =
    Return () (Some (set_prop (toHex h addr)
      \<lparr>balance = hex0x (db_getBalance h d addr), nonce = db_getNonce h d addr,
       code = toHex h (db_getCode h d addr), storage = []\<rparr> accts))"
  using assms toHex_plain [OF assms(1), of addr]
  by (simp add: lookupAccount_def Let_def get_prop_plain recorded_def)

lemma extends_storage:
  assumes "map_of accts k = Some a" "plain_key k" "map_of (storage a) \<subseteq>\<^sub>m map_of st"
  shows "extends accts (set_prop k (a\<lparr>storage := st\<rparr>) accts)"
proof (rule extendsI)
  fix k' b
  assume "map_of accts k' = Some b"
  with assms show "\<exists>a'. map_of (set_prop k (a\<lparr>storage := st\<rparr>) accts) k' = Some a' \<and>
      same_account b a'"
    by (cases "k = k'") (simp_all add: map_of_set_prop same_account_def)
qed

text \<open>
  What \<open>lookupStorage\<close> does to a recorded account: a slot seen for the first time is recorded
  with its value in the database.
\<close>

lemma lookupStorage_own:
  assumes h: "hex_encoding h" and a: "map_of accts (toHex h addr) = Some a"
  shows "lookupStorage h addr key d (Some accts) =
    Return () (Some (if map_of (storage a) (toHex h key) = None
      then set_prop (toHex h addr)
        (a\<lparr>storage := set_prop (toHex h key) (toHex h (db_getState h d addr key)) (storage a)\<rparr>) accts
      else accts))"
  using a toHex_plain [OF h, of addr] toHex_plain [OF h, of key]
  by (cases "map_of (storage a) (toHex h key)")
    (simp_all add: lookupStorage_def Let_def get_prop_plain)

lemma lookupStorage_effect:
  assumes h: "hex_encoding h" and rec: "recorded h addr accts"
  shows "\<exists>accts'. lookupStorage h addr key d (Some accts) = Return () (Some accts') \<and>
    extends accts accts'"
proof -
  obtain a where a: "map_of accts (toHex h addr) = Some a" using rec by (auto simp: recorded_def)
  show ?thesis
  proof (cases "map_of (storage a) (toHex h key)")
    case None
    have "map_of (storage a) \<subseteq>\<^sub>m
        map_of (set_prop (toHex h key) (toHex h (db_getState h d addr key)) (storage a))"
      using None toHex_plain [OF h, of key] by (auto simp: map_le_def map_of_set_prop)
    from extends_storage [OF a toHex_plain [OF h] this] None show ?thesis
      by (simp add: lookupStorage_own [OF h a])
  qed (simp add: lookupStorage_own [OF h a])
qed

lemma lookupStorage_missing:
  assumes "hex_encoding h" "\<not> recorded h addr accts"
  shows "lookupStorage h addr key d (Some accts) = Throw TypeError (Some accts)"
  using assms toHex_plain [OF assms(1), of addr]
  by (simp add: lookupStorage_def Let_def get_prop_plain recorded_def)

section \<open>What a run records\<close>

text \<open>
  The addresses and the storage slot that one step looks up, and the accounts and slots of a
  run with the database each was read from, in the order of the accesses. \<^const>\<open>map_of\<close> gives
  the first access.
\<close>

definition touches :: "host \<Rightarrow> log_obj \<Rightarrow> StateDB \<Rightarrow> byte list option" where
  "touches h l d =
     (let op = op_toString l in
      if op = ''EXTCODECOPY'' \<or> op = ''EXTCODESIZE'' \<or> op = ''BALANCE''
      then Some (HexToAddress h (toBase 16 (peek l 0)))
      else if op = ''CREATE''
      then Some (toContract h (Inl (getAddress l)) (Some (db_getNonce h d (getAddress l))))
      else if op = ''CREATE2''
      then (case memory_slice h l (Some (js_round (peek l 1)))
                   (Some (js_add (js_round (peek l 1)) (js_round (peek l 2)))) of
              Inl _ \<Rightarrow> None
            | Inr bs \<Rightarrow> Some (toContract2 h (Inl (getAddress l)) (toBase 16 (peek l 3)) (Inl bs)))
      else if op = ''CALL'' \<or> op = ''CALLCODE'' \<or> op = ''DELEGATECALL'' \<or> op = ''STATICCALL''
      then Some (HexToAddress h (toBase 16 (peek l 1)))
      else None)"

definition slot_of :: "host \<Rightarrow> log_obj \<Rightarrow> (byte list \<times> byte list) option" where
  "slot_of h l =
     (if op_toString l = ''SSTORE'' \<or> op_toString l = ''SLOAD''
      then Some (getAddress l, HexToHash h (toBase 16 (peek l 0))) else None)"

fun access :: "'a option \<Rightarrow> 'b \<Rightarrow> ('a \<times> 'b) list" where
  "access None d = []"
| "access (Some a) d = [(a, d)]"

fun account_accesses :: "host \<Rightarrow> (log_obj \<times> StateDB) list \<Rightarrow> (byte list \<times> StateDB) list" where
  "account_accesses h [] = []"
| "account_accesses h ((l, d) # ls) = access (touches h l d) d @ account_accesses h ls"

fun slot_accesses ::
    "host \<Rightarrow> (log_obj \<times> StateDB) list \<Rightarrow> ((byte list \<times> byte list) \<times> StateDB) list" where
  "slot_accesses h [] = []"
| "slot_accesses h ((l, d) # ls) = access (slot_of h l) d @ slot_accesses h ls"

text \<open>Every storage access is made by a contract that was looked up before.\<close>

fun covered :: "host \<Rightarrow> byte list set \<Rightarrow> (log_obj \<times> StateDB) list \<Rightarrow> bool" where
  "covered h A [] = True"
| "covered h A ((l, d) # ls) =
     ((slot_of h l \<noteq> None \<longrightarrow> getAddress l \<in> A) \<and>
      covered h (case touches h l d of None \<Rightarrow> A | Some a \<Rightarrow> insert a A) ls)"

text \<open>The accounts agree with the first accesses \<open>ts\<close>, their slots with \<open>ss\<close>.\<close>

definition account_from :: "host \<Rightarrow> StateDB \<Rightarrow> byte list \<Rightarrow> account \<Rightarrow> bool" where
  "account_from h d addr a =
     (balance a = hex0x (db_getBalance h d addr) \<and> nonce a = db_getNonce h d addr \<and>
      code a = toHex h (db_getCode h d addr))"

definition accounts_ok :: "host \<Rightarrow> (byte list \<times> StateDB) list \<Rightarrow> account jsobj \<Rightarrow> bool" where
  "accounts_ok h ts accts =
     (\<forall>addr. case map_of ts addr of
        None \<Rightarrow> map_of accts (toHex h addr) = None
      | Some d \<Rightarrow> \<exists>a. map_of accts (toHex h addr) = Some a \<and> account_from h d addr a)"

definition slots_ok ::
    "host \<Rightarrow> ((byte list \<times> byte list) \<times> StateDB) list \<Rightarrow> account jsobj \<Rightarrow> bool" where
  "slots_ok h ss accts =
     (\<forall>addr key a. map_of accts (toHex h addr) = Some a \<longrightarrow>
        map_of (storage a) (toHex h key) =
          map_option (\<lambda>d. toHex h (db_getState h d addr key)) (map_of ss (addr, key)))"

definition agrees ::
    "host \<Rightarrow> (byte list \<times> StateDB) list \<Rightarrow> ((byte list \<times> byte list) \<times> StateDB) list \<Rightarrow>
     account jsobj \<Rightarrow> bool" where
  "agrees h ts ss accts =
     (accounts_ok h ts accts \<and> slots_ok h ss accts \<and> fst ` fst ` set ss \<subseteq> fst ` set ts)"

lemma prestate_op_cases:
  assumes "duk_numbers h" "evm_log l"
  shows "prestate_op h l d ps =
    (case touches h l d of
       Some a \<Rightarrow> lookupAccount h a (Some d) ps
     | None \<Rightarrow> (case slot_of h l of
                  Some (a, k) \<Rightarrow> lookupStorage h a k d ps
                | None \<Rightarrow> Return () ps))"
proof -
  have nonneg: "0 \<le> js_round (peek l i)" for i using peek_nonneg [OF assms(2)] by simp
  obtain bs where "memory_slice h l (Some (js_round (peek l 1)))
      (Some (js_add (js_round (peek l 1)) (js_round (peek l 2)))) = Inr bs"
    using memory_slice_valueOf [OF assms nonneg, of 1 2] by (auto simp: valueOf_def)
  then show ?thesis
    by (simp add: prestate_op_def touches_def slot_of_def Let_def valueOf_def)
qed

lemma accounts_ok_None:
  "accounts_ok h ts accts \<Longrightarrow> map_of ts addr = None \<Longrightarrow> map_of accts (toHex h addr) = None"
  unfolding accounts_ok_def by (drule spec [of _ addr]) simp

lemma accounts_ok_Some:
  assumes "accounts_ok h ts accts" "map_of ts addr = Some d"
  obtains a where "map_of accts (toHex h addr) = Some a" "account_from h d addr a"
  using assms unfolding accounts_ok_def by (drule_tac spec [of _ addr]) auto

lemma accounts_ok_recorded:
  assumes "accounts_ok h ts accts"
  shows "recorded h addr accts \<longleftrightarrow> addr \<in> fst ` set ts"
proof (cases "map_of ts addr")
  case None
  with accounts_ok_None [OF assms None] show ?thesis by (simp add: recorded_def map_of_eq_None_iff)
next
  case (Some d)
  obtain a where "map_of accts (toHex h addr) = Some a" by (rule accounts_ok_Some [OF assms Some])
  then have "recorded h addr accts" by (simp add: recorded_def)
  moreover have "addr \<in> fst ` set ts" using map_of_SomeD [OF Some] by force
  ultimately show ?thesis by simp
qed

lemma accounts_okI:
  assumes "\<And>addr. map_of ts addr = None \<Longrightarrow> map_of accts (toHex h addr) = None"
    and "\<And>addr d. map_of ts addr = Some d \<Longrightarrow>
      \<exists>a. map_of accts (toHex h addr) = Some a \<and> account_from h d addr a"
  shows "accounts_ok h ts accts"
  using assms unfolding accounts_ok_def by (simp split: option.split)

lemma map_of_snoc:
  "map_of (ts @ [(k, v)]) k' = (if map_of ts k' = None \<and> k' = k then Some v else map_of ts k')"
  by (cases "map_of ts k'") (auto simp: map_add_def)

declare map_of_append [simp del]

lemma accounts_ok_known:
  assumes "accounts_ok h ts accts" "map_of ts addr \<noteq> None"
  shows "accounts_ok h (ts @ [(addr, d)]) accts"
proof (rule accounts_okI)
  fix addr'
  assume "map_of (ts @ [(addr, d)]) addr' = None"
  then show "map_of accts (toHex h addr') = None"
    using accounts_ok_None [OF assms(1)] by (simp add: map_of_snoc split: if_splits)
next
  fix addr' d'
  assume "map_of (ts @ [(addr, d)]) addr' = Some d'"
  then have "map_of ts addr' = Some d'" using assms(2) by (auto simp: map_of_snoc split: if_splits)
  then show "\<exists>a. map_of accts (toHex h addr') = Some a \<and> account_from h d' addr' a"
    using accounts_ok_Some [OF assms(1)] by blast
qed

lemma accounts_ok_add:
  assumes "hex_encoding h" "accounts_ok h ts accts" "map_of ts addr = None" "account_from h d addr a"
  shows "accounts_ok h (ts @ [(addr, d)]) (set_prop (toHex h addr) a accts)"
proof (rule accounts_okI)
  fix addr'
  assume "map_of (ts @ [(addr, d)]) addr' = None"
  then have "map_of ts addr' = None" "addr \<noteq> addr'" by (auto simp: map_of_snoc split: if_splits)
  then show "map_of (set_prop (toHex h addr) a accts) (toHex h addr') = None"
    using accounts_ok_None [OF assms(2)] toHex_plain [OF assms(1), of addr]
    by (simp add: map_of_set_prop toHex_inj [OF assms(1)])
next
  fix addr' d'
  assume "map_of (ts @ [(addr, d)]) addr' = Some d'"
  then consider "addr' = addr" "d' = d" | "addr \<noteq> addr'" "map_of ts addr' = Some d'"
    using assms(3) by (cases "addr = addr'") (auto simp: map_of_snoc split: if_splits)
  then show "\<exists>b. map_of (set_prop (toHex h addr) a accts) (toHex h addr') = Some b \<and>
      account_from h d' addr' b"
  proof cases
    case 1
    then show ?thesis using assms(4) toHex_plain [OF assms(1), of addr] by (simp add: map_of_set_prop)
  next
    case 2
    obtain b where "map_of accts (toHex h addr') = Some b" "account_from h d' addr' b"
      using accounts_ok_Some [OF assms(2) 2(2)] by blast
    then show ?thesis using 2(1) toHex_plain [OF assms(1), of addr]
      by (simp add: map_of_set_prop toHex_inj [OF assms(1)])
  qed
qed

lemma accounts_ok_storage:
  assumes "hex_encoding h" "accounts_ok h ts accts" "map_of accts (toHex h addr) = Some a"
  shows "accounts_ok h ts (set_prop (toHex h addr) (a\<lparr>storage := st\<rparr>) accts)"
proof (rule accounts_okI)
  fix addr'
  assume "map_of ts addr' = None"
  then have "map_of accts (toHex h addr') = None" by (rule accounts_ok_None [OF assms(2)])
  then show "map_of (set_prop (toHex h addr) (a\<lparr>storage := st\<rparr>) accts) (toHex h addr') = None"
    using assms(3) toHex_plain [OF assms(1), of addr] by (auto simp: map_of_set_prop)
next
  fix addr' d'
  assume "map_of ts addr' = Some d'"
  then obtain b where "map_of accts (toHex h addr') = Some b" "account_from h d' addr' b"
    by (rule accounts_ok_Some [OF assms(2)])
  then show "\<exists>b. map_of (set_prop (toHex h addr) (a\<lparr>storage := st\<rparr>) accts) (toHex h addr') = Some b \<and>
      account_from h d' addr' b"
    using assms(3) toHex_plain [OF assms(1), of addr]
    by (cases "toHex h addr = toHex h addr'") (simp_all add: map_of_set_prop account_from_def)
qed

lemma slots_okI:
  assumes "\<And>addr key a. map_of accts (toHex h addr) = Some a \<Longrightarrow>
      map_of (storage a) (toHex h key) =
        map_option (\<lambda>d. toHex h (db_getState h d addr key)) (map_of ss (addr, key))"
  shows "slots_ok h ss accts"
  using assms by (simp add: slots_ok_def)

lemma slots_okD:
  "slots_ok h ss accts \<Longrightarrow> map_of accts (toHex h addr) = Some a \<Longrightarrow>
   map_of (storage a) (toHex h key) =
     map_option (\<lambda>d. toHex h (db_getState h d addr key)) (map_of ss (addr, key))"
  by (simp add: slots_ok_def)

lemma slots_ok_new:
  assumes "hex_encoding h" "slots_ok h ss accts" "\<And>key. map_of ss (addr, key) = None" "storage a = []"
  shows "slots_ok h ss (set_prop (toHex h addr) a accts)"
proof (rule slots_okI)
  fix addr' key b
  assume b: "map_of (set_prop (toHex h addr) a accts) (toHex h addr') = Some b"
  show "map_of (storage b) (toHex h key) =
      map_option (\<lambda>d. toHex h (db_getState h d addr' key)) (map_of ss (addr', key))"
  proof (cases "addr = addr'")
    case True
    with b assms(3,4) show ?thesis using toHex_plain [OF assms(1), of addr] by (simp add: map_of_set_prop)
  next
    case False
    then have "map_of accts (toHex h addr') = Some b"
      using b toHex_plain [OF assms(1), of addr] by (simp add: map_of_set_prop toHex_inj [OF assms(1)])
    then show ?thesis by (rule slots_okD [OF assms(2)])
  qed
qed

lemma slots_ok_add:
  assumes "hex_encoding h" "slots_ok h ss accts" "map_of accts (toHex h addr) = Some a"
    "map_of ss (addr, key) = None"
  shows "slots_ok h (ss @ [((addr, key), d)]) (set_prop (toHex h addr)
    (a\<lparr>storage := set_prop (toHex h key) (toHex h (db_getState h d addr key)) (storage a)\<rparr>) accts)"
proof (rule slots_okI)
  fix addr' key' b
  let ?st = "set_prop (toHex h key) (toHex h (db_getState h d addr key)) (storage a)"
  assume b: "map_of (set_prop (toHex h addr) (a\<lparr>storage := ?st\<rparr>) accts) (toHex h addr') = Some b"
  show "map_of (storage b) (toHex h key') =
      map_option (\<lambda>d. toHex h (db_getState h d addr' key')) (map_of (ss @ [((addr, key), d)]) (addr', key'))"
  proof (cases "addr = addr'")
    case True
    with b have "b = a\<lparr>storage := ?st\<rparr>" using toHex_plain [OF assms(1), of addr] by (simp add: map_of_set_prop)
    then show ?thesis
      using True assms(4) slots_okD [OF assms(2,3), of key'] toHex_plain [OF assms(1), of key]
      by (auto simp: map_of_set_prop toHex_inj [OF assms(1)] map_of_snoc)
  next
    case False
    then have "map_of accts (toHex h addr') = Some b"
      using b toHex_plain [OF assms(1), of addr] by (simp add: map_of_set_prop toHex_inj [OF assms(1)])
    with slots_okD [OF assms(2) this, of key'] False show ?thesis by (simp add: map_of_snoc)
  qed
qed

lemma slots_of_known:
  "fst ` fst ` set ss \<subseteq> fst ` set ts \<Longrightarrow> map_of ts addr = None \<Longrightarrow> map_of ss (addr, key) = None"
  by (force simp: map_of_eq_None_iff image_iff)

lemma agrees_lookupAccount:
  assumes h: "hex_encoding h" and ag: "agrees h ts ss accts"
  shows "\<exists>accts'. lookupAccount h addr (Some d) (Some accts) = Return () (Some accts') \<and>
    agrees h (ts @ [(addr, d)]) ss accts'"
proof -
  have ok: "accounts_ok h ts accts" and sl: "slots_ok h ss accts"
    and dm: "fst ` fst ` set ss \<subseteq> fst ` set ts"
    using ag by (simp_all add: agrees_def)
  have dm': "fst ` fst ` set ss \<subseteq> fst ` set (ts @ [(addr, d)])" using dm by (rule subset_trans) auto
  show ?thesis
  proof (cases "map_of ts addr")
    case None
    let ?a = "\<lparr>balance = hex0x (db_getBalance h d addr), nonce = db_getNonce h d addr,
      code = toHex h (db_getCode h d addr), storage = []\<rparr>"
    have new: "\<not> recorded h addr accts" using accounts_ok_None [OF ok None] by (simp add: recorded_def)
    have a: "accounts_ok h (ts @ [(addr, d)]) (set_prop (toHex h addr) ?a accts)"
      by (rule accounts_ok_add [OF h ok None]) (simp add: account_from_def)
    have b: "slots_ok h ss (set_prop (toHex h addr) ?a accts)"
      by (rule slots_ok_new [OF h sl slots_of_known [OF dm None]]) simp
    show ?thesis unfolding lookupAccount_new [OF h new] agrees_def using a b dm' by blast
  next
    case (Some d0)
    obtain a where "map_of accts (toHex h addr) = Some a" by (rule accounts_ok_Some [OF ok Some])
    then have "lookupAccount h addr (Some d) (Some accts) = Return () (Some accts)"
      using toHex_plain [OF h, of addr] by (simp add: lookupAccount_def Let_def get_prop_plain)
    moreover have "accounts_ok h (ts @ [(addr, d)]) accts"
      by (rule accounts_ok_known [OF ok]) (simp add: Some)
    ultimately show ?thesis unfolding agrees_def using sl dm' by blast
  qed
qed

lemma agrees_lookupStorage:
  assumes h: "hex_encoding h" and ag: "agrees h ts ss accts" and addr: "addr \<in> fst ` set ts"
  shows "\<exists>accts'. lookupStorage h addr key d (Some accts) = Return () (Some accts') \<and>
    agrees h ts (ss @ [((addr, key), d)]) accts'"
proof -
  have ok: "accounts_ok h ts accts" and sl: "slots_ok h ss accts"
    and dm: "fst ` fst ` set (ss @ [((addr, key), d)]) \<subseteq> fst ` set ts"
    using ag addr by (auto simp: agrees_def)
  obtain a where a: "map_of accts (toHex h addr) = Some a"
    using accounts_ok_recorded [OF ok, of addr] addr by (auto simp: recorded_def)
  have slot: "map_of (storage a) (toHex h k) =
      map_option (\<lambda>d. toHex h (db_getState h d addr k)) (map_of ss (addr, k))" for k
    using sl a by (simp add: slots_ok_def)
  show ?thesis
  proof (cases "map_of ss (addr, key)")
    case None
    then show ?thesis
      using slot [of key] dm slots_ok_add [OF h sl a None, of d] accounts_ok_storage [OF h ok a]
      by (simp add: lookupStorage_own [OF h a] agrees_def)
  next
    case (Some d0)
    have "slots_ok h (ss @ [((addr, key), d)]) accts"
      using slots_okD [OF sl] Some by (intro slots_okI) (auto simp: map_of_snoc)
    with dm ok show ?thesis
      using Some slot [of key] by (simp add: lookupStorage_own [OF h a] agrees_def)
  qed
qed

lemma prestate_step_Some [simp]: "prestate_step h l d (Some accts) = prestate_op h l d (Some accts)"
  by (simp add: prestate_step_def)

lemma touches_or_slot: "touches h l d = None \<or> slot_of h l = None"
  by (auto simp: touches_def slot_of_def Let_def)

lemma agrees_op:
  assumes "duk_numbers h" "hex_encoding h" "evm_log l" "agrees h ts ss accts"
    and cov: "covered h (fst ` set ts) ((l, d) # ls)"
  shows "\<exists>accts'. prestate_op h l d (Some accts) = Return () (Some accts') \<and>
    agrees h (ts @ access (touches h l d) d) (ss @ access (slot_of h l) d) accts' \<and>
    covered h (fst ` set (ts @ access (touches h l d) d)) ls"
proof (cases "touches h l d")
  case None
  show ?thesis
  proof (cases "slot_of h l")
    case (Some s)
    then obtain k where k: "slot_of h l = Some (getAddress l, k)"
      by (auto simp: slot_of_def split: if_splits)
    have "getAddress l \<in> fst ` set ts" using cov k by simp
    from agrees_lookupStorage [OF assms(2,4) this, of k d] show ?thesis
      using cov None k by (simp add: prestate_op_cases [OF assms(1,3)])
  qed (use None assms(4) cov in \<open>simp add: prestate_op_cases [OF assms(1,3)]\<close>)
next
  case (Some a)
  then have "slot_of h l = None" using touches_or_slot [of h l d] by simp
  with agrees_lookupAccount [OF assms(2,4), of a d] Some cov show ?thesis
    by (simp add: prestate_op_cases [OF assms(1,3)])
qed

lemma agrees_run:
  assumes "duk_numbers h" "hex_encoding h"
  shows "list_all (\<lambda>(l, d). evm_log l) ls \<Longrightarrow> agrees h ts ss accts \<Longrightarrow> covered h (fst ` set ts) ls \<Longrightarrow>
    \<exists>accts'. run_steps (prestate_step h) ls (Some accts) = Return () (Some accts') \<and>
      agrees h (ts @ account_accesses h ls) (ss @ slot_accesses h ls) accts'"
proof (induction ls arbitrary: ts ss accts)
  case (Cons p ls)
  obtain l d where p: "p = (l, d)" by (cases p)
  obtain accts1 where 1: "prestate_op h l d (Some accts) = Return () (Some accts1)"
    and 2: "agrees h (ts @ access (touches h l d) d) (ss @ access (slot_of h l) d) accts1"
    and 3: "covered h (fst ` set (ts @ access (touches h l d) d)) ls"
    using agrees_op [OF assms, of l ts ss accts d ls] Cons.prems p by auto
  from Cons.IH [OF _ 2 3] Cons.prems(1) 1 p show ?case by simp
qed auto

lemma agrees_empty [simp]: "agrees h [] [] []"
  by (simp add: agrees_def accounts_ok_def slots_ok_def)

text \<open>The first step also records the contract it runs in.\<close>

lemma run_steps_first:
  assumes "hex_encoding h"
  shows "\<exists>accts. agrees h [(getAddress l, d)] [] accts \<and>
    run_steps (prestate_step h) ((l, d) # ls) None =
      run_steps (prestate_step h) ((l, d) # ls) (Some accts)"
  using agrees_lookupAccount [OF assms agrees_empty, of "getAddress l" d]
  by (auto simp: prestate_step_def)

lemma prestate_run:
  assumes "duk_numbers h" "hex_encoding h" "list_all (\<lambda>(l, d). evm_log l) ((l, d) # ls)"
    "covered h {getAddress l} ((l, d) # ls)"
  shows "\<exists>accts. run_steps (prestate_step h) ((l, d) # ls) None = Return () (Some accts) \<and>
    agrees h ((getAddress l, d) # account_accesses h ((l, d) # ls)) (slot_accesses h ((l, d) # ls)) accts"
proof -
  obtain a where a: "agrees h [(getAddress l, d)] [] a"
    and eq: "run_steps (prestate_step h) ((l, d) # ls) None =
      run_steps (prestate_step h) ((l, d) # ls) (Some a)"
    using run_steps_first [OF assms(2)] by blast
  from agrees_run [OF assms(1-3) a] assms(4) show ?thesis unfolding eq by simp
qed

lemma prestate_fault_id: "obj_fault (prestateTracer h) l d s = Return () s"
  by (simp add: prestateTracer_def prestate_fault_def)

text \<open>C6: For a trace that nobody stopped, in which every storage access is made by a contract that was
  looked up before, \<open>prestateTracer\<close> records no error. It holds exactly the accounts of the first
  contract and of the addresses the steps name, each with balance, nonce and code of the database at its first
  access, and exactly the accessed storage slots, each with its value at the first access.\<close>

theorem prestate_records_first_access:
  assumes "duk_numbers h" "hex_encoding h"
    and "list_all (\<lambda>ev. \<not> is_stop ev) evs"
    and "state_logs evs = (l, d) # ls"
    and "list_all (\<lambda>(l, d). evm_log l) ((l, d) # ls)"
    and "covered h {getAddress l} ((l, d) # ls)"
  shows "\<exists>accts.
    tracerObject (captures (prestateTracer h) evs (New (prestateTracer h))) = Some accts \<and>
    terr (captures (prestateTracer h) evs (New (prestateTracer h))) = None \<and>
    accounts_ok h ((getAddress l, d) # account_accesses h ((l, d) # ls)) accts \<and>
    slots_ok h (slot_accesses h ((l, d) # ls)) accts"
proof -
  obtain accts where run: "run_steps (prestate_step h) ((l, d) # ls) None = Return () (Some accts)"
    and ag: "agrees h ((getAddress l, d) # account_accesses h ((l, d) # ls))
      (slot_accesses h ((l, d) # ls)) accts"
    using prestate_run [OF assms(1,2,5,6)] by blast
  have "tracerObject (captures (prestateTracer h) evs (New (prestateTracer h))) = Some accts \<and>
      terr (captures (prestateTracer h) evs (New (prestateTracer h))) = None \<and>
      panicked (captures (prestateTracer h) evs (New (prestateTracer h))) = None"
    by (rule captures_run_steps [OF prestate_fault_id assms(3)])
      (use run in \<open>simp_all add: New_def prestateTracer_def assms(4)\<close>)
  with ag show ?thesis by (auto simp: agrees_def)
qed

text \<open>The sample trace: one call of \<open>0x2a\<close>.\<close>

lemma sample_call_logs:
  "state_logs [sample_call 1] =
     [(args_log (\<lambda>_. call_frame) \<lparr>a_block = 1, a_pc = 0, a_op = CALL, a_gas = 100, a_cost = 60,
        a_frame = 0, a_depth = 1, a_err = None\<rparr>, sample_db)]"
  by (simp add: sample_call_def)

lemma hex_42: "toBase 16 42 = ''2a''" "HexToAddress ref_host ''2a'' = replicate 19 0 @ [42]"
  by (simp_all add: toBase_def nat_to_base_def to_digits.simps stringify_def digit_chars_def
      ref_host_def from_hex_def pad_left_def digit_value_def)

lemma sample_call_touches:
  assumes "l = args_log (\<lambda>_. call_frame) \<lparr>a_block = 1, a_pc = 0, a_op = CALL, a_gas = 100, a_cost = 60,
     a_frame = 0, a_depth = 1, a_err = None\<rparr>"
  shows "touches ref_host l sample_db = Some (replicate 19 0 @ [42])" "slot_of ref_host l = None"
    "getAddress l = [2]" "evm_log l"
proof -
  have "peek l 1 = 42"
    by (simp add: assms args_log_def call_frame_def peek_def st_Back_def)
  then show "touches ref_host l sample_db = Some (replicate 19 0 @ [42])" "slot_of ref_host l = None"
    using hex_42 by (simp_all add: touches_def slot_of_def op_toString_def assms args_log_def)
  show "getAddress l = [2]" "evm_log l"
    by (simp_all add: assms args_log_def call_frame_def getAddress_def evm_log_def)
qed

theorem prestate_records_first_access_witness:
  "\<exists>accts.
    tracerObject (captures (prestateTracer ref_host) [sample_call 1] (New (prestateTracer ref_host))) =
      Some accts \<and>
    terr (captures (prestateTracer ref_host) [sample_call 1] (New (prestateTracer ref_host))) = None \<and>
    accounts_ok ref_host [([2], sample_db), (replicate 19 0 @ [42], sample_db)] accts \<and>
    slots_ok ref_host [] accts"
proof -
  note s = sample_call_touches [OF refl]
  show ?thesis
    using prestate_records_first_access [OF ref_duk_numbers ref_hex_encoding _ sample_call_logs] s
    by (simp add: list_all_iff)
qed

section \<open>The reported prestate\<close>

lemma balance_of_hex:
  "plain_key k \<Longrightarrow> map_of accts k = Some a \<Longrightarrow> balance a = hex0x x \<Longrightarrow> balance_of accts k = Inr x"
  by (simp add: balance_of_def get_prop_plain)

lemma map_of_set_balance:
  "plain_key k \<Longrightarrow> map_of (set_balance k v accts) k' =
     (if k' = k then map_option (\<lambda>a. a\<lparr>balance := hex0x v\<rparr>) (map_of accts k) else map_of accts k')"
  by (simp add: set_balance_def get_prop_plain map_of_set_prop split: option.split)

lemma map_of_dec_nonce:
  "plain_key k \<Longrightarrow> map_of (dec_nonce k accts) k' =
     (if k' = k then map_option (\<lambda>a. a\<lparr>nonce := js_sub (nonce a) 1\<rparr>) (map_of accts k)
      else map_of accts k')"
  by (simp add: dec_nonce_def get_prop_plain map_of_set_prop split: option.split)

lemma map_of_delete_prop:
  "map_of (delete_prop k o') k' = (if k' = k then None else map_of o' k')"
  by (induction o') (auto simp: delete_prop_def)

lemmas map_of_settle = map_of_set_balance map_of_dec_nonce map_of_delete_prop

lemma settle_transfer:
  assumes h: "hex_encoding h" and c: "ctx_from c = Some f" "ctx_to c = Some t" "ctx_value c = Some v"
    and f: "map_of accts (toHex h f) = Some a" "balance a = hex0x x"
    and t: "map_of accts (toHex h t) = Some b" "balance b = hex0x y"
  shows "\<exists>accts'. settle h c accts = Return (accounts_json accts') (Some accts') \<and>
    (f \<noteq> t \<or> ctx_type c \<noteq> Some ''CREATE'' \<longrightarrow> map_of accts' (toHex h f) =
      Some (a\<lparr>balance := hex0x (x + v), nonce := js_sub (nonce a) 1\<rparr>)) \<and>
    (f \<noteq> t \<longrightarrow> map_of accts' (toHex h t) =
      (if ctx_type c = Some ''CREATE'' then None else Some (b\<lparr>balance := hex0x (y - v)\<rparr>))) \<and>
    (\<forall>k. k \<noteq> toHex h f \<and> k \<noteq> toHex h t \<longrightarrow> map_of accts' k = map_of accts k)"
proof -
  let ?f = "toHex h f" and ?t = "toHex h t"
  let ?a3 = "dec_nonce ?f (set_balance ?f (x + v) (set_balance ?t (y - v) accts))"
  let ?a4 = "if ctx_type c = Some ''CREATE'' then delete_prop ?t ?a3 else ?a3"
  have pl: "plain_key ?f" "plain_key ?t" using toHex_plain [OF h] by simp_all
  have "settle h c accts = Return (accounts_json ?a4) (Some ?a4)"
    using c balance_of_hex [OF pl(1) f] balance_of_hex [OF pl(2) t]
    by (simp add: settle_def Let_def)
  moreover have "f \<noteq> t \<or> ctx_type c \<noteq> Some ''CREATE'' \<longrightarrow> map_of ?a4 ?f =
      Some (a\<lparr>balance := hex0x (x + v), nonce := js_sub (nonce a) 1\<rparr>)"
    using f t by (auto simp: map_of_settle pl toHex_inj [OF h])
  moreover have "f \<noteq> t \<longrightarrow> map_of ?a4 ?t =
      (if ctx_type c = Some ''CREATE'' then None else Some (b\<lparr>balance := hex0x (y - v)\<rparr>))"
    using t by (simp add: map_of_settle pl toHex_inj [OF h])
  moreover have "\<forall>k. k \<noteq> ?f \<and> k \<noteq> ?t \<longrightarrow> map_of ?a4 k = map_of accts k"
    by (simp add: map_of_settle pl)
  ultimately show ?thesis by blast
qed

text \<open>The database of the first access to an address, or the one \<open>result\<close> reads.\<close>

definition first_db :: "(byte list \<times> StateDB) list \<Rightarrow> StateDB \<Rightarrow> byte list \<Rightarrow> StateDB" where
  "first_db ts db a = (case map_of ts a of Some d \<Rightarrow> d | None \<Rightarrow> db)"

lemma first_db_account:
  assumes "accounts_ok h (ts @ [(f, db)]) accts" "a = f \<or> a \<in> fst ` set ts"
  obtains ac where "map_of accts (toHex h a) = Some ac" "account_from h (first_db ts db a) a ac"
proof (cases "map_of ts a")
  case None
  then have "a = f" using assms(2) by (auto simp: map_of_eq_None_iff)
  then have "map_of (ts @ [(f, db)]) a = Some db" using None by (simp add: map_of_snoc)
  then obtain ac where "map_of accts (toHex h a) = Some ac" "account_from h db a ac"
    by (rule accounts_ok_Some [OF assms(1)])
  then show thesis using that None by (simp add: first_db_def)
next
  case (Some d)
  then have "map_of (ts @ [(f, db)]) a = Some d" by (simp add: map_of_snoc)
  then obtain ac where "map_of accts (toHex h a) = Some ac" "account_from h d a ac"
    by (rule accounts_ok_Some [OF assms(1)])
  then show thesis using that Some by (simp add: first_db_def)
qed

lemma prestate_result_settles:
  assumes h: "hex_encoding h" and ag: "agrees h ts ss accts"
    and c: "ctx_from c = Some f" "ctx_to c = Some t" "ctx_value c = Some v"
    and t: "t \<in> fst ` set ts" and ft: "f \<noteq> t"
  shows "\<exists>accts'. prestate_result h c (Some db) (Some accts) =
      Return (accounts_json accts') (Some accts') \<and>
    (\<exists>a. map_of accts' (toHex h f) = Some a \<and>
      balance a = hex0x (db_getBalance h (first_db ts db f) f + v) \<and>
      nonce a = js_sub (db_getNonce h (first_db ts db f) f) 1 \<and>
      code a = toHex h (db_getCode h (first_db ts db f) f)) \<and>
    (if ctx_type c = Some ''CREATE'' then map_of accts' (toHex h t) = None
     else \<exists>b. map_of accts' (toHex h t) = Some b \<and>
       balance b = hex0x (db_getBalance h (first_db ts db t) t - v) \<and>
       nonce b = db_getNonce h (first_db ts db t) t \<and>
       code b = toHex h (db_getCode h (first_db ts db t) t))"
proof -
  obtain accts1 where look: "lookupAccount h f (Some db) (Some accts) = Return () (Some accts1)"
    and ag1: "agrees h (ts @ [(f, db)]) ss accts1"
    using agrees_lookupAccount [OF h ag] by blast
  have ok: "accounts_ok h (ts @ [(f, db)]) accts1" using ag1 by (simp add: agrees_def)
  obtain a where a: "map_of accts1 (toHex h f) = Some a" "account_from h (first_db ts db f) f a"
    by (rule first_db_account [OF ok, of f]) simp_all
  obtain b where b: "map_of accts1 (toHex h t) = Some b" "account_from h (first_db ts db t) t b"
    by (rule first_db_account [OF ok, of t]) (simp_all add: t)
  have bal: "balance a = hex0x (db_getBalance h (first_db ts db f) f)"
    "balance b = hex0x (db_getBalance h (first_db ts db t) t)"
    using a(2) b(2) by (simp_all add: account_from_def)
  obtain accts' where acc: "settle h c accts1 = Return (accounts_json accts') (Some accts')"
    "map_of accts' (toHex h f) = Some (a\<lparr>balance := hex0x (db_getBalance h (first_db ts db f) f + v),
       nonce := js_sub (nonce a) 1\<rparr>)"
    "map_of accts' (toHex h t) = (if ctx_type c = Some ''CREATE'' then None
       else Some (b\<lparr>balance := hex0x (db_getBalance h (first_db ts db t) t - v)\<rparr>))"
    using settle_transfer [OF h c a(1) bal(1) b(1) bal(2)] ft by blast
  have "prestate_result h c (Some db) (Some accts) = Return (accounts_json accts') (Some accts')"
    using look c(1) acc(1) by (simp add: prestate_result_def)
  then show ?thesis using acc(2,3) a(2) b(2) by (simp add: account_from_def)
qed

text \<open>C7: After such a trace of a message from \<open>f\<close> to a different address \<open>t\<close> whose code ran first,
  \<open>prestateTracer\<close> reports without an error: the value is moved back from \<open>t\<close> to \<open>f\<close> relative to
  the first database each was seen in, the nonce of \<open>f\<close> is decremented, and a created contract is removed
  from the report.\<close>

theorem prestate_reports_transfer:
  assumes "duk_numbers h" "hex_encoding h"
    and "list_all (\<lambda>ev. \<not> is_stop ev \<and> \<not> is_start ev) evs"
    and "state_logs evs = (l, d) # ls"
    and "list_all (\<lambda>(l, d). evm_log l) ((l, d) # ls)"
    and "covered h {getAddress l} ((l, d) # ls)"
    and "t = getAddress l" "f \<noteq> t"
    and "ts = (getAddress l, d) # account_accesses h ((l, d) # ls)"
  shows "\<exists>accts.
    GetResult (prestateTracer h) db
      (captures (prestateTracer h) (EvStart f t create input gas v # evs) (New (prestateTracer h))) =
        (Some (accounts_json accts), None) \<and>
    (\<exists>a. map_of accts (toHex h f) = Some a \<and>
      balance a = hex0x (db_getBalance h (first_db ts db f) f + v) \<and>
      nonce a = js_sub (db_getNonce h (first_db ts db f) f) 1 \<and>
      code a = toHex h (db_getCode h (first_db ts db f) f)) \<and>
    (if create then map_of accts (toHex h t) = None
     else \<exists>b. map_of accts (toHex h t) = Some b \<and>
       balance b = hex0x (db_getBalance h d t - v) \<and>
       nonce b = db_getNonce h d t \<and> code b = toHex h (db_getCode h d t))"
proof -
  let ?T = "prestateTracer h"
  let ?j0 = "capture ?T (EvStart f t create input gas v) (New ?T)"
  define j where "j = captures ?T evs ?j0"
  have nostop: "list_all (\<lambda>ev. \<not> is_stop ev) evs" and nostart: "list_all (\<lambda>ev. \<not> is_start ev) evs"
    using assms(3) by (simp_all add: list_all_iff)
  obtain accts where run: "run_steps (prestate_step h) ((l, d) # ls) None = Return () (Some accts)"
    and ag: "agrees h ts (slot_accesses h ((l, d) # ls)) accts"
    using prestate_run [OF assms(1,2,5,6)] unfolding assms(9) by blast
  have step_is: "obj_step ?T = prestate_step h" by (simp add: prestateTracer_def)
  have start: "terr ?j0 = None" "\<not> interrupt ?j0" "panicked ?j0 = None" "tracerObject ?j0 = None"
    by (simp_all add: CaptureStart_def New_def prestateTracer_def)
  have "tracerObject j = Some accts \<and> terr j = None \<and> panicked j = None" unfolding j_def
    by (rule captures_run_steps [OF prestate_fault_id nostop start(1-3)])
      (use run in \<open>simp only: assms(4) start(4) step_is\<close>)
  moreover from this have "dbSet j" unfolding j_def
    by (intro captures_dbSet [OF nostop start(2)]) (simp_all add: assms(4))
  moreover have c: "ctx_from (tctx j) = Some f" "ctx_to (tctx j) = Some t" "ctx_value (tctx j) = Some v"
    and ty: "ctx_type (tctx j) = Some (if create then ''CREATE'' else ''CALL'')"
    using ctx_after_start [OF nostart, of j ?T] by (simp_all add: j_def New_def)
  moreover have "first_db ts db t = d" "t \<in> fst ` set ts"
    using assms(7,9) by (simp_all add: first_db_def)
  ultimately show ?thesis
    using prestate_result_settles [OF assms(2) ag c _ assms(8), of db]
    by (auto simp: GetResult_def current_db_def prestateTracer_def ty New_def j_def)
qed

theorem prestate_reports_transfer_witness:
  "\<exists>accts.
    GetResult (prestateTracer ref_host) sample_db
      (captures (prestateTracer ref_host) (EvStart [1] [2] False [] 1000 30 # [sample_call 1])
        (New (prestateTracer ref_host))) = (Some (accounts_json accts), None) \<and>
    (\<exists>a. map_of accts (toHex ref_host [1]) = Some a \<and> balance a = hex0x 130 \<and> nonce a = -1) \<and>
    (\<exists>b. map_of accts (toHex ref_host [2]) = Some b \<and> balance b = hex0x 70 \<and> nonce b = 0)"
proof -
  note s = sample_call_touches [OF refl]
  have db: "db_getBalance ref_host sample_db a = 100" "db_getNonce ref_host sample_db a = 0" for a
    by (simp_all add: db_getBalance_def db_getNonce_def sample_db_def ref_host_def)
  have f: "first_db [([2], sample_db), (replicate 19 0 @ [42], sample_db)] sample_db [1] = sample_db"
    by (simp add: first_db_def)
  show ?thesis
    using prestate_reports_transfer [OF ref_duk_numbers ref_hex_encoding _ sample_call_logs _ _ refl _ refl,
        of "[1]" sample_db False "[]" 1000 30] s
    by (simp add: list_all_iff db f js_num max_int_def del: captures.simps) blast
qed

text \<open>C28: A storage access by a contract that no earlier step looked up (for instance the code of a contract
  created by a message of the trace) makes \<open>step\<close> throw a type error. The driver records it and the tracer
  sees none of the remaining states.\<close>

theorem prestate_unknown_contract_fails:
  assumes "duk_numbers h" "hex_encoding h"
    and "list_all (\<lambda>ev. \<not> is_stop ev) evs"
    and "state_logs evs = (l0, d0) # ls @ (l, d) # post"
    and "list_all (\<lambda>(l, d). evm_log l) ((l0, d0) # ls @ [(l, d)])"
    and "covered h {getAddress l0} ((l0, d0) # ls)"
    and "op_toString l = ''SSTORE'' \<or> op_toString l = ''SLOAD''"
    and "getAddress l \<notin> fst ` set ((getAddress l0, d0) # account_accesses h ((l0, d0) # ls))"
  shows "terr (captures (prestateTracer h) evs (New (prestateTracer h))) =
    Some (InMethod ''step'' TypeError)"
proof -
  let ?ls = "(l0, d0) # ls"
  obtain accts where run: "run_steps (prestate_step h) ?ls None = Return () (Some accts)"
    and ag: "agrees h ((getAddress l0, d0) # account_accesses h ?ls) (slot_accesses h ?ls) accts"
    using prestate_run [OF assms(1,2) _ assms(6)] assms(5) by auto
  have "\<not> recorded h (getAddress l) accts"
    using accounts_ok_recorded [of h "(getAddress l0, d0) # account_accesses h ?ls" accts] ag assms(8)
    by (simp add: agrees_def)
  moreover obtain k where sl: "slot_of h l = Some (getAddress l, k)"
    using assms(7) by (simp add: slot_of_def)
  moreover have "touches h l d = None" using touches_or_slot [of h l d] sl by simp
  ultimately have "prestate_step h l d (Some accts) = Throw TypeError (Some accts)"
    using assms(5) by (simp add: prestate_op_cases [OF assms(1)] lookupStorage_missing [OF assms(2)])
  then have "run_steps (prestate_step h) (?ls @ (l, d) # post) None = Throw TypeError (Some accts)"
    unfolding run_steps_append run by simp
  then show ?thesis
    by (intro conjunct2 [OF captures_type_error [OF prestate_fault_id assms(3)]])
      (simp_all add: New_def prestateTracer_def assms(4) del: run_steps.simps)
qed

text \<open>
  A contract that stores although no earlier step named it: the first step runs in \<open>[2]\<close>, the second
  one in \<open>[3]\<close>.
\<close>

definition store_frame :: "byte list \<Rightarrow> frame" where
  "store_frame a =
     \<lparr>f_stack = \<lparr>data = [5, 0]\<rparr>, f_memory = NewMemory,
      f_contract = \<lparr>CallerAddress = [1], self = a, cvalue = 0, Input = []\<rparr>\<rparr>"

definition store_args :: state_args where
  "store_args = \<lparr>a_block = 1, a_pc = 0, a_op = 85, a_gas = 100, a_cost = 60, a_frame = 0,
     a_depth = 2, a_err = None\<rparr>"

theorem prestate_unknown_contract_fails_witness:
  "terr (captures (prestateTracer ref_host) [sample_call 1, EvState (\<lambda>_. store_frame [3]) sample_db store_args]
     (New (prestateTracer ref_host))) = Some (InMethod ''step'' TypeError)"
proof -
  let ?l = "args_log (\<lambda>_. store_frame [3]) store_args"
  let ?first = "args_log (\<lambda>_. call_frame) \<lparr>a_block = 1, a_pc = 0, a_op = CALL, a_gas = 100, a_cost = 60,
     a_frame = 0, a_depth = 1, a_err = None\<rparr>"
  note s = sample_call_touches [OF refl]
  have l: "op_toString ?l = ''SSTORE''" "getAddress ?l = [3]" "evm_log ?l"
    by (simp_all add: op_toString_def op_String_def opCodeToString_def args_log_def store_args_def
        store_frame_def getAddress_def evm_log_def)
  have logs: "state_logs [sample_call 1, EvState (\<lambda>_. store_frame [3]) sample_db store_args] =
      (?first, sample_db) # [] @ (?l, sample_db) # []"
    using sample_call_logs by (simp add: sample_call_def)
  show ?thesis
    by (rule prestate_unknown_contract_fails [OF ref_duk_numbers ref_hex_encoding _ logs])
      (use s l in \<open>simp_all add: is_stop_def sample_call_def\<close>)
qed

text \<open>C33: When sender and recipient of the traced message are the same account, the report credits the value to
  the account although the message left its balance unchanged: the second write of \<open>result\<close>
  overwrites the first one.\<close>

theorem prestate_self_transfer:
  assumes "hex_encoding h" "ctx_from c = Some f" "ctx_to c = Some f" "ctx_value c = Some v"
    and "ctx_type c = Some ''CALL''"
    and "map_of accts (toHex h f) = Some a" "balance a = hex0x x"
  shows "\<exists>accts'. prestate_result h c db (Some accts) = Return (accounts_json accts') (Some accts') \<and>
    map_of accts' (toHex h f) = Some (a\<lparr>balance := hex0x (x + v), nonce := js_sub (nonce a) 1\<rparr>)"
proof -
  have "lookupAccount h f db (Some accts) = Return () (Some accts)"
    using assms(6) toHex_plain [OF assms(1), of f] by (simp add: lookupAccount_def Let_def get_prop_plain)
  with settle_transfer [OF assms(1-4,6,7,6,7)] assms(2,5) show ?thesis
    by (auto simp: prestate_result_def)
qed

theorem prestate_self_transfer_witness:
  "\<exists>accts'. prestate_result ref_host
      (empty_ctx\<lparr>ctx_type := Some ''CALL'', ctx_from := Some [1], ctx_to := Some [1], ctx_value := Some 7\<rparr>) None
      (Some [(toHex ref_host [1], \<lparr>balance = hex0x 100, nonce = 0, code = ''0x'', storage = []\<rparr>)]) =
        Return (accounts_json accts') (Some accts') \<and>
    map_of accts' (toHex ref_host [1]) =
      Some \<lparr>balance = hex0x 107, nonce = -1, code = ''0x'', storage = []\<rparr>"
  using prestate_self_transfer [OF ref_hex_encoding, of
      "empty_ctx\<lparr>ctx_type := Some ''CALL'', ctx_from := Some [1], ctx_to := Some [1], ctx_value := Some 7\<rparr>"
      "[1]" 7 "[(toHex ref_host [1], \<lparr>balance = hex0x 100, nonce = 0, code = ''0x'', storage = []\<rparr>)]"
      "\<lparr>balance = hex0x 100, nonce = 0, code = ''0x'', storage = []\<rparr>" 100 None]
  by (simp add: js_num max_int_def)

end
