(* ===== verification/Call_Tracer.thy ===== *)
theory Call_Tracer
  imports Tracer_Driver
begin

text \<open>
  \<open>callTracer\<close> (\<^verbatim>\<open>call_tracer.js\<close>): reports the tree of calls a transaction makes. The
  tracer keeps the calls that are still open in \<open>callstack\<close>, the innermost one last, and moves a
  call into its caller's list when it returns or fails.
\<close>

section \<open>Call objects\<close>

text \<open>
  A call object is a record of optional properties, \<open>None\<close> standing for \<open>undefined\<close>. The
  property \<open>gas\<close> holds a number while the call is open and a string afterwards. Each call object is
  reachable through one path only, so the list \<open>calls\<close> is part of the value.
\<close>

datatype gasval = GNum int | GStr string

record callinfo =
  c_type :: "string option"
  c_from :: "string option"
  c_to :: "string option"
  c_input :: "string option"
  c_gasIn :: jsnum
  c_gasCost :: jsnum
  c_value :: "string option"
  c_outOff :: jsnum
  c_outLen :: jsnum
  c_gas :: "gasval option"
  c_gasUsed :: "string option"
  c_output :: "string option"
  c_error :: "string option"
  c_time :: "string option"

datatype call = Call (info: callinfo) (calls: "call list option")

definition no_info :: callinfo where
  "no_info =
     \<lparr>c_type = None, c_from = None, c_to = None, c_input = None, c_gasIn = None, c_gasCost = None,
      c_value = None, c_outOff = None, c_outLen = None, c_gas = None, c_gasUsed = None,
      c_output = None, c_error = None, c_time = None\<rparr>"

record callTracer_state =
  callstack :: "call list"
  descended :: bool

fun with_info :: "(callinfo \<Rightarrow> callinfo) \<Rightarrow> call \<Rightarrow> call" where
  "with_info f (Call i cs) = Call (f i) cs"

text \<open>\<open>calls.push\<close>, creating the list on the first use.\<close>

fun add_call :: "call \<Rightarrow> call \<Rightarrow> call" where
  "add_call c (Call i None) = Call i (Some [c])"
| "add_call c (Call i (Some cs)) = Call i (Some (cs @ [c]))"

text \<open>
  A write to \<open>this.callstack[this.callstack.length - 1]\<close>: with an empty stack the element is
  \<open>undefined\<close> and the access a type error.
\<close>

definition on_top :: "(call \<Rightarrow> call) \<Rightarrow> callTracer_state \<Rightarrow> (callTracer_state, unit) outcome" where
  "on_top f s =
     (if callstack s = [] then Throw TypeError s
      else Return () (s\<lparr>callstack := butlast (callstack s) @ [f (last (callstack s))]\<rparr>))"

fun bigInt_gas :: "gasval \<Rightarrow> js_error + int" where
  "bigInt_gas (GNum n) = parseNumberValue (Some n)"
| "bigInt_gas (GStr t) = parseStringValue t"

text \<open>
  \<open>call.gas\<close> as an operand of \<open>+\<close>. A string operand turns the sum into a string that ends in the
  gas with its prefix \<open>0x\<close>, which is not a number for the subtraction that follows.
\<close>

fun gas_number :: "gasval option \<Rightarrow> jsnum" where
  "gas_number (Some (GNum n)) = Some n"
| "gas_number _ = None"

definition drop_frame :: "callinfo \<Rightarrow> callinfo" where
  "drop_frame i = i\<lparr>c_gasIn := None, c_gasCost := None, c_outOff := None, c_outLen := None\<rparr>"

lemma drop_frame_simps [simp]:
  "c_gas (drop_frame i) = c_gas i" "c_error (drop_frame i) = c_error i" "c_type (drop_frame i) = c_type i"
  "drop_frame (drop_frame i) = drop_frame i"
  by (simp_all add: drop_frame_def)

section \<open>fault\<close>

definition call_fault ::
    "log_obj \<Rightarrow> StateDB option \<Rightarrow> callTracer_state \<Rightarrow> (callTracer_state, unit) outcome" where
  "call_fault l db s =
     (if callstack s = [] then Throw TypeError s
      else if c_error (info (last (callstack s))) \<noteq> None then Return () s
      else
        (let popped = s\<lparr>callstack := butlast (callstack s)\<rparr>;
             i1 = (info (last (callstack s)))\<lparr>c_error := getError l\<rparr>
         in evalTo
              (case c_gas i1 of
                 None \<Rightarrow> Inr i1
               | Some g \<Rightarrow>
                   (case bigInt_gas g of
                      Inl e \<Rightarrow> Inl e
                    | Inr v \<Rightarrow> Inr (i1\<lparr>c_gas := Some (GStr (hex0x v)), c_gasUsed := Some (hex0x v)\<rparr>)))
              popped
              (\<lambda>i2.
                let c = Call (drop_frame i2) (calls (last (callstack s))) in
                if callstack popped \<noteq> [] then on_top (add_call c) popped
                else Return () (popped\<lparr>callstack := [c]\<rparr>))))"

section \<open>step\<close>

unbundle bit_operations_syntax

definition syscall :: "log_obj \<Rightarrow> bool" where
  "syscall l = (lop l AND 240 = 240)"

text \<open>The branches of \<open>step\<close> in the order of the code.\<close>

definition push_call :: "call \<Rightarrow> callTracer_state \<Rightarrow> callTracer_state" where
  "push_call c s = s\<lparr>callstack := callstack s @ [c], descended := True\<rparr>"

definition step_create ::
    "host \<Rightarrow> log_obj \<Rightarrow> callTracer_state \<Rightarrow> (callTracer_state, unit) outcome" where
  "step_create h l s =
     (let inOff = valueOf (peek l 1); inEnd = js_add inOff (valueOf (peek l 2)) in
      evalTo (memory_slice h l (Some inOff) (Some inEnd)) s
        (\<lambda>bs. Return () (push_call (Call
           (no_info\<lparr>c_type := Some (op_toString l), c_from := Some (toHex h (getAddress l)),
              c_input := Some (toHex h bs), c_gasIn := Some (getGas h l),
              c_gasCost := Some (getCost h l), c_value := Some (hex0x (peek l 0))\<rparr>) None) s)))"

definition step_selfdestruct ::
    "host \<Rightarrow> log_obj \<Rightarrow> StateDB \<Rightarrow> callTracer_state \<Rightarrow> (callTracer_state, unit) outcome" where
  "step_selfdestruct h l db s =
     on_top (add_call (Call
       (no_info\<lparr>c_type := Some (op_toString l), c_from := Some (toHex h (getAddress l)),
          c_to := Some (toHex h (toAddress h (Inr (toBase 16 (peek l 0))))),
          c_gasIn := Some (getGas h l), c_gasCost := Some (getCost h l),
          c_value := Some (hex0x (db_getBalance h db (getAddress l)))\<rparr>) None)) s"

definition step_call ::
    "host \<Rightarrow> log_obj \<Rightarrow> callTracer_state \<Rightarrow> (callTracer_state, unit) outcome" where
  "step_call h l s =
     (let op = op_toString l; to = toAddress h (Inr (toBase 16 (peek l 1))) in
      if isPrecompiled h to then Return () s
      else
        (let off = (if op = ''DELEGATECALL'' \<or> op = ''STATICCALL'' then 0 else 1);
             inOff = valueOf (peek l (2 + off));
             inEnd = js_add inOff (valueOf (peek l (3 + off)))
         in evalTo (memory_slice h l (Some inOff) (Some inEnd)) s
              (\<lambda>bs. Return () (push_call (Call
                 (no_info\<lparr>c_type := Some op, c_from := Some (toHex h (getAddress l)),
                    c_to := Some (toHex h to), c_input := Some (toHex h bs),
                    c_gasIn := Some (getGas h l), c_gasCost := Some (getCost h l),
                    c_outOff := Some (valueOf (peek l (4 + off))),
                    c_outLen := Some (valueOf (peek l (5 + off))),
                    c_value := (if op \<noteq> ''DELEGATECALL'' \<and> op \<noteq> ''STATICCALL''
                                then Some (hex0x (peek l 2)) else None)\<rparr>) None) s))))"

text \<open>Reading the true allowance after a descent.\<close>

definition note_descent ::
    "host \<Rightarrow> log_obj \<Rightarrow> callTracer_state \<Rightarrow> (callTracer_state, unit) outcome" where
  "note_descent h l s =
     (if descended s then
        andThen
          (if int (length (callstack s)) \<le> getDepth h l
           then on_top (with_info (\<lambda>i. i\<lparr>c_gas := Some (GNum (getGas h l))\<rparr>)) s
           else Return () s)
          (\<lambda>_ s'. Return () (s'\<lparr>descended := False\<rparr>))
      else Return () s)"

text \<open>The results of a returning call, read in its caller.\<close>

definition finish_create :: "host \<Rightarrow> log_obj \<Rightarrow> StateDB \<Rightarrow> callinfo \<Rightarrow> js_error + callinfo" where
  "finish_create h l db i =
     (case parseNumberValue (num_sub (num_sub (c_gasIn i) (c_gasCost i)) (Some (getGas h l))) of
        Inl e \<Rightarrow> Inl e
      | Inr used \<Rightarrow>
          (let i1 = i\<lparr>c_gasUsed := Some (hex0x used), c_gasIn := None, c_gasCost := None\<rparr>;
               ret = peek l 0
           in Inr (if ret \<noteq> 0 then
                i1\<lparr>c_to := Some (toHex h (toAddress h (Inr (toBase 16 ret)))),
                   c_output := Some (toHex h (db_getCode h db (toAddress h (Inr (toBase 16 ret)))))\<rparr>
              else if c_error i1 = None then i1\<lparr>c_error := Some ''internal failure''\<rparr>
              else i1)))"

definition finish_call :: "host \<Rightarrow> log_obj \<Rightarrow> callinfo \<Rightarrow> js_error + callinfo" where
  "finish_call h l i =
     (case (if c_gas i = None then Inr i
            else map_sum id (\<lambda>used. i\<lparr>c_gasUsed := Some (hex0x used)\<rparr>)
              (parseNumberValue (num_sub
                (num_add (num_sub (c_gasIn i) (c_gasCost i)) (gas_number (c_gas i)))
                (Some (getGas h l))))) of
        Inl e \<Rightarrow> Inl e
      | Inr i1 \<Rightarrow>
          map_sum id drop_frame
            (if peek l 0 \<noteq> 0 then
               map_sum id (\<lambda>bs. i1\<lparr>c_output := Some (toHex h bs)\<rparr>)
                 (memory_slice h l (c_outOff i1) (num_add (c_outOff i1) (c_outLen i1)))
             else if c_error i1 = None then Inr (i1\<lparr>c_error := Some ''internal failure''\<rparr>)
             else Inr i1))"

definition finish ::
    "host \<Rightarrow> log_obj \<Rightarrow> StateDB \<Rightarrow> callinfo \<Rightarrow> js_error + callinfo" where
  "finish h l db i =
     (case (if c_type i = Some ''CREATE'' \<or> c_type i = Some ''CREATE2''
            then finish_create h l db i else finish_call h l i) of
        Inl e \<Rightarrow> Inl e
      | Inr i1 \<Rightarrow>
          (case c_gas i1 of
             None \<Rightarrow> Inr i1
           | Some g \<Rightarrow> map_sum id (\<lambda>v. i1\<lparr>c_gas := Some (GStr (hex0x v))\<rparr>) (bigInt_gas g)))"

definition step_return ::
    "host \<Rightarrow> log_obj \<Rightarrow> StateDB \<Rightarrow> callTracer_state \<Rightarrow> (callTracer_state, unit) outcome" where
  "step_return h l db s =
     (if getDepth h l = int (length (callstack s)) - 1 then
        (let popped = s\<lparr>callstack := butlast (callstack s)\<rparr> in
         if callstack s = [] then Throw TypeError popped
         else evalTo (finish h l db (info (last (callstack s)))) popped
                (\<lambda>i. on_top (add_call (Call i (calls (last (callstack s))))) popped))
      else Return () s)"

definition call_step ::
    "host \<Rightarrow> log_obj \<Rightarrow> StateDB \<Rightarrow> callTracer_state \<Rightarrow> (callTracer_state, unit) outcome" where
  "call_step h l db s =
     (let op = op_toString l in
      if getError l \<noteq> None then call_fault l (Some db) s
      else if syscall l \<and> (op = ''CREATE'' \<or> op = ''CREATE2'') then step_create h l s
      else if syscall l \<and> op = ''SELFDESTRUCT'' then step_selfdestruct h l db s
      else if syscall l \<and> (op = ''CALL'' \<or> op = ''CALLCODE'' \<or> op = ''DELEGATECALL'' \<or> op = ''STATICCALL'')
      then step_call h l s
      else
        andThen (note_descent h l s)
          (\<lambda>_ s1. if syscall l \<and> op = ''REVERT''
                  then on_top (with_info (\<lambda>i. i\<lparr>c_error := Some ''execution reverted''\<rparr>)) s1
                  else step_return h l db s1))"

section \<open>result\<close>

text \<open>
  \<open>finalize\<close> rebuilds a call object from its public properties, and replaces the elements of its
  list of calls in place. The rebuilt object prints its properties in the order of the literal.
\<close>

primrec finalize :: "call \<Rightarrow> call" where
  "finalize (Call i cs) = Call (drop_frame i) (map_option (map finalize) cs)"

fun opt_prop :: "string \<Rightarrow> string option \<Rightarrow> (string \<times> jsval) list" where
  "opt_prop k None = []"
| "opt_prop k (Some v) = [(k, JStr v)]"

fun gas_prop :: "gasval option \<Rightarrow> (string \<times> jsval) list" where
  "gas_prop None = []"
| "gas_prop (Some (GNum n)) = [(''gas'', JNum n)]"
| "gas_prop (Some (GStr t)) = [(''gas'', JStr t)]"

primrec call_json :: "call \<Rightarrow> jsval" where
  "call_json (Call i cs) =
     JObj (opt_prop ''type'' (c_type i) @ opt_prop ''from'' (c_from i) @ opt_prop ''to'' (c_to i) @
       opt_prop ''value'' (c_value i) @ gas_prop (c_gas i) @ opt_prop ''gasUsed'' (c_gasUsed i) @
       opt_prop ''input'' (c_input i) @ opt_prop ''output'' (c_output i) @
       opt_prop ''error'' (c_error i) @ opt_prop ''time'' (c_time i) @
       (case map_option (map call_json) cs of None \<Rightarrow> [] | Some js \<Rightarrow> [(''calls'', JArr js)]))"

text \<open>\<open>bigInt\<close> of a number of the context; of \<open>undefined\<close> it is zero.\<close>

fun bigInt_ctx :: "host \<Rightarrow> u64 option \<Rightarrow> js_error + int" where
  "bigInt_ctx h None = Inr 0"
| "bigInt_ctx h (Some w) = parseNumberValue (Some (PushUint h w))"

definition result_info ::
    "host \<Rightarrow> ctx_obj \<Rightarrow> int \<Rightarrow> int \<Rightarrow> int \<Rightarrow> string option \<Rightarrow> callinfo" where
  "result_info h c value gas used err =
     (let output = toHex h (buffer (ctx_output c)) in
      no_info\<lparr>c_type := ctx_type c, c_from := Some (toHex h (buffer (ctx_from c))),
        c_to := Some (toHex h (buffer (ctx_to c))), c_value := Some (hex0x value),
        c_gas := Some (GStr (hex0x gas)), c_gasUsed := Some (hex0x used),
        c_input := Some (toHex h (buffer (ctx_input c))),
        c_output := (if err \<noteq> None \<and> (err \<noteq> Some ''execution reverted'' \<or> output = ''0x'')
                     then None else Some output),
        c_error := err, c_time := ctx_time c\<rparr>)"

definition call_result ::
    "host \<Rightarrow> ctx_obj \<Rightarrow> StateDB option \<Rightarrow> callTracer_state \<Rightarrow> (callTracer_state, jsval) outcome" where
  "call_result h c db s =
     (case ctx_value c of
        None \<Rightarrow> Throw TypeError s
      | Some value \<Rightarrow>
          evalTo (bigInt_ctx h (ctx_gas c)) s (\<lambda>gas.
          evalTo (bigInt_ctx h (ctx_gasUsed c)) s (\<lambda>used.
          case callstack s of
            [] \<Rightarrow> Throw TypeError s
          | Call i cs # rest \<Rightarrow>
              (let err = (if c_error i \<noteq> None then c_error i else ctx_error c);
                   r = finalize (Call (result_info h c value gas used err) cs)
               in Return (call_json r) (s\<lparr>callstack := Call i (calls r) # rest\<rparr>)))))"

definition callTracer :: "host \<Rightarrow> callTracer_state tracer_obj" where
  "callTracer h =
     \<lparr>obj_init = \<lparr>callstack = [Call no_info None], descended = False\<rparr>, obj_step = call_step h,
      obj_fault = call_fault, obj_result = call_result h\<rparr>"

section \<open>The tracer never fails\<close>

text \<open>
  What holds of the open calls: the calls above the bottom one carry the numbers that a return
  needs, and a string in the bottom object's \<open>gas\<close> comes with an error.
\<close>

definition small :: "int \<Rightarrow> bool" where
  "small n = (0 \<le> n \<and> n < 4294967296)"

definition gas_ok :: "callinfo \<Rightarrow> bool" where
  "gas_ok i = (case c_gas i of None \<Rightarrow> True | Some (GNum g) \<Rightarrow> small g | Some (GStr t) \<Rightarrow> False)"

definition window_ok :: "callinfo \<Rightarrow> bool" where
  "window_ok i = (case (c_outOff i, c_outLen i) of
     (Some b, Some n) \<Rightarrow> 0 \<le> b \<and> 0 \<le> n \<and> js_round b = b | _ \<Rightarrow> False)"

definition open_ok :: "callinfo \<Rightarrow> bool" where
  "open_ok i =
     (gas_ok i \<and>
      (case (c_gasIn i, c_gasCost i) of (Some a, Some b) \<Rightarrow> small a \<and> small b | _ \<Rightarrow> False) \<and>
      (c_type i = Some ''CREATE'' \<or> c_type i = Some ''CREATE2'' \<or> window_ok i))"

definition root_ok :: "callinfo \<Rightarrow> bool" where
  "root_ok i = (c_error i = None \<longrightarrow> gas_ok i)"

fun frames_ok :: "call list \<Rightarrow> bool" where
  "frames_ok [] = False"
| "frames_ok (c # cs) = (root_ok (info c) \<and> list_all (open_ok \<circ> info) cs)"

definition call_inv :: "callTracer_state \<Rightarrow> bool" where
  "call_inv s = frames_ok (callstack s)"

definition call_ok :: "host \<Rightarrow> log_obj \<Rightarrow> bool" where
  "call_ok h l =
     (duk_numbers h \<and> evm_log l \<and> 1 \<le> unat (ldepth l) \<and> unat (ldepth l) < 4294967296 \<and>
      unat (lgas l) < 4294967296 \<and> unat (lcost l) < 4294967296)"

lemma small_of_nat: "small (int n) \<longleftrightarrow> n < 4294967296"
  by (simp add: small_def)

lemma call_ok_numbers:
  assumes "call_ok h l"
  shows "getGas h l = int (unat (lgas l))" "getCost h l = int (unat (lcost l))"
    "getDepth h l = int (unat (ldepth l))" "small (getGas h l)" "small (getCost h l)" "1 \<le> getDepth h l"
proof -
  have d: "duk_numbers h" and b: "1 \<le> unat (ldepth l)" "unat (ldepth l) < 4294967296"
    "unat (lgas l) < 4294967296" "unat (lcost l) < 4294967296"
    using assms by (simp_all add: call_ok_def)
  show g: "getGas h l = int (unat (lgas l))" and c: "getCost h l = int (unat (lcost l))"
    and dp: "getDepth h l = int (unat (ldepth l))"
    using b by (simp_all add: getGas_def getCost_def getDepth_def PushUint_small [OF d])
  show "small (getGas h l)" "small (getCost h l)" unfolding g c small_of_nat using b by simp_all
  show "1 \<le> getDepth h l" unfolding dp using b(1) by linarith
qed

lemma frames_ok_snoc [simp]:
  "frames_ok (cs @ [c]) \<longleftrightarrow> (if cs = [] then root_ok (info c) else frames_ok cs \<and> open_ok (info c))"
  by (cases cs) auto

lemma frames_ok_nonempty: "frames_ok cs \<Longrightarrow> cs \<noteq> []"
  by auto

lemma open_root: "open_ok i \<Longrightarrow> root_ok i"
  by (simp add: open_ok_def root_ok_def)

text \<open>A write to the top keeps the invariant when it keeps what is known of the top.\<close>

lemma on_top_safe:
  assumes "frames_ok (callstack s)"
    and "\<And>c. root_ok (info c) \<Longrightarrow> root_ok (info (f c))" "\<And>c. open_ok (info c) \<Longrightarrow> open_ok (info (f c))"
  shows "\<exists>s'. on_top f s = Return () s' \<and> frames_ok (callstack s') \<and>
    length (callstack s') = length (callstack s)"
proof -
  obtain cs c where cs: "callstack s = cs @ [c]"
    using frames_ok_nonempty [OF assms(1)] by (metis rev_exhaust)
  then show ?thesis using assms by (simp add: on_top_def split: if_splits)
qed

lemma info_add_call [simp]: "info (add_call c d) = info d"
  by (induction c d rule: add_call.induct) simp_all

lemma info_with_info [simp]: "info (with_info f c) = f (info c)"
  by (cases c) simp

lemma add_call_safe:
  "frames_ok (callstack s) \<Longrightarrow> \<exists>s'. on_top (add_call c) s = Return () s' \<and> frames_ok (callstack s')"
  using on_top_safe [of s "add_call c"] by auto

lemma frames_ok_push: "frames_ok cs \<Longrightarrow> open_ok (info c) \<Longrightarrow> frames_ok (cs @ [c])"
  by (cases cs) auto

lemma bigInt_gas_ok: "gas_ok i \<Longrightarrow> c_gas i = Some g \<Longrightarrow> \<exists>v. bigInt_gas g = Inr v"
  by (cases g) (auto simp: gas_ok_def small_def parseNumberValue_def)

lemma call_fault_safe:
  assumes inv: "frames_ok (callstack s)" and err: "lerror l = Some e"
  shows "\<exists>s'. call_fault l db s = Return () s' \<and> frames_ok (callstack s')"
proof -
  obtain cs c where cs: "callstack s = cs @ [c]"
    using frames_ok_nonempty [OF inv] by (metis rev_exhaust)
  show ?thesis
  proof (cases "c_error (info c)")
    case None
    have gas: "gas_ok (info c)" using inv cs None
      by (auto simp: root_ok_def open_ok_def split: if_splits)
    define i2 where "i2 = (case c_gas (info c) of
        None \<Rightarrow> (info c)\<lparr>c_error := Some e\<rparr>
      | Some g \<Rightarrow> (case bigInt_gas g of
          Inl x \<Rightarrow> info c
        | Inr v \<Rightarrow> (info c)\<lparr>c_error := Some e, c_gas := Some (GStr (hex0x v)),
            c_gasUsed := Some (hex0x v)\<rparr>))"
    let ?c = "Call (drop_frame i2) (calls c)" and ?p = "s\<lparr>callstack := cs\<rparr>"
    have eq: "call_fault l db s =
        (if cs \<noteq> [] then on_top (add_call ?c) ?p else Return () (s\<lparr>callstack := [?c]\<rparr>))"
      using cs None err bigInt_gas_ok [OF gas]
      by (cases "c_gas (info c)") (auto simp: call_fault_def Let_def getError_def i2_def)
    have "c_error (drop_frame i2) \<noteq> None"
      using bigInt_gas_ok [OF gas] by (cases "c_gas (info c)") (auto simp: i2_def drop_frame_def)
    then show ?thesis
      using inv cs add_call_safe [of ?p ?c] by (auto simp: eq root_ok_def split: if_splits)
  qed (use cs inv in \<open>simp add: call_fault_def\<close>)
qed

lemma step_create_safe:
  assumes "call_ok h l" "frames_ok (callstack s)" "lop l = CREATE \<or> lop l = CREATE2"
  shows "\<exists>s'. step_create h l s = Return () s' \<and> frames_ok (callstack s')"
proof -
  have nn: "0 \<le> valueOf (peek l 2)"
    using assms(1) peek_nonneg [of l 2] by (simp add: call_ok_def valueOf_def)
  obtain bs where "memory_slice h l (Some (valueOf (peek l 1)))
      (Some (js_add (valueOf (peek l 1)) (valueOf (peek l 2)))) = Inr bs"
    using memory_slice_valueOf [OF _ _ nn, of h l 1] assms(1) by (auto simp: call_ok_def)
  then show ?thesis
    using assms call_ok_numbers [OF assms(1)]
    by (auto simp: step_create_def push_call_def open_ok_def gas_ok_def no_info_def op_toString_def
        dest: frames_ok_nonempty)
qed

lemma step_selfdestruct_safe:
  "frames_ok (callstack s) \<Longrightarrow>
   \<exists>s'. step_selfdestruct h l db s = Return () s' \<and> frames_ok (callstack s')"
  unfolding step_selfdestruct_def by (rule add_call_safe)

lemma step_call_safe:
  assumes "call_ok h l" "frames_ok (callstack s)"
  shows "\<exists>s'. step_call h l s = Return () s' \<and> frames_ok (callstack s')"
proof -
  have nn: "0 \<le> valueOf (peek l i)" and rd: "js_round (valueOf (peek l i)) = valueOf (peek l i)" for i
    using assms(1) peek_nonneg [of l i] by (simp_all add: call_ok_def valueOf_def)
  have "\<exists>bs. memory_slice h l (Some (valueOf (peek l i)))
      (Some (js_add (valueOf (peek l i)) (valueOf (peek l k)))) = Inr bs" for i k
    using memory_slice_valueOf [OF _ _ nn, of h l i k] assms(1) by (auto simp: call_ok_def)
  then obtain bs where "memory_slice h l (Some (valueOf (peek l i)))
      (Some (js_add (valueOf (peek l i)) (valueOf (peek l k)))) = Inr (bs i k)" for i k
    by metis
  then show ?thesis
    using assms(2) call_ok_numbers [OF assms(1)] nn rd
    by (auto simp: step_call_def push_call_def open_ok_def window_ok_def gas_ok_def no_info_def Let_def
        dest: frames_ok_nonempty)
qed

lemma note_descent_safe:
  assumes "call_ok h l" "frames_ok (callstack s)"
  shows "\<exists>s'. note_descent h l s = Return () s' \<and> frames_ok (callstack s') \<and> \<not> descended s' \<and>
    length (callstack s') = length (callstack s)"
proof -
  let ?f = "with_info (\<lambda>i. i\<lparr>c_gas := Some (GNum (getGas h l))\<rparr>)"
  obtain s' where "on_top ?f s = Return () s'" "frames_ok (callstack s')"
    "length (callstack s') = length (callstack s)"
    using on_top_safe [of s ?f] assms(2) call_ok_numbers(4) [OF assms(1)]
    by (auto simp: root_ok_def open_ok_def gas_ok_def window_ok_def)
  then show ?thesis using assms(2) by (auto simp: note_descent_def)
qed

text \<open>Sums and differences of small numbers are far below the precision limit.\<close>

lemma gas_used_exact:
  assumes "small a" "small b" "small c" "small d"
  shows "num_sub (num_sub (Some a) (Some b)) (Some d) = Some (a - b - d)"
    "num_sub (num_add (num_sub (Some a) (Some b)) (Some c)) (Some d) = Some (a - b + c - d)"
    "parseNumberValue (Some (a - b - d)) = Inr (a - b - d)"
    "parseNumberValue (Some (a - b + c - d)) = Inr (a - b + c - d)"
    "parseNumberValue (Some a) = Inr a"
proof -
  have bounds: "\<bar>a - b\<bar> < 4294967296" "\<bar>a - b - d\<bar> < 8589934592" "\<bar>a - b + c\<bar> < 8589934592"
    "\<bar>a - b + c - d\<bar> < 17179869184" "\<bar>a\<bar> < 4294967296"
    using assms unfolding small_def by linarith+
  show "num_sub (num_sub (Some a) (Some b)) (Some d) = Some (a - b - d)"
    "num_sub (num_add (num_sub (Some a) (Some b)) (Some c)) (Some d) = Some (a - b + c - d)"
    using bounds by (simp_all add: js_sub_exact js_add_exact max_int_def)
  show "parseNumberValue (Some (a - b - d)) = Inr (a - b - d)"
    "parseNumberValue (Some (a - b + c - d)) = Inr (a - b + c - d)" "parseNumberValue (Some a) = Inr a"
    using bounds by (simp_all add: parseNumberValue_exact max_int_def)
qed

lemma finish_call_safe:
  assumes ok: "call_ok h l" and i: "open_ok i" "window_ok i"
  shows "\<exists>i'. finish_call h l i = Inr i' \<and> c_gas i' = c_gas i"
proof -
  obtain a b where ab: "c_gasIn i = Some a" "c_gasCost i = Some b" "small a" "small b"
    using i(1) by (auto simp: open_ok_def split: option.splits)
  obtain off n where w: "c_outOff i = Some off" "c_outLen i = Some n" "0 \<le> off" "0 \<le> n" "js_round off = off"
    using i(2) by (auto simp: window_ok_def split: option.splits)
  have d: "duk_numbers h" using ok by (simp add: call_ok_def)
  have "off \<le> js_add off n" using js_add_ge [OF w(3,4)] w(5) by simp
  then obtain bs where bs: "memory_slice h l (Some off) (Some (js_add off n)) = Inr bs"
    using memory_slice_no_panic [OF d w(3)] by blast
  show ?thesis
  proof (cases "c_gas i")
    case None
    then show ?thesis using w bs by (simp add: finish_call_def drop_frame_def)
  next
    case (Some g)
    then obtain n' where g: "g = GNum n'" "small n'"
      using i(1) by (cases g) (auto simp: open_ok_def gas_ok_def)
    note exact = gas_used_exact [OF ab(3,4) g(2) call_ok_numbers(4) [OF ok]]
    show ?thesis using Some g(1) w bs ab(1,2) exact
      by (simp add: finish_call_def)
  qed
qed

lemma finish_create_safe:
  assumes ok: "call_ok h l" and i: "open_ok i"
  shows "\<exists>i'. finish_create h l db i = Inr i' \<and> c_gas i' = c_gas i"
proof -
  obtain a b where ab: "c_gasIn i = Some a" "c_gasCost i = Some b" "small a" "small b"
    using i by (auto simp: open_ok_def split: option.splits)
  note exact = gas_used_exact [OF ab(3,4,4) call_ok_numbers(4) [OF ok]]
  show ?thesis using ab(1,2) exact by (simp add: finish_create_def Let_def)
qed

lemma finish_safe:
  assumes ok: "call_ok h l" and i: "open_ok i"
  shows "\<exists>i'. finish h l db i = Inr i'"
proof -
  have "\<exists>i1. (if c_type i = Some ''CREATE'' \<or> c_type i = Some ''CREATE2''
      then finish_create h l db i else finish_call h l i) = Inr i1 \<and> c_gas i1 = c_gas i"
    using finish_create_safe [OF ok i, of db] finish_call_safe [OF ok i] i by (simp add: open_ok_def) blast
  then obtain i1 where i1: "(if c_type i = Some ''CREATE'' \<or> c_type i = Some ''CREATE2''
      then finish_create h l db i else finish_call h l i) = Inr i1" "c_gas i1 = c_gas i" by blast
  have "\<exists>v. bigInt_gas g = Inr v" if "c_gas i1 = Some g" for g
    using bigInt_gas_ok [of i g] i that i1(2) by (simp add: open_ok_def)
  then show ?thesis unfolding finish_def i1(1) by (cases "c_gas i1") auto
qed

lemma step_return_safe:
  assumes ok: "call_ok h l" and inv: "frames_ok (callstack s)"
  shows "\<exists>s'. step_return h l db s = Return () s' \<and> frames_ok (callstack s')"
proof (cases "getDepth h l = int (length (callstack s)) - 1")
  case True
  obtain cs c where cs: "callstack s = cs @ [c]"
    using frames_ok_nonempty [OF inv] by (metis rev_exhaust)
  with True have "cs \<noteq> []" using call_ok_numbers(6) [OF ok] by auto
  with inv cs have fr: "frames_ok cs" "open_ok (info c)" by simp_all
  obtain i' where "finish h l db (info c) = Inr i'" using finish_safe [OF ok fr(2)] by blast
  with True cs fr(1) add_call_safe [of "s\<lparr>callstack := cs\<rparr>"] show ?thesis
    by (simp add: step_return_def)
qed (use inv in \<open>simp add: step_return_def\<close>)

lemma call_step_safe:
  assumes ok: "call_ok h l" and inv: "call_inv s"
  shows "\<exists>s'. call_step h l db s = Return () s' \<and> call_inv s'"
proof -
  let ?op = "op_toString l"
  have fr: "frames_ok (callstack s)" using inv by (simp add: call_inv_def)
  obtain s1 where s1: "note_descent h l s = Return () s1" "frames_ok (callstack s1)"
    using note_descent_safe [OF ok fr] by blast
  let ?rev = "with_info (\<lambda>i. i\<lparr>c_error := Some ''execution reverted''\<rparr>)"
  have rev: "\<exists>s'. on_top ?rev s1 = Return () s' \<and> frames_ok (callstack s')"
    using on_top_safe [OF s1(2), of ?rev] by (auto simp: root_ok_def open_ok_def gas_ok_def window_ok_def)
  note parts = call_fault_safe [OF fr] step_create_safe [OF ok fr] step_selfdestruct_safe [OF fr, of h l db]
    step_call_safe [OF ok fr] rev step_return_safe [OF ok s1(2), of db]
  consider "lerror l \<noteq> None" | "lerror l = None" "syscall l \<and> (?op = ''CREATE'' \<or> ?op = ''CREATE2'')"
    | "lerror l = None" "\<not> (syscall l \<and> (?op = ''CREATE'' \<or> ?op = ''CREATE2''))" by blast
  then show ?thesis
  proof cases
    case 1
    then show ?thesis using parts(1) by (auto simp: call_step_def call_inv_def getError_def)
  next
    case 2
    then show ?thesis using parts(2) by (simp add: call_step_def call_inv_def getError_def op_toString_def)
  next
    case 3
    then show ?thesis using parts(3-6) s1(1)
      by (auto simp: call_step_def call_inv_def getError_def Let_def)
  qed
qed

interpretation call_safe: safe_tracer "callTracer h" call_inv "call_ok h" for h
proof unfold_locales
  show "call_inv (obj_init (callTracer h))"
    by (simp add: callTracer_def call_inv_def root_ok_def gas_ok_def no_info_def)
next
  fix s l d
  assume "call_inv s" "call_ok h l"
  then show "\<exists>s'. obj_step (callTracer h) l d s = Return () s' \<and> call_inv s'"
    using call_step_safe by (simp add: callTracer_def)
next
  fix s and l :: log_obj and e d'
  assume "call_inv s" "lerror l = Some e"
  then show "\<exists>s'. obj_fault (callTracer h) l d' s = Return () s' \<and> call_inv s'"
    using call_fault_safe by (simp add: callTracer_def call_inv_def)
qed

lemma call_result_returns:
  assumes "call_inv s" "ctx_value c = Some v"
  shows "\<exists>r s'. call_result h c db s = Return r s'"
proof -
  have num: "\<exists>n. bigInt_ctx h g = Inr n" for g by (cases g) (simp_all add: parseNumberValue_def)
  obtain g u where "bigInt_ctx h (ctx_gas c) = Inr g" "bigInt_ctx h (ctx_gasUsed c) = Inr u"
    using num by metis
  moreover obtain i cs rest where "callstack s = Call i cs # rest"
    using assms(1) by (cases "callstack s"; cases "hd (callstack s)") (auto simp: call_inv_def)
  ultimately show ?thesis using assms(2) by (simp add: call_result_def Let_def)
qed

text \<open>C8: Whatever sequence of states, faults and stops the EVM reports, with depths from 1, gas values
  below \<open>2 ^ 32\<close> and stack items that are not negative, \<open>callTracer\<close> neither throws nor panics, and
  after a start it reports a result. The only error a trace can end with is the interruption that
  a caller asked for.\<close>

theorem callTracer_total:
  assumes "list_all (event_ok (call_ok h)) evs" "list_all (\<lambda>ev. \<not> is_start ev) evs"
    and "j = captures (callTracer h) (EvStart from to create input gas value # evs) (New (callTracer h))"
  shows "panicked j = None \<and> (terr j = None \<or> (\<exists>r. terr j = Some (Interrupted r))) \<and>
    (\<exists>r. GetResult (callTracer h) db j = (Some r, terr j))"
proof -
  have "list_all (event_ok (call_ok h)) (EvStart from to create input gas value # evs)"
    using assms(1) by simp
  note safe = call_safe.captures_safe [OF this, folded assms(3)]
  have "ctx_value (tctx j) = Some value" by (rule ctx_after_start(5) [OF assms(2,3)])
  then obtain r s' where "call_result h (tctx j) (current_db db j) (tracerObject j) = Return r s'"
    using call_result_returns [OF safe(3)] by blast
  with safe(1,2) show ?thesis by (simp add: GetResult_def callTracer_def)
qed

theorem callTracer_total_witness:
  "\<exists>r. GetResult (callTracer ref_host) sample_db
     (captures (callTracer ref_host)
       [EvStart [1] [2] False [] 1000 0, sample_call 1, EvFault (\<lambda>_. call_frame) sample_db ''out of gas'', EvStop None]
       (New (callTracer ref_host))) = (Some r,
     terr (captures (callTracer ref_host)
       [EvStart [1] [2] False [] 1000 0, sample_call 1, EvFault (\<lambda>_. call_frame) sample_db ''out of gas'', EvStop None]
       (New (callTracer ref_host))))"
proof -
  have "call_ok ref_host (args_log (\<lambda>_. call_frame) \<lparr>a_block = 1, a_pc = 0, a_op = CALL, a_gas = 100,
      a_cost = 60, a_frame = 0, a_depth = 1, a_err = None\<rparr>)"
    by (simp add: call_ok_def ref_duk_numbers evm_log_def args_log_def call_frame_def)
  then show ?thesis
    using callTracer_total [OF _ _ refl, of ref_host
        "[sample_call 1, EvFault (\<lambda>_. call_frame) sample_db ''out of gas'', EvStop None]" "[1]" "[2]" False "[]" 1000 0 sample_db]
    by (simp add: sample_call_def is_start_def)
qed

end
