(* ===== verification/Call_Tree.thy ===== *)
theory Call_Tree
  imports Call_Tracer
begin

text \<open>
  What \<open>callTracer\<close> promises: the tree it reports is the tree of calls of the execution. An
  execution is described as a tree of activations of contract code; the interpreter
  (\<^verbatim>\<open>vm/interpreter.go\<close>) turns it into the linear sequence of capture calls. The specification
  reads the report off the tree, and the refinement shows that the tracer reconstructs it from the
  sequence.
\<close>

section \<open>Executions\<close>

text \<open>A captured state: the frames, the database and the arguments of the call.\<close>

type_synonym point = "frames \<times> StateDB \<times> state_args"

definition log_at :: "point \<Rightarrow> log_obj" where
  "log_at p = (case p of (H, db, a) \<Rightarrow> args_log H a)"

definition db_at :: "point \<Rightarrow> StateDB" where
  "db_at p = fst (snd p)"

definition state_event :: "point \<Rightarrow> event" where
  "state_event p = (case p of (H, db, a) \<Rightarrow> EvState H db a)"

definition fault_event :: "point \<Rightarrow> string \<Rightarrow> event" where
  "fault_event p err = EvFault (fst p) (db_at p) err"

text \<open>
  How an activation ends: it stops or returns (the instruction that does so is an ordinary one), it
  reverts, it destroys its contract, an instruction is refused before its execution (the
  interpreter captures the state with the error), or an instruction fails while it executes.
\<close>

datatype ending =
    Completes
  | Reverts point string
  | Destroys point
  | Refused point string
  | Fails point string

datatype instr =
    Plain point
  | Native point
  | Invoke point activation
and activation = Act "instr list" ending

fun end_events :: "ending \<Rightarrow> event list" where
  "end_events Completes = []"
| "end_events (Reverts p err) = [state_event p, fault_event p err]"
| "end_events (Destroys p) = [state_event p]"
| "end_events (Refused p err) = [state_event p]"
| "end_events (Fails p err) = [state_event p, fault_event p err]"

fun instr_events :: "instr \<Rightarrow> event list"
  and act_events :: "activation \<Rightarrow> event list" where
  "instr_events (Plain p) = [state_event p]"
| "instr_events (Native p) = [state_event p]"
| "instr_events (Invoke p act) = state_event p # act_events act"
| "act_events (Act is e) = concat (map instr_events is) @ end_events e"

fun failed :: "ending \<Rightarrow> bool" where
  "failed (Refused p err) = True"
| "failed (Fails p err) = True"
| "failed _ = False"

section \<open>The report of an execution\<close>

definition is_create :: "log_obj \<Rightarrow> bool" where
  "is_create l = (lop l = CREATE \<or> lop l = CREATE2)"

definition carries_value :: "log_obj \<Rightarrow> bool" where
  "carries_value l = (lop l = CALL \<or> lop l = CALLCODE)"

text \<open>The operands of a call, by the layout of the stack.\<close>

definition in_window :: "log_obj \<Rightarrow> int \<times> int" where
  "in_window l =
     (if is_create l then (peek l 1, peek l 2)
      else if carries_value l then (peek l 3, peek l 4) else (peek l 2, peek l 3))"

definition out_window :: "log_obj \<Rightarrow> int \<times> int" where
  "out_window l = (if carries_value l then (peek l 5, peek l 6) else (peek l 4, peek l 5))"

definition window :: "log_obj \<Rightarrow> int \<times> int \<Rightarrow> byte list" where
  "window l w = take (nat (snd w)) (drop (nat (fst w)) (store (lmemory l)))"

definition address_hex :: "host \<Rightarrow> int \<Rightarrow> string" where
  "address_hex h v = toHex h (HexToAddress h (toBase 16 v))"

definition gas_of :: "point \<Rightarrow> int" where
  "gas_of p = int (unat (lgas (log_at p)))"

definition cost_of :: "point \<Rightarrow> int" where
  "cost_of p = int (unat (lcost (log_at p)))"

text \<open>The first state captured in an activation, if any.\<close>

fun first_point :: "instr list \<Rightarrow> ending \<Rightarrow> point option" where
  "first_point (Plain p # is) e = Some p"
| "first_point (Native p # is) e = Some p"
| "first_point (Invoke p act # is) e = Some p"
| "first_point [] Completes = None"
| "first_point [] (Reverts p err) = Some p"
| "first_point [] (Destroys p) = Some p"
| "first_point [] (Refused p err) = Some p"
| "first_point [] (Fails p err) = Some p"

text \<open>What is known of a call when it is made.\<close>

definition made :: "host \<Rightarrow> log_obj \<Rightarrow> callinfo" where
  "made h l =
     no_info\<lparr>c_type := Some (op_toString l), c_from := Some (toHex h (getAddress l)),
       c_to := (if is_create l then None else Some (address_hex h (peek l 1))),
       c_input := Some (toHex h (window l (in_window l))),
       c_value := (if is_create l then Some (hex0x (peek l 0))
                   else if carries_value l then Some (hex0x (peek l 2)) else None)\<rparr>"

text \<open>
  A failed call is reported with its error and has used all its gas. A call that came back to the
  state \<open>n\<close> of its caller is reported with the gas it used, the result and the output found there.
\<close>

definition failed_report :: "callinfo \<Rightarrow> int option \<Rightarrow> string \<Rightarrow> callinfo" where
  "failed_report i g err =
     i\<lparr>c_gas := map_option (\<lambda>v. GStr (hex0x v)) g, c_gasUsed := map_option (\<lambda>v. hex0x v) g,
       c_error := Some err\<rparr>"

definition returned_report ::
    "host \<Rightarrow> point \<Rightarrow> int option \<Rightarrow> bool \<Rightarrow> point \<Rightarrow> callinfo" where
  "returned_report h p g reverted n =
     (let l = log_at p; ret = peek (log_at n) 0 in
      (made h l)
        \<lparr>c_gas := map_option (\<lambda>v. GStr (hex0x v)) g,
         c_gasUsed :=
           (if is_create l then Some (hex0x (gas_of p - cost_of p - gas_of n))
            else map_option (\<lambda>v. hex0x (gas_of p - cost_of p + v - gas_of n)) g),
         c_to :=
           (if is_create l then (if ret \<noteq> 0 then Some (address_hex h ret) else None)
            else c_to (made h l)),
         c_output :=
           (if ret = 0 then None
            else if is_create l
            then Some (toHex h (db_getCode h (db_at n) (HexToAddress h (toBase 16 ret))))
            else Some (toHex h (window (log_at n) (out_window l)))),
         c_error :=
           (if reverted then Some ''execution reverted''
            else if ret = 0 then Some ''internal failure'' else None)\<rparr>)"

definition destroy_report :: "host \<Rightarrow> point \<Rightarrow> call" where
  "destroy_report h p =
     Call (no_info\<lparr>c_type := Some ''SELFDESTRUCT'', c_from := Some (toHex h (getAddress (log_at p))),
        c_to := Some (address_hex h (peek (log_at p) 0)), c_gasIn := Some (gas_of p),
        c_gasCost := Some (cost_of p),
        c_value := Some (hex0x (db_getBalance h (db_at p) (getAddress (log_at p))))\<rparr>) None"

definition some_calls :: "call list \<Rightarrow> call list option" where
  "some_calls cs = (if cs = [] then None else Some cs)"

fun end_error :: "ending \<Rightarrow> string option" where
  "end_error (Reverts p err) = Some ''execution reverted''"
| "end_error (Refused p err) = Some err"
| "end_error (Fails p err) = Some err"
| "end_error _ = None"

fun end_calls :: "host \<Rightarrow> ending \<Rightarrow> call list" where
  "end_calls h (Destroys p) = [destroy_report h p]"
| "end_calls h _ = []"

text \<open>
  The report of a call at \<open>p\<close> that activates \<open>is\<close> and \<open>e\<close>, and whose caller goes on with the
  state \<open>n\<close>.
\<close>

definition call_report ::
    "host \<Rightarrow> point \<Rightarrow> instr list \<Rightarrow> ending \<Rightarrow> point option \<Rightarrow> callinfo" where
  "call_report h p is e n =
     (let g = map_option gas_of (first_point is e) in
      case e of
        Refused q err \<Rightarrow> failed_report (made h (log_at p)) g err
      | Fails q err \<Rightarrow> failed_report (made h (log_at p)) g err
      | _ \<Rightarrow> (case n of
                None \<Rightarrow> made h (log_at p)
              | Some q \<Rightarrow> returned_report h p g (end_error e \<noteq> None) q))"

fun calls_of :: "host \<Rightarrow> instr list \<Rightarrow> ending \<Rightarrow> call list" where
  "calls_of h [] e = end_calls h e"
| "calls_of h (Plain p # is) e = calls_of h is e"
| "calls_of h (Native p # is) e = calls_of h is e"
| "calls_of h (Invoke p (Act is' e') # is) e =
     Call (call_report h p is' e' (first_point is e)) (some_calls (calls_of h is' e')) #
     calls_of h is e"

section \<open>Executions of the interpreter\<close>

text \<open>
  The sequences the EVM produces. Memory is expanded before a state is captured, so the operands
  of a call lie in memory unless they are empty. An activation starts with an empty stack, so its
  first instruction is an ordinary one; after a call that was not reported by a fault, the
  caller goes on with an ordinary instruction, which is where the tracer closes the call.
\<close>

definition in_memory :: "log_obj \<Rightarrow> int \<times> int \<Rightarrow> bool" where
  "in_memory l w =
     (0 \<le> fst w \<and> 0 \<le> snd w \<and>
      (snd w = 0 \<or> (fst w + snd w \<le> int (mem_Len (lmemory l)) \<and> fst w + snd w < 2147483648)))"

definition at_depth :: "host \<Rightarrow> nat \<Rightarrow> point \<Rightarrow> bool" where
  "at_depth h d p = (call_ok h (log_at p) \<and> unat (ldepth (log_at p)) = d)"

definition is_call_op :: "log_obj \<Rightarrow> bool" where
  "is_call_op l = (lop l = CALL \<or> lop l = CALLCODE \<or> lop l = DELEGATECALL \<or> lop l = STATICCALL)"

definition ordinary :: "host \<Rightarrow> nat \<Rightarrow> point \<Rightarrow> bool" where
  "ordinary h d p =
     (at_depth h d p \<and> lerror (log_at p) = None \<and> \<not> is_create (log_at p) \<and>
      \<not> is_call_op (log_at p) \<and> lop (log_at p) \<noteq> SELFDESTRUCT \<and> lop (log_at p) \<noteq> REVERT)"

definition precompiled_at :: "host \<Rightarrow> log_obj \<Rightarrow> bool" where
  "precompiled_at h l = isPrecompiled h (HexToAddress h (toBase 16 (peek l 1)))"

definition native_call :: "host \<Rightarrow> nat \<Rightarrow> point \<Rightarrow> bool" where
  "native_call h d p =
     (at_depth h d p \<and> lerror (log_at p) = None \<and> is_call_op (log_at p) \<and>
      precompiled_at h (log_at p))"

definition invoking :: "host \<Rightarrow> nat \<Rightarrow> point \<Rightarrow> bool" where
  "invoking h d p =
     (at_depth h d p \<and> lerror (log_at p) = None \<and>
      (is_create (log_at p) \<or> is_call_op (log_at p) \<and> \<not> precompiled_at h (log_at p)) \<and>
      in_memory (log_at p) (in_window (log_at p)))"

text \<open>Nothing captured yet, in the middle, or waiting to close a call.\<close>

datatype mode = Start | Run | Pend

fun good_end :: "host \<Rightarrow> nat \<Rightarrow> mode \<Rightarrow> ending \<Rightarrow> bool" where
  "good_end h d m Completes = (m \<noteq> Pend)"
| "good_end h d m (Reverts p err) =
     (m \<noteq> Pend \<and> at_depth h d p \<and> lerror (log_at p) = None \<and> lop (log_at p) = REVERT)"
| "good_end h d m (Destroys p) =
     (m = Run \<and> at_depth h d p \<and> lerror (log_at p) = None \<and> lop (log_at p) = SELFDESTRUCT)"
| "good_end h d m (Refused p err) = (m = Run \<and> lerror (log_at p) = Some err)"
| "good_end h d m (Fails p err) = ordinary h d p"

text \<open>The output of a call is read from the memory of the state that closes it.\<close>

fun reads_output :: "point \<Rightarrow> point option \<Rightarrow> bool" where
  "reads_output p None = False"
| "reads_output p (Some n) = (is_create (log_at p) \<or> in_memory (log_at n) (out_window (log_at p)))"

fun good :: "host \<Rightarrow> nat \<Rightarrow> mode \<Rightarrow> instr list \<Rightarrow> ending \<Rightarrow> bool" where
  "good h d m [] e = good_end h d m e"
| "good h d m (Plain p # is) e = (ordinary h d p \<and> good h d Run is e)"
| "good h d m (Native p # is) e = (m = Run \<and> native_call h d p \<and> good h d Run is e)"
| "good h d m (Invoke p (Act is' e') # is) e =
     (m = Run \<and> invoking h d p \<and> good h (Suc d) Start is' e' \<and>
      good h d (if failed e' then Run else Pend) is e \<and>
      (failed e' \<or> reads_output p (first_point is e)))"

section \<open>The tracer on one captured state\<close>

lemma memory_slice_window:
  assumes "duk_numbers h" "in_memory l w"
  shows "memory_slice h l (Some (valueOf (fst w))) (Some (js_add (valueOf (fst w)) (valueOf (snd w)))) =
    Inr (window l w)"
proof (cases "snd w = 0")
  case True
  have "0 \<le> GetInt h (Some (js_round (fst w)))"
    using assms js_round_nonneg [of "fst w"] by (simp add: duk_numbers_def in_memory_def le_max_iff_disj)
  then show ?thesis using True
    by (simp add: memory_slice_def mw_slice_def mem_Get_def valueOf_def js_add_def window_def)
next
  case False
  define b n where "b = nat (fst w)" and "n = nat (snd w)"
  have w1: "fst w = int b" "snd w = int n" using assms(2) by (simp_all add: in_memory_def b_def n_def)
  have w2: "int b + int n \<le> int (mem_Len (lmemory l))" and w3: "int b + int n < 2147483648"
    using assms(2) False unfolding in_memory_def w1 by simp_all
  have w4: "b + n \<le> mem_Len (lmemory l)" using w2 by linarith
  have w5: "b + n < 2147483648" using w3 by linarith
  have e: "js_round (int b) = int b" "js_round (int n) = int n" "js_add (int b) (int n) = int (b + n)"
    using w3 by (simp_all add: js_round_exact js_add_exact max_int_def)
  show ?thesis
    using memory_slice_exact [OF assms(1) _ w4 w5, of b]
    unfolding w1 valueOf_def e window_def by simp
qed

text \<open>The open call object of an invocation.\<close>

definition opened :: "host \<Rightarrow> log_obj \<Rightarrow> callinfo" where
  "opened h l =
     (made h l)\<lparr>c_gasIn := Some (int (unat (lgas l))), c_gasCost := Some (int (unat (lcost l))),
       c_outOff := (if is_create l then None else Some (valueOf (fst (out_window l)))),
       c_outLen := (if is_create l then None else Some (valueOf (snd (out_window l))))\<rparr>"

lemma op_toString_system [simp]:
  "op_toString l = ''CREATE'' \<longleftrightarrow> lop l = CREATE" "op_toString l = ''CREATE2'' \<longleftrightarrow> lop l = CREATE2"
  "op_toString l = ''CALL'' \<longleftrightarrow> lop l = CALL" "op_toString l = ''CALLCODE'' \<longleftrightarrow> lop l = CALLCODE"
  "op_toString l = ''DELEGATECALL'' \<longleftrightarrow> lop l = DELEGATECALL"
  "op_toString l = ''STATICCALL'' \<longleftrightarrow> lop l = STATICCALL"
  "op_toString l = ''REVERT'' \<longleftrightarrow> lop l = REVERT"
  "op_toString l = ''SELFDESTRUCT'' \<longleftrightarrow> lop l = SELFDESTRUCT"
  by (simp_all add: op_toString_def)

lemma syscall_system [simp]:
  "lop l = CREATE \<Longrightarrow> syscall l" "lop l = CREATE2 \<Longrightarrow> syscall l" "lop l = CALL \<Longrightarrow> syscall l"
  "lop l = CALLCODE \<Longrightarrow> syscall l" "lop l = DELEGATECALL \<Longrightarrow> syscall l" "lop l = STATICCALL \<Longrightarrow> syscall l"
  "lop l = REVERT \<Longrightarrow> syscall l" "lop l = SELFDESTRUCT \<Longrightarrow> syscall l"
  by (simp_all add: syscall_def)

lemmas point_defs = at_depth_def ordinary_def native_call_def invoking_def precompiled_at_def

lemma call_step_ordinary:
  assumes "ordinary h d p"
  shows "call_step h (log_at p) db s =
    andThen (note_descent h (log_at p) s) (\<lambda>_. step_return h (log_at p) db)"
  using assms
  by (simp add: call_step_def getError_def Let_def point_defs is_create_def is_call_op_def)

lemma call_step_native:
  assumes "native_call h d p"
  shows "call_step h (log_at p) db s = Return () s"
proof -
  have err: "getError (log_at p) = None" and pre: "isPrecompiled h (HexToAddress h (toBase 16 (peek (log_at p) 1)))"
    and op: "is_call_op (log_at p)"
    using assms by (simp_all add: native_call_def precompiled_at_def getError_def)
  show ?thesis using op unfolding is_call_op_def
    by (elim disjE) (use err pre in \<open>simp_all add: call_step_def step_call_def Let_def\<close>)
qed

lemma step_create_opened:
  assumes "call_ok h l" "is_create l" "in_memory l (in_window l)"
  shows "step_create h l s = Return () (push_call (Call (opened h l) None) s)"
proof -
  have "memory_slice h l (Some (valueOf (peek l 1))) (Some (js_add (valueOf (peek l 1)) (valueOf (peek l 2)))) =
      Inr (window l (in_window l))"
    using memory_slice_window [of h l "in_window l"] assms by (simp add: in_window_def call_ok_def)
  then show ?thesis
    using assms(2) call_ok_numbers(1,2) [OF assms(1)]
    by (simp add: step_create_def opened_def made_def no_info_def)
qed

lemma step_call_opened:
  assumes "call_ok h l" "is_call_op l" "\<not> precompiled_at h l" "in_memory l (in_window l)"
  shows "step_call h l s = Return () (push_call (Call (opened h l) None) s)"
proof -
  have slice: "memory_slice h l (Some (valueOf (fst (in_window l))))
      (Some (js_add (valueOf (fst (in_window l))) (valueOf (snd (in_window l))))) =
      Inr (window l (in_window l))"
    using memory_slice_window [of h l "in_window l"] assms by (simp add: call_ok_def)
  have nc: "\<not> is_create l" using assms(2) by (auto simp: is_create_def is_call_op_def)
  have np: "\<not> isPrecompiled h (HexToAddress h (toBase 16 (peek l 1)))"
    using assms(3) by (simp add: precompiled_at_def)
  note num = call_ok_numbers(1,2) [OF assms(1)]
  show ?thesis
  proof (cases "carries_value l")
    case True
    then have "lop l \<noteq> DELEGATECALL" "lop l \<noteq> STATICCALL" by (auto simp: carries_value_def)
    then show ?thesis using True nc np slice num
      by (simp add: step_call_def Let_def in_window_def out_window_def opened_def made_def no_info_def
          address_hex_def del: add_2_eq_Suc add_2_eq_Suc' One_nat_def)
  next
    case False
    then have "op_toString l = ''DELEGATECALL'' \<or> op_toString l = ''STATICCALL''"
      using assms(2) by (auto simp: carries_value_def is_call_op_def)
    then show ?thesis using False nc np slice num
      by (elim disjE) (simp_all add: step_call_def Let_def in_window_def out_window_def opened_def made_def no_info_def
          address_hex_def del: op_toString_system add_2_eq_Suc add_2_eq_Suc' One_nat_def)
  qed
qed

lemma call_step_invoke:
  assumes "invoking h d p"
  shows "call_step h (log_at p) db s = Return () (push_call (Call (opened h (log_at p)) None) s)"
proof (cases "is_create (log_at p)")
  case True
  have err: "getError (log_at p) = None" using assms by (simp add: invoking_def getError_def)
  have "call_step h (log_at p) db s = step_create h (log_at p) s"
    using True unfolding is_create_def by (elim disjE) (simp_all add: call_step_def err)
  with True assms show ?thesis by (simp add: step_create_opened invoking_def at_depth_def)
next
  case False
  then have c: "is_call_op (log_at p)" "\<not> precompiled_at h (log_at p)" using assms by (auto simp: invoking_def)
  have err: "getError (log_at p) = None" using assms by (simp add: invoking_def getError_def)
  have "call_step h (log_at p) db s = step_call h (log_at p) s"
    using c(1) unfolding is_call_op_def by (elim disjE) (simp_all add: call_step_def err)
  with c assms show ?thesis by (simp add: step_call_opened invoking_def at_depth_def)
qed

lemma call_step_revert:
  assumes "lerror (log_at p) = None" "lop (log_at p) = REVERT"
  shows "call_step h (log_at p) db s =
    andThen (note_descent h (log_at p) s)
      (\<lambda>_. on_top (with_info (\<lambda>i. i\<lparr>c_error := Some ''execution reverted''\<rparr>)))"
  using assms by (simp add: call_step_def getError_def Let_def)

lemma call_step_destroy:
  assumes "at_depth h d p" "lerror (log_at p) = None" "lop (log_at p) = SELFDESTRUCT"
  shows "call_step h (log_at p) (db_at p) s = on_top (add_call (destroy_report h p)) s"
proof -
  note num = call_ok_numbers [of h "log_at p"]
  have "op_toString (log_at p) = ''SELFDESTRUCT''" using assms(3) by simp
  then have "call_step h (log_at p) (db_at p) s = step_selfdestruct h (log_at p) (db_at p) s"
    using assms(2,3) by (simp add: call_step_def getError_def Let_def)
  also have "\<dots> = on_top (add_call (destroy_report h p)) s"
    unfolding step_selfdestruct_def \<open>op_toString (log_at p) = ''SELFDESTRUCT''\<close>
    using assms(1) num
    by (simp add: destroy_report_def address_hex_def at_depth_def gas_of_def cost_of_def)
  finally show ?thesis .
qed

section \<open>The tracer on an activation\<close>

abbreviation tracing :: "call list \<Rightarrow> bool \<Rightarrow> callTracer_state" where
  "tracing cs b \<equiv> \<lparr>callstack = cs, descended = b\<rparr>"

definition more :: "call list option \<Rightarrow> call list \<Rightarrow> call list option" where
  "more cs xs = (case cs of None \<Rightarrow> some_calls xs | Some ys \<Rightarrow> Some (ys @ xs))"

lemma more_simps [simp]:
  "more cs [] = cs" "more (more cs xs) ys = more cs (xs @ ys)" "more None xs = some_calls xs"
  by (simp_all add: more_def some_calls_def split: option.split)

lemma add_call_more [simp]: "add_call c (Call i cs) = Call i (more cs [c])"
  by (cases cs) (simp_all add: more_def some_calls_def)

lemma on_top_snoc [simp]: "on_top f (tracing (stk @ [c]) b) = Return () (tracing (stk @ [f c]) b)"
  by (simp add: on_top_def)

lemma runs_point:
  "call_step h (log_at p) (db_at p) s = Return () s' \<Longrightarrow> runs (callTracer h) [state_event p] s s'"
  by (cases p) (auto intro!: runs_step simp: log_at_def db_at_def state_event_def callTracer_def)

text \<open>The object of an activation once its first state was captured.\<close>

definition entry :: "mode \<Rightarrow> point option \<Rightarrow> callinfo \<Rightarrow> callinfo" where
  "entry m q i =
     (case q of
        Some p \<Rightarrow> (if m = Start then i\<lparr>c_gas := Some (GNum (gas_of p))\<rparr> else i)
      | None \<Rightarrow> i)"

text \<open>The call that waits for its caller's next state \<open>q\<close>, and the report it becomes.\<close>

definition pending :: "host \<Rightarrow> mode \<Rightarrow> call list \<Rightarrow> point option \<Rightarrow> call list \<Rightarrow> bool" where
  "pending h m pnd q rep =
     (if m = Pend then
        \<exists>ci ccs r p. pnd = [Call ci ccs] \<and> q = Some p \<and> finish h (log_at p) (db_at p) ci = Inr r \<and>
          rep = [Call r ccs]
      else pnd = [] \<and> rep = [])"

lemma note_descent_plain:
  assumes "at_depth h (Suc (length stk)) p" "m \<noteq> Pend"
  shows "note_descent h (log_at p) (tracing (stk @ [Call i cs]) (m = Start)) =
    Return () (tracing (stk @ [Call (entry m (Some p) i) cs]) False)"
proof -
  have "call_ok h (log_at p)" "unat (ldepth (log_at p)) = Suc (length stk)"
    using assms(1) by (simp_all add: at_depth_def)
  then show ?thesis
    using call_ok_numbers(1,3) [of h "log_at p"]
    by (simp add: note_descent_def entry_def gas_of_def)
qed

lemma plain_step:
  assumes ord: "ordinary h (Suc (length stk)) p" and pend: "pending h m pnd (Some p) rep"
    and b: "m \<noteq> Pend \<Longrightarrow> b = (m = Start)"
  shows "call_step h (log_at p) (db_at p) (tracing (stk @ [Call i cs] @ pnd) b) =
    Return () (tracing (stk @ [Call (entry m (Some p) i) (more cs rep)]) False)"
proof -
  have ok: "call_ok h (log_at p)" and dep: "unat (ldepth (log_at p)) = Suc (length stk)"
    and at: "at_depth h (Suc (length stk)) p"
    using ord by (simp_all add: ordinary_def at_depth_def)
  have d: "getDepth h (log_at p) = 1 + int (length stk)"
    using call_ok_numbers(3) [OF ok] dep by simp
  show ?thesis
  proof (cases "m = Pend")
    case True
    then obtain ci ccs r where c: "pnd = [Call ci ccs]" "rep = [Call r ccs]"
      and fin: "finish h (log_at p) (db_at p) ci = Inr r"
      using pend by (auto simp: pending_def)
    have "note_descent h (log_at p) (tracing (stk @ [Call i cs] @ pnd) b) =
        Return () (tracing (stk @ [Call i cs] @ pnd) False)"
      using d c(1) by (simp add: note_descent_def)
    moreover have "butlast (stk @ [Call i cs, Call ci ccs]) = stk @ [Call i cs]"
      by (simp add: butlast_append)
    ultimately show ?thesis
      using True d c fin by (simp add: call_step_ordinary [OF ord] step_return_def entry_def)
  next
    case False
    then have "pnd = []" "rep = []" using pend by (simp_all add: pending_def)
    then show ?thesis
      using b [OF False] note_descent_plain [OF at False, of i cs] d
      by (simp add: call_step_ordinary [OF ord] step_return_def)
  qed
qed

text \<open>The object of a failed call.\<close>

definition fail_info :: "string \<Rightarrow> callinfo \<Rightarrow> callinfo" where
  "fail_info err i =
     drop_frame (case c_gas i of
        Some (GNum g) \<Rightarrow> i\<lparr>c_error := Some err, c_gas := Some (GStr (hex0x g)), c_gasUsed := Some (hex0x g)\<rparr>
      | _ \<Rightarrow> i\<lparr>c_error := Some err\<rparr>)"

lemma fail_info_error [simp]: "c_error (fail_info err i) = Some err"
  by (simp add: fail_info_def split: option.split gasval.split)

fun close_failed :: "call list \<Rightarrow> call \<Rightarrow> call list" where
  "close_failed [] c = [c]"
| "close_failed stk c = butlast stk @ [add_call c (last stk)]"

lemma fault_step:
  assumes "c_error i = None" "gas_ok i" "lerror l = Some err"
  shows "call_fault l db (tracing (stk @ [Call i cs]) b) =
    Return () (tracing (close_failed stk (Call (fail_info err i) cs)) b)"
proof -
  have gas: "c_gas i = None \<or> (\<exists>g. c_gas i = Some (GNum g) \<and> parseNumberValue (Some g) = Inr g)"
    using assms(2) gas_used_exact(5) [of _ 0 0 0]
    by (auto simp: gas_ok_def small_def split: option.splits gasval.splits)
  have top: "on_top f (tracing stk b) = Return () (tracing (butlast stk @ [f (last stk)]) b)" if "stk \<noteq> []" for f
    using that by (simp add: on_top_def)
  show ?thesis
    using gas assms(1,3) top
    by (cases stk) (auto simp: call_fault_def Let_def getError_def fail_info_def)
qed

text \<open>Closing a call yields the report that the specification asks for.\<close>

lemma entry_opened:
  "entry Start q (opened h l) = (opened h l)\<lparr>c_gas := map_option (\<lambda>p. GNum (gas_of p)) q\<rparr>"
  by (simp add: entry_def opened_def made_def no_info_def split: option.split)

lemma gas_small: "at_depth h d p \<Longrightarrow> small (gas_of p) \<and> small (cost_of p)"
  using call_ok_numbers [of h "log_at p"] by (simp add: at_depth_def gas_of_def cost_of_def)

lemma op_toString_create: "is_create l \<longleftrightarrow> op_toString l = ''CREATE'' \<or> op_toString l = ''CREATE2''"
  by (simp add: is_create_def)

lemma getGas_at: "at_depth h d q \<Longrightarrow> getGas h (log_at q) = gas_of q"
  using call_ok_numbers(1) [of h "log_at q"] by (simp add: at_depth_def gas_of_def)

lemma finish_create_report:
  assumes "at_depth h d p" "is_create (log_at p)" "at_depth h d q" "pred_option small g"
  shows "finish h (log_at q) (db_at q)
      ((opened h (log_at p))\<lparr>c_gas := map_option GNum g, c_error := (if rv then Some ''execution reverted'' else None)\<rparr>) =
    Inr (returned_report h p g rv q)"
proof -
  note ex = gas_used_exact [of "gas_of p" "cost_of p" 0 "gas_of q"]
  have sm: "small (gas_of p)" "small (cost_of p)" "small (gas_of q)" "small 0"
    using gas_small assms by (auto simp: small_def)
  have num: "parseNumberValue (Some v) = Inr v" if "small v" for v using gas_used_exact(5) [OF that sm(2) that that] .
  have ty: "c_type (opened h (log_at p)) = Some ''CREATE'' \<or> c_type (opened h (log_at p)) = Some ''CREATE2''"
    using assms(2) unfolding op_toString_create by (auto simp: opened_def made_def)
  have "finish_create h (log_at q) (db_at q)
      ((opened h (log_at p))\<lparr>c_gas := map_option GNum g, c_error := (if rv then Some ''execution reverted'' else None)\<rparr>) =
      Inr ((returned_report h p g rv q)\<lparr>c_gas := map_option GNum g\<rparr>)"
    using ex(1,3) [OF sm(1,2,4,3)] assms(2) getGas_at [OF assms(3)]
    by (simp add: finish_create_def opened_def returned_report_def made_def no_info_def Let_def address_hex_def
        gas_of_def [of p] cost_of_def)
  then show ?thesis
    using ty assms(4) num by (cases g) (auto simp: finish_def returned_report_def Let_def)
qed

lemma finish_call_report:
  assumes "at_depth h d p" "\<not> is_create (log_at p)" "at_depth h d q" "pred_option small g"
    "in_memory (log_at q) (out_window (log_at p))"
  shows "finish h (log_at q) (db_at q)
      ((opened h (log_at p))\<lparr>c_gas := map_option GNum g, c_error := (if rv then Some ''execution reverted'' else None)\<rparr>) =
    Inr (returned_report h p g rv q)"
proof -
  let ?i = "(opened h (log_at p))\<lparr>c_gas := map_option GNum g,
    c_error := (if rv then Some ''execution reverted'' else None)\<rparr>"
  have sm: "small (gas_of p)" "small (cost_of p)" "small (gas_of q)"
    using gas_small assms by auto
  have num: "parseNumberValue (Some v) = Inr v" if "small v" for v using gas_used_exact(5) [OF that sm(2) that that] .
  have ty: "\<not> (c_type ?i = Some ''CREATE'' \<or> c_type ?i = Some ''CREATE2'')"
    using assms(2) unfolding op_toString_create by (simp add: opened_def made_def)
  have duk: "duk_numbers h" using assms(1) by (simp add: at_depth_def call_ok_def)
  have out: "memory_slice h (log_at q) (c_outOff ?i) (num_add (c_outOff ?i) (c_outLen ?i)) =
      Inr (window (log_at q) (out_window (log_at p)))"
    using memory_slice_window [OF duk assms(5)] assms(2) by (simp add: opened_def)
  have fin: "finish_call h (log_at q) ?i = Inr ((returned_report h p g rv q)\<lparr>c_gas := map_option GNum g\<rparr>)"
  proof (cases g)
    case None
    then show ?thesis using out assms(2)
      by (simp add: finish_call_def opened_def returned_report_def made_def no_info_def drop_frame_def Let_def)
  next
    case (Some v)
    then have "small v" using assms(4) by simp
    from gas_used_exact(2,4) [OF sm(1,2) this sm(3)] show ?thesis
      using out assms(2) Some getGas_at [OF assms(3)]
      by (simp add: finish_call_def opened_def returned_report_def made_def no_info_def drop_frame_def Let_def
          gas_of_def [of p] cost_of_def)
  qed
  then show ?thesis
    using ty assms(4) num by (cases g) (auto simp: finish_def returned_report_def Let_def)
qed

lemma good_Invoke_Run: "good h d m (Invoke p act # is) e \<Longrightarrow> m = Run"
  by (cases act) simp

lemma good_first_Start: "good h d Start is e \<Longrightarrow> first_point is e = Some q \<Longrightarrow> at_depth h d q"
  by (induction "is" e rule: first_point.induct) (auto simp: ordinary_def dest: good_Invoke_Run)

lemma good_first_Pend: "good h d Pend is e \<Longrightarrow> \<exists>q. first_point is e = Some q \<and> ordinary h d q"
  by (induction "is" e rule: first_point.induct) (auto dest: good_Invoke_Run)

lemma call_report_returned:
  assumes "invoking h d p" "good h (Suc d) Start is' e'" "\<not> failed e'" "at_depth h d q"
    "reads_output p (Some q)"
  shows "finish h (log_at q) (db_at q)
      ((entry Start (first_point is' e') (opened h (log_at p)))\<lparr>c_error := end_error e'\<rparr>) =
    Inr (call_report h p is' e' (Some q))"
proof -
  let ?g = "map_option gas_of (first_point is' e')"
  have g: "pred_option small ?g"
    using good_first_Start [OF assms(2)] gas_small by (cases "first_point is' e'") auto
  have err: "end_error e' = (if end_error e' \<noteq> None then Some ''execution reverted'' else None)"
    using assms(3) by (cases e') simp_all
  have rep: "call_report h p is' e' (Some q) = returned_report h p ?g (end_error e' \<noteq> None) q"
    using assms(3) by (cases e') (simp_all add: call_report_def)
  have p: "at_depth h d p" using assms(1) by (simp add: invoking_def)
  have obj: "(entry Start (first_point is' e') (opened h (log_at p)))\<lparr>c_error := end_error e'\<rparr> =
      (opened h (log_at p))\<lparr>c_gas := map_option GNum ?g,
        c_error := (if end_error e' \<noteq> None then Some ''execution reverted'' else None)\<rparr>"
    unfolding entry_opened by (subst (1) err) (simp add: option.map_comp comp_def)
  show ?thesis unfolding obj rep
  proof (cases "is_create (log_at p)")
    case False
    with assms(5) show "finish h (log_at q) (db_at q) ((opened h (log_at p))\<lparr>c_gas := map_option GNum ?g,
        c_error := (if end_error e' \<noteq> None then Some ''execution reverted'' else None)\<rparr>) =
      Inr (returned_report h p ?g (end_error e' \<noteq> None) q)"
      by (intro finish_call_report [OF p _ assms(4) g]) simp_all
  qed (rule finish_create_report [OF p _ assms(4) g])
qed

lemma call_report_failed:
  assumes "failed e'"
  shows "fail_info (the (end_error e')) (entry Start (first_point is' e') (opened h (log_at p))) =
    call_report h p is' e' n"
  using assms unfolding entry_opened
  by (cases e'; cases "first_point is' e'")
    (simp_all add: fail_info_def call_report_def failed_report_def opened_def made_def no_info_def drop_frame_def)

section \<open>Refinement\<close>

definition closed :: "call list \<Rightarrow> ending \<Rightarrow> callinfo \<Rightarrow> call list option \<Rightarrow> call list" where
  "closed stk e i cs =
     (if failed e then close_failed stk (Call (fail_info (the (end_error e)) i) cs)
      else stk @ [Call (i\<lparr>c_error := end_error e\<rparr>) cs])"

lemma runs_fault_event:
  assumes "c_error i = None" "gas_ok i"
  shows "runs (callTracer h) [fault_event p err] (tracing (stk @ [Call i cs]) b)
    (tracing (close_failed stk (Call (fail_info err i) cs)) b)"
  unfolding fault_event_def by (rule runs_fault) (simp add: callTracer_def fault_step [OF assms])

lemma runs_fault_ignored:
  assumes "c_error i \<noteq> None"
  shows "runs (callTracer h) [fault_event p err] (tracing (stk @ [Call i cs]) b) (tracing (stk @ [Call i cs]) b)"
  unfolding fault_event_def by (rule runs_fault) (simp add: callTracer_def call_fault_def assms)

lemma entry_ok:
  assumes "c_error i = None" "gas_ok i" "m = Start \<longrightarrow> pred_option (at_depth h d) q"
  shows "c_error (entry m q i) = None \<and> gas_ok (entry m q i)"
  using assms gas_small by (cases q) (auto simp: entry_def gas_ok_def)

lemma entry_Run [simp]: "entry Run q i = i"
  by (simp add: entry_def split: option.split)

lemma end_runs:
  assumes "good_end h (Suc (length stk)) m e" "pending h m pnd (first_point [] e) rep"
    and "m \<noteq> Pend \<Longrightarrow> b = (m = Start)" and i: "c_error i = None" "gas_ok i"
  shows "runs (callTracer h) (end_events e) (tracing (stk @ [Call i cs] @ pnd) b)
    (tracing (closed stk e (entry m (first_point [] e) i) (more cs (rep @ end_calls h e)))
      (m = Start \<and> first_point [] e = None))"
proof (cases e)
  case Completes
  have "i\<lparr>c_error := None\<rparr> = i" using i(1) by simp
  with Completes show ?thesis using assms(1-3) by (simp add: pending_def closed_def entry_def)
next
  case (Reverts p err)
  then have g: "m \<noteq> Pend" "at_depth h (Suc (length stk)) p" "lerror (log_at p) = None" "lop (log_at p) = REVERT"
    and e: "pnd = []" "rep = []"
    using assms(1,2) by (simp_all add: pending_def)
  let ?i = "(entry m (Some p) i)\<lparr>c_error := Some ''execution reverted''\<rparr>"
  have "runs (callTracer h) [state_event p] (tracing (stk @ [Call i cs]) b) (tracing (stk @ [Call ?i cs]) False)"
    using note_descent_plain [OF g(2,1), of i cs] assms(3) [OF g(1)]
    by (intro runs_point) (simp add: call_step_revert [OF g(3,4)])
  moreover have "runs (callTracer h) [fault_event p err] (tracing (stk @ [Call ?i cs]) False)
      (tracing (stk @ [Call ?i cs]) False)"
    by (rule runs_fault_ignored) simp
  ultimately show ?thesis using Reverts e by (auto intro: runs_Cons simp: closed_def)
next
  case (Destroys p)
  then have g: "m = Run" "at_depth h (Suc (length stk)) p" "lerror (log_at p) = None"
    "lop (log_at p) = SELFDESTRUCT" and e: "pnd = []" "rep = []" "b = False"
    using assms(1-3) by (simp_all add: pending_def)
  have "i\<lparr>c_error := None\<rparr> = i" using i(1) by simp
  with Destroys g e show ?thesis
    by (auto intro!: runs_point simp: call_step_destroy [OF g(2-4)] closed_def)
next
  case (Refused p err)
  then have g: "m = Run" "lerror (log_at p) = Some err" and e: "pnd = []" "rep = []" "b = False"
    using assms(1-3) by (simp_all add: pending_def)
  have "call_step h (log_at p) (db_at p) (tracing (stk @ [Call i cs]) False) =
      Return () (tracing (close_failed stk (Call (fail_info err i) cs)) False)"
    using g(2) fault_step [OF i g(2)] by (simp add: call_step_def getError_def)
  with Refused g e show ?thesis by (auto intro!: runs_point simp: closed_def)
next
  case (Fails p err)
  then have ord: "ordinary h (Suc (length stk)) p" using assms(1) by simp
  have ok: "c_error (entry m (Some p) i) = None" "gas_ok (entry m (Some p) i)"
    using entry_ok [OF i, of m h "Suc (length stk)" "Some p"] ord by (simp_all add: ordinary_def)
  have "runs (callTracer h) [state_event p] (tracing (stk @ [Call i cs] @ pnd) b)
      (tracing (stk @ [Call (entry m (Some p) i) (more cs rep)]) False)"
    by (rule runs_point, rule plain_step [OF ord _ assms(3)]) (use assms(2) Fails in simp_all)
  from runs_Cons [OF this runs_fault_event [OF ok]] Fails show ?thesis by (simp add: closed_def)
qed

lemma close_failed_snoc [simp]: "close_failed (stk @ [Call i cs]) c = stk @ [Call i (more cs [c])]"
  by (cases stk) (simp_all add: butlast_append)

lemma failed_first: "failed e \<Longrightarrow> first_point is e \<noteq> None"
  by (induction "is" e rule: first_point.induct) simp_all

text \<open>
  The refinement: on the events of a well-formed activation the tracer adds exactly the calls of
  the tree to the activation's object.
\<close>

lemma act_runs:
  assumes "good h (Suc (length stk)) m is e" "pending h m pnd (first_point is e) rep"
    and "m \<noteq> Pend \<Longrightarrow> b = (m = Start)" and "c_error i = None" "gas_ok i"
  shows "runs (callTracer h) (act_events (Act is e)) (tracing (stk @ [Call i cs] @ pnd) b)
    (tracing (closed stk e (entry m (first_point is e) i) (more cs (rep @ calls_of h is e)))
      (m = Start \<and> first_point is e = None))"
  using assms
proof (induction h "is" e arbitrary: stk m pnd rep b i cs rule: calls_of.induct)
  case (1 h e)
  then show ?case using end_runs by simp
next
  case (2 h p "is" e)
  then have ord: "ordinary h (Suc (length stk)) p" by simp
  have ok: "c_error (entry m (Some p) i) = None" "gas_ok (entry m (Some p) i)"
    using entry_ok [OF 2(5,6), of m h "Suc (length stk)" "Some p"] ord by (simp_all add: ordinary_def)
  have "runs (callTracer h) [state_event p] (tracing (stk @ [Call i cs] @ pnd) b)
      (tracing (stk @ [Call (entry m (Some p) i) (more cs rep)] @ []) False)"
    unfolding append_Nil2
    by (rule runs_point, rule plain_step [OF ord _ 2(4)]) (use 2(3) in simp_all)
  moreover have "runs (callTracer h) (act_events (Act is e))
      (tracing (stk @ [Call (entry m (Some p) i) (more cs rep)] @ []) False)
      (tracing (closed stk e (entry m (Some p) i) (more (more cs rep) ([] @ calls_of h is e))) False)"
    using 2(1) [of stk Run "[]" "[]" False "entry m (Some p) i" "more cs rep"] 2(2) ok
    by (simp add: pending_def)
  ultimately show ?case using runs_Cons by fastforce
next
  case (3 h p "is" e)
  then have g: "m = Run" "native_call h (Suc (length stk)) p" "pnd = []" "rep = []" "b = False"
    by (simp_all add: pending_def)
  have "runs (callTracer h) [state_event p] (tracing (stk @ [Call i cs]) False)
      (tracing (stk @ [Call i cs]) False)"
    by (rule runs_point) (simp add: call_step_native [OF g(2)])
  from runs_Cons [OF this, of "act_events (Act is e)"] 3(1) [of stk Run "[]" "[]" False i cs] 3(2,5,6) g
  show ?case by (simp add: pending_def)
next
  case (4 h p is' e' "is" e)
  let ?fp = "first_point is' e'" and ?l = "log_at p" and ?stk = "stk @ [Call i cs]"
  let ?rep = "Call (call_report h p is' e' (first_point is e)) (some_calls (calls_of h is' e'))"
  have g: "m = Run" "invoking h (Suc (length stk)) p" "good h (Suc (length ?stk)) Start is' e'"
    "good h (Suc (length stk)) (if failed e' then Run else Pend) is e"
    "failed e' \<or> reads_output p (first_point is e)"
    and n: "pnd = []" "rep = []" "b = False"
    using 4(3-5) by (simp_all add: pending_def)
  have open_ok: "c_error (opened h ?l) = None" "gas_ok (opened h ?l)"
    by (simp_all add: opened_def made_def no_info_def gas_ok_def)
  let ?b = "?fp = None"
  have inv: "runs (callTracer h) [state_event p] (tracing ?stk False)
      (tracing (?stk @ [Call (opened h ?l) None] @ []) True)"
    by (rule runs_point) (simp add: call_step_invoke [OF g(2)] push_call_def)
  have sub: "runs (callTracer h) (act_events (Act is' e')) (tracing (?stk @ [Call (opened h ?l) None] @ []) True)
      (tracing (closed ?stk e' (entry Start ?fp (opened h ?l)) (some_calls (calls_of h is' e'))) ?b)"
    using 4(1) [of ?stk Start "[]" "[]" True "opened h ?l" None] g(3) open_ok by (simp add: pending_def)
  have rest: "runs (callTracer h) (act_events (Act is e))
      (tracing (closed ?stk e' (entry Start ?fp (opened h ?l)) (some_calls (calls_of h is' e'))) ?b)
      (tracing (closed stk e i (more cs (?rep # calls_of h is e))) False)"
  proof (cases "failed e'")
    case True
    then have b: "?b = False" using failed_first by simp
    show ?thesis
      using 4(2) [of stk Run "[]" "[]" False i "more cs [?rep]"] 4(6,7) g(4) True
      by (simp add: pending_def closed_def call_report_failed [OF True, where n = "first_point is e"] b)
  next
    case False
    then obtain q where q: "first_point is e = Some q" "ordinary h (Suc (length stk)) q"
      using good_first_Pend [of h "Suc (length stk)" "is" e] g(4) by auto
    have fin: "finish h (log_at q) (db_at q) ((entry Start ?fp (opened h ?l))\<lparr>c_error := end_error e'\<rparr>) =
        Inr (call_report h p is' e' (Some q))"
      by (rule call_report_returned [OF g(2)]) (use g(3,5) False q in \<open>simp_all add: ordinary_def\<close>)
    show ?thesis
      using 4(2) [of stk Pend "[Call ((entry Start ?fp (opened h ?l))\<lparr>c_error := end_error e'\<rparr>)
          (some_calls (calls_of h is' e'))]" "[?rep]" ?b i cs] 4(6,7) g(4) False q(1) fin
      by (simp add: pending_def closed_def entry_def)
  qed
  from runs_Cons [OF inv runs_append [OF sub rest]] show ?case using g(1) n by simp
qed

text \<open>The report of the outermost call, from the context that the driver collects.\<close>

definition root_report ::
    "host \<Rightarrow> byte list \<Rightarrow> byte list \<Rightarrow> bool \<Rightarrow> byte list \<Rightarrow> u64 \<Rightarrow> int \<Rightarrow> byte list \<Rightarrow> u64 \<Rightarrow> string \<Rightarrow>
     string option \<Rightarrow> callinfo" where
  "root_report h from to create input gas value output used t err =
     no_info\<lparr>c_type := Some (if create then ''CREATE'' else ''CALL''), c_from := Some (toHex h from),
       c_to := Some (toHex h to), c_value := Some (hex0x value),
       c_gas := Some (GStr (hex0x (int (unat gas)))), c_gasUsed := Some (hex0x (int (unat used))),
       c_input := Some (toHex h input),
       c_output :=
         (if err = None \<or> err = Some ''execution reverted'' \<and> toHex h output \<noteq> ''0x''
          then Some (toHex h output) else None),
       c_error := err, c_time := Some t\<rparr>"

lemma bigInt_ctx_exact:
  "duk_numbers h \<Longrightarrow> unat g < 4294967296 \<Longrightarrow> bigInt_ctx h (Some g) = Inr (int (unat g))"
  using gas_used_exact(5) [of "int (unat g)" 0 0 0] small_of_nat [of "unat g"]
  by (simp add: PushUint_small small_def)

lemma end_events_kinds:
  "list_all (\<lambda>ev. \<not> is_end ev) (end_events e)" "list_all (\<lambda>ev. \<not> is_start ev) (end_events e)"
  by (cases e; auto simp: state_event_def fault_event_def is_end_def is_start_def)+

lemma act_events_kinds:
  "list_all (\<lambda>ev. \<not> is_end ev \<and> \<not> is_start ev) (instr_events x)"
  "list_all (\<lambda>ev. \<not> is_end ev \<and> \<not> is_start ev) (act_events a)"
proof (induction x and a rule: instr_events_act_events.induct)
  case (4 "is" e)
  then show ?case using end_events_kinds [of e] by (auto simp: list_all_iff)
qed (auto simp: state_event_def is_end_def is_start_def)

text \<open>C1: For every execution the EVM can produce in which the caller of a returning call goes on with an
  ordinary instruction, \<open>callTracer\<close> reports exactly the tree of calls of the execution: the
  outermost call from the context, below it one report per call in the order of the calls, with
  type, addresses, value, input, gas, gas used, output and error of that call. The trace ends without an error.\<close>

theorem callTracer_reports_tree:
  assumes "good h 1 Run is e" "duk_numbers h" "unat gas < 4294967296" "unat used < 4294967296"
  shows "GetResult (callTracer h) db
      (captures (callTracer h)
        (EvStart from to create input gas value # act_events (Act is e) @ [EvEnd output used t err])
        (New (callTracer h))) =
    (Some (call_json (finalize
      (Call (root_report h from to create input gas value output used t
               (if end_error e \<noteq> None then end_error e else err))
         (some_calls (calls_of h is e))))), None)"
proof -
  let ?T = "callTracer h" and ?start = "EvStart from to create input gas value" and ?body = "act_events (Act is e)"
  define j where "j = captures ?T ((?start # ?body) @ [EvEnd output used t err]) (New ?T)"
  have init: "obj_init ?T = tracing ([] @ [Call no_info None] @ []) False" by (simp add: callTracer_def)
  have "runs ?T ?body (obj_init ?T)
      (tracing (closed [] e no_info (some_calls (calls_of h is e))) False)"
    unfolding init using act_runs [of h "[]" Run "is" e "[]" "[]" False no_info None] assms(1)
    by (simp add: pending_def no_info_def gas_ok_def)
  note r = runs_Cons [OF runs_other(2) this, of "from" to create input gas "value"]
  from r runs_New [OF runs_append [OF r runs_other(1)]]
  have obj: "tracerObject j = tracing (closed [] e no_info (some_calls (calls_of h is e))) False"
    and err: "terr j = None" and run: "running (captures ?T (?start # ?body) (New ?T))"
    by (auto simp: j_def runs_def running_def New_def)
  obtain i where i: "closed [] e no_info (some_calls (calls_of h is e)) = [Call i (some_calls (calls_of h is e))]"
    "c_error i = end_error e"
    by (cases e) (simp_all add: closed_def fail_info_def no_info_def)
  have kinds: "list_all (\<lambda>ev. \<not> is_end ev) (?start # ?body)"
    "list_all (\<lambda>ev. \<not> is_start ev) (?body @ [EvEnd output used t err])"
    using act_events_kinds(2) [of "Act is e"] by (simp_all add: list_all_iff is_end_def is_start_def)
  note fin = captures_end [OF j_def run]
  have "ctx_error (tctx (captures ?T (?start # ?body) (New ?T))) = None"
    using ctx_error_captures [OF kinds(1), of ?T "New ?T"] by (simp add: New_def empty_ctx_def)
  then have cerr: "ctx_error (tctx j) = err" using fin(4,5) by (cases err) auto
  have "j = captures ?T (?start # ?body @ [EvEnd output used t err]) (New ?T)" by (simp add: j_def)
  note start = ctx_after_start [OF kinds(2) this]
  have "call_result h (tctx j) (current_db db j) (tracerObject j) = Return
      (call_json (finalize (Call (root_report h from to create input gas value output used t
         (if end_error e \<noteq> None then end_error e else err)) (some_calls (calls_of h is e)))))
      (tracing [Call i (calls (finalize (Call no_info (some_calls (calls_of h is e)))))] False)"
    unfolding call_result_def obj i(1)
    using bigInt_ctx_exact [OF assms(2)] assms(3,4) i(2) start fin(1-3) cerr
    by (simp add: result_info_def root_report_def no_info_def Let_def del: bigInt_ctx.simps)
  then show ?thesis using err by (simp add: GetResult_def callTracer_def j_def)
qed

text \<open>
  A small execution: a call of \<open>0x2a\<close>, one instruction there, and the caller going on with the
  result \<open>1\<close> on its stack.
\<close>

definition point_of :: "frame \<Rightarrow> OpCode \<Rightarrow> u64 \<Rightarrow> u64 \<Rightarrow> string option \<Rightarrow> point" where
  "point_of f op depth gas err =
     (\<lambda>_. f, sample_db, \<lparr>a_block = 1, a_pc = 0, a_op = op, a_gas = gas, a_cost = 3, a_frame = 0,
        a_depth = depth, a_err = err\<rparr>)"

definition back_frame :: frame where
  "back_frame = call_frame\<lparr>f_stack := \<lparr>data = [1]\<rparr>\<rparr>"

definition sample_body :: "instr list" where
  "sample_body =
     [Invoke (point_of call_frame CALL 1 90 None) (Act [Plain (point_of nil_frame 0 2 50 None)] Completes),
      Plain (point_of back_frame 0 1 30 None)]"

lemma point_of_simps [simp]:
  "lop (log_at (point_of f op depth gas err)) = op"
  "lstack (log_at (point_of f op depth gas err)) = f_stack f"
  "lmemory (log_at (point_of f op depth gas err)) = f_memory f"
  "lgas (log_at (point_of f op depth gas err)) = gas"
  "lcost (log_at (point_of f op depth gas err)) = 3"
  "ldepth (log_at (point_of f op depth gas err)) = depth"
  "lerror (log_at (point_of f op depth gas err)) = err"
  by (simp_all add: point_of_def log_at_def args_log_def)

lemma point_of_ok:
  assumes "\<forall>v \<in> set (data (f_stack f)). 0 \<le> v" "1 \<le> unat depth" "unat depth < 4294967296"
    "unat gas < 4294967296"
  shows "at_depth ref_host (unat depth) (point_of f op depth gas err)"
  using assms by (simp add: at_depth_def call_ok_def evm_log_def ref_duk_numbers)

lemma sample_invoking:
  assumes "1 \<le> unat depth" "unat depth < 4294967296" "unat gas < 4294967296"
  shows "invoking ref_host (unat depth) (point_of call_frame CALL depth gas None)"
proof -
  let ?p = "point_of call_frame CALL depth gas None"
  have at: "at_depth ref_host (unat depth) ?p"
    using point_of_ok [OF _ assms, of call_frame CALL None] by (simp add: call_frame_def)
  have "toBase 16 42 = ''2a''"
    by (simp add: toBase_def nat_to_base_def to_digits.simps stringify_def digit_chars_def)
  moreover have "HexToAddress ref_host ''2a'' = replicate 19 0 @ [42]"
    by (simp add: ref_host_def from_hex_def pad_left_def digit_value_def digit_chars_def)
  moreover have "\<not> isPrecompiled ref_host (replicate 19 0 @ [42])"
    by (simp add: isPrecompiled_def PrecompiledContractsByzantium_def ref_host_def pad_left_def)
  ultimately have "\<not> precompiled_at ref_host (log_at ?p)"
    by (simp add: precompiled_at_def peek_def call_frame_def)
  with at show ?thesis
    by (simp add: invoking_def is_call_op_def is_create_def carries_value_def in_memory_def in_window_def
        peek_def call_frame_def mem_Len_def)
qed

lemma sample_points:
  "invoking ref_host 1 (point_of call_frame CALL 1 90 None)"
  "invoking ref_host 2 (point_of call_frame CALL 2 90 None)"
  "ordinary ref_host 2 (point_of nil_frame 0 2 50 None)"
  "ordinary ref_host 1 (point_of back_frame 0 1 30 None)"
  using sample_invoking [of 1 90] sample_invoking [of 2 90] point_of_ok [of nil_frame 2 50 0 None]
    point_of_ok [of back_frame 1 30 0 None]
  by (simp_all add: call_frame_def nil_frame_def newstack_def back_frame_def ordinary_def is_create_def
      is_call_op_def)

theorem callTracer_reports_tree_witness:
  "length (calls_of ref_host sample_body Completes) = 1 \<and>
   GetResult (callTracer ref_host) sample_db
      (captures (callTracer ref_host)
        (EvStart [1] [2] False [] 100 0 # act_events (Act sample_body Completes) @ [EvEnd [] 70 ''1ms'' None])
        (New (callTracer ref_host))) =
    (Some (call_json (finalize
      (Call (root_report ref_host [1] [2] False [] 100 0 [] 70 ''1ms'' None)
         (some_calls (calls_of ref_host sample_body Completes))))), None)"
proof -
  have "good ref_host 1 Run sample_body Completes"
    using sample_points
    by (simp add: sample_body_def in_memory_def is_create_def out_window_def carries_value_def peek_def
        call_frame_def back_frame_def numeral_2_eq_2)
  from callTracer_reports_tree [OF this ref_duk_numbers, of 100 70 sample_db "[1]" "[2]" False "[]" 0 "[]" "''1ms''" None]
  show ?thesis by (simp add: sample_body_def)
qed

section \<open>Outside the refinement\<close>

text \<open>
  Two situations that the interpreter can produce and in which the report differs from the tree.
\<close>


text \<open>C35: When the first instruction of a called contract is refused, \<open>callTracer\<close> takes the next instruction of
  the caller for the first one of a call: it overwrites the gas allowance of the caller with the gas
  that the caller has left.\<close>

theorem callTracer_overwrites_allowance:
  assumes "invoking h (Suc (length stk)) p" "lerror (log_at q) = Some err"
    and "ordinary h (Suc (length stk)) r"
  shows "\<exists>c. runs (callTracer h) [state_event p, state_event q, state_event r]
    \<lparr>callstack = stk @ [Call i None], descended = False\<rparr>
    \<lparr>callstack = stk @ [Call (i\<lparr>c_gas := Some (GNum (gas_of r))\<rparr>) (Some [c])], descended = False\<rparr>"
proof -
  let ?T = "callTracer h" and ?o = "opened h (log_at p)" and ?stk = "stk @ [Call i None]"
  let ?c = "Call (fail_info err ?o) None"
  have o: "c_error ?o = None" "gas_ok ?o"
    by (simp_all add: opened_def made_def no_info_def gas_ok_def)
  have 1: "runs ?T [state_event p] (tracing ?stk False) (tracing (?stk @ [Call ?o None]) True)"
    by (rule runs_point) (simp add: call_step_invoke [OF assms(1)] push_call_def)
  have 2: "runs ?T [state_event q] (tracing (?stk @ [Call ?o None]) True) (tracing (stk @ [Call i (Some [?c])]) True)"
    using fault_step [OF o assms(2), of "Some (db_at q)" ?stk None True] assms(2)
    by (intro runs_point) (simp add: call_step_def getError_def some_calls_def)
  have 3: "runs ?T [state_event r] (tracing (stk @ [Call i (Some [?c])]) True)
      (tracing (stk @ [Call (i\<lparr>c_gas := Some (GNum (gas_of r))\<rparr>) (Some [?c])]) False)"
    using plain_step [OF assms(3), of Start "[]" "[]" True i "Some [?c]"]
    by (intro runs_point) (simp add: pending_def entry_def)
  from runs_Cons [OF 1 runs_Cons [OF 2 3]] show ?thesis by blast
qed


theorem callTracer_overwrites_allowance_witness:
  "\<exists>c. runs (callTracer ref_host)
      [state_event (point_of call_frame CALL 2 90 None), state_event (point_of nil_frame 1 3 50 (Some ''stack underflow'')),
       state_event (point_of nil_frame 0 2 50 None)]
    \<lparr>callstack = [Call no_info None, Call (no_info\<lparr>c_gas := Some (GNum 95)\<rparr>) None], descended = False\<rparr>
    \<lparr>callstack = [Call no_info None, Call (no_info\<lparr>c_gas := Some (GNum 50)\<rparr>) (Some [c])], descended = False\<rparr>"
proof -
  have two: "Suc (length [Call no_info None]) = 2" by simp
  have "gas_of (point_of nil_frame 0 2 50 None) = 50" by (simp add: gas_of_def)
  with callTracer_overwrites_allowance [of ref_host "[Call no_info None]" "point_of call_frame CALL 2 90 None"
      "point_of nil_frame 1 3 50 (Some ''stack underflow'')" "''stack underflow''" "point_of nil_frame 0 2 50 None"
      "no_info\<lparr>c_gas := Some (GNum 95)\<rparr>", unfolded two] sample_points(2,3)
  show ?thesis by simp
qed

end
