(* ===== verification/Evmdis_Tracer.thy ===== *)
theory Evmdis_Tracer
  imports Tracer_Driver
begin

text \<open>
  \<open>evmdisTracer\<close> (\<^verbatim>\<open>evmdis_tracer.js\<close>): lists the executed instructions with the values they push,
  the instructions of a called contract inside the entry of the call. An entry of a call is
  at once an element of the list of its frame and an element of the tracer's \<open>stack\<close>, and is written
  through both references, so the objects live in an explicit store.
\<close>

section \<open>Objects and the store\<close>

datatype opval = OpNum nat | OpStr string

text \<open>A property that is absent, \<open>null\<close>, or has a value.\<close>

datatype 'a nullable = Undef | Null | Val 'a

record opdata =
  d_op :: "opval option"
  d_depth :: "int option"
  d_result :: "string list option"
  d_gas :: "int option"
  d_to :: "string option"
  d_value :: "string option"
  d_input :: "byte list option"
  d_error :: "string nullable"
  d_return :: "byte list nullable"
  d_pc :: "int option"
  d_len :: "int option"

datatype obj = Obj (odata: opdata) (ops_of: "nat list option")

record evmdis_state =
  dheap :: "obj list"
  dstack :: "nat list"

definition no_data :: opdata where
  "no_data =
     \<lparr>d_op = None, d_depth = None, d_result = None, d_gas = None, d_to = None, d_value = None,
      d_input = None, d_error = Undef, d_return = Undef, d_pc = None, d_len = None\<rparr>"

text \<open>A write through a reference.\<close>

definition put :: "nat \<Rightarrow> (opdata \<Rightarrow> opdata) \<Rightarrow> evmdis_state \<Rightarrow> evmdis_state" where
  "put a f s =
     s\<lparr>dheap := (dheap s)[a := Obj (f (odata (dheap s ! a))) (ops_of (dheap s ! a))]\<rparr>"

section \<open>step\<close>

definition npushes :: "(nat \<times> nat) list" where
  "npushes =
    [(0, 0), (1, 1), (2, 1), (3, 1), (4, 1), (5, 1), (6, 1), (7, 1), (8, 1), (9, 1), (10, 1),
     (11, 1), (16, 1), (17, 1), (18, 1), (19, 1), (20, 1), (21, 1), (22, 1), (23, 1), (24, 1),
     (25, 1), (26, 1), (32, 1), (48, 1), (49, 1), (50, 1), (51, 1), (52, 1), (53, 1), (54, 1),
     (55, 0), (56, 1), (57, 0), (58, 1), (59, 1), (60, 0), (64, 1), (65, 1), (66, 1), (67, 1),
     (68, 1), (69, 1), (80, 0), (81, 1), (82, 0), (83, 0), (84, 1), (85, 0), (86, 0), (87, 0),
     (88, 1), (89, 1), (90, 1), (91, 0), (96, 1), (97, 1), (98, 1), (99, 1), (100, 1), (101, 1),
     (102, 1), (103, 1), (104, 1), (105, 1), (106, 1), (107, 1), (108, 1), (109, 1), (110, 1),
     (111, 1), (112, 1), (113, 1), (114, 1), (115, 1), (116, 1), (117, 1), (118, 1), (119, 1),
     (120, 1), (121, 1), (122, 1), (123, 1), (124, 1), (125, 1), (126, 1), (127, 1), (128, 2),
     (129, 3), (130, 4), (131, 5), (132, 6), (133, 7), (134, 8), (135, 9), (136, 10), (137, 11),
     (138, 12), (139, 13), (140, 14), (141, 15), (142, 16), (143, 17), (144, 2), (145, 3),
     (146, 4), (147, 5), (148, 6), (149, 7), (150, 8), (151, 9), (152, 10), (153, 11), (154, 12),
     (155, 13), (156, 14), (157, 15), (158, 16), (159, 17), (160, 0), (161, 0), (162, 0), (163, 0),
     (164, 0), (240, 1), (241, 1), (242, 1), (243, 0), (244, 0), (255, 0)]"

text \<open>
  The number of iterations of \<open>i < this.npushes[prevop.op]\<close>: none for a key that is not in the table,
  in particular for an operation that was overwritten by its name.
\<close>

fun pushes :: "opval option \<Rightarrow> nat" where
  "pushes (Some (OpNum n)) = (case map_of npushes n of None \<Rightarrow> 0 | Some k \<Rightarrow> k)"
| "pushes _ = 0"

definition pushed_values :: "log_obj \<Rightarrow> nat \<Rightarrow> string list" where
  "pushed_values l k = map (\<lambda>i. toBase 16 (peek l i)) [0..<k]"

text \<open>\<open>prevop.result.push\<close> for the values on the stack.\<close>

definition note_results ::
    "log_obj \<Rightarrow> nat \<Rightarrow> evmdis_state \<Rightarrow> (evmdis_state, unit) outcome" where
  "note_results l prev s =
     (let d = odata (dheap s ! prev); vs = pushed_values l (pushes (d_op d)) in
      case d_result d of
        None \<Rightarrow> if vs = [] then Return () s else Throw TypeError s
      | Some rs \<Rightarrow> Return () (put prev (\<lambda>d. d\<lparr>d_result := Some (rs @ vs)\<rparr>) s))"

definition new_info :: "host \<Rightarrow> log_obj \<Rightarrow> opdata" where
  "new_info h l =
     no_data\<lparr>d_op := Some (OpNum (op_toNumber l)), d_depth := Some (getDepth h l), d_result := Some []\<rparr>"

text \<open>
  The switch: the new entry, whether it is pushed on the stack as a frame, and the value it
  assigns to \<open>frame.return\<close>.
\<close>

definition dis_switch ::
    "host \<Rightarrow> log_obj \<Rightarrow> opdata \<Rightarrow> js_error + opdata \<times> bool \<times> byte list option" where
  "dis_switch h l d =
     (let op = op_toString l in
      if op = ''CALL'' \<or> op = ''CALLCODE'' then
        (let instart = valueOf (peek l 3); insize = valueOf (peek l 4) in
         map_sum id
           (\<lambda>bs. (d\<lparr>d_gas := Some (valueOf (peek l 0)), d_to := Some (toBase 16 (peek l 1)),
                    d_value := Some (toBase 10 (peek l 2)), d_input := Some bs, d_error := Null,
                    d_return := Null\<rparr>, True, None))
           (memory_slice h l (Some instart) (Some (js_add instart insize))))
      else if op = ''DELEGATECALL'' \<or> op = ''STATICCALL'' then
        (let instart = valueOf (peek l 2); insize = valueOf (peek l 3) in
         map_sum id
           (\<lambda>bs. (d\<lparr>d_op := Some (OpStr op), d_gas := Some (valueOf (peek l 0)),
                    d_to := Some (toBase 16 (peek l 1)), d_input := Some bs, d_error := Null,
                    d_return := Null\<rparr>, True, None))
           (memory_slice h l (Some instart) (Some (js_add instart insize))))
      else if op = ''RETURN'' then
        (let out = valueOf (peek l 0); outsize = valueOf (peek l 1) in
         map_sum id (\<lambda>bs. (d, False, Some bs))
           (memory_slice h l (Some out) (Some (js_add out outsize))))
      else if op = ''STOP'' \<or> op = ''SUICIDE'' then
        map_sum id (\<lambda>bs. (d, False, Some bs)) (memory_slice h l (Some 0) (Some 0))
      else if op = ''JUMPDEST'' then Inr (d\<lparr>d_pc := Some (getPC h l)\<rparr>, False, None)
      else Inr (d, False, None))"

definition with_len :: "log_obj \<Rightarrow> opdata \<Rightarrow> opdata" where
  "with_len l d = (if op_isPush l then d\<lparr>d_len := Some (int (op_toNumber l) - 94)\<rparr> else d)"

definition with_return :: "byte list option \<Rightarrow> opdata \<Rightarrow> opdata" where
  "with_return r d = (case r of None \<Rightarrow> d | Some bs \<Rightarrow> d\<lparr>d_return := Val bs\<rparr>)"

text \<open>The new entry is allocated, appended to the list of the frame and pushed if it is a frame.\<close>

definition append_entry ::
    "nat \<Rightarrow> nat list \<Rightarrow> opdata \<times> bool \<times> byte list option \<Rightarrow> log_obj \<Rightarrow> evmdis_state \<Rightarrow> evmdis_state" where
  "append_entry frame os sw l s =
     (case sw of (d, is_frame, ret) \<Rightarrow>
        let n = length (dheap s);
            fr = Obj (with_return ret (odata (dheap s ! frame))) (Some (os @ [n]))
        in s\<lparr>dheap := (dheap s)[frame := fr] @ [Obj (with_len l d) (if is_frame then Some [] else None)],
             dstack := (if is_frame then dstack s @ [n] else dstack s)\<rparr>)"

definition record_op ::
    "host \<Rightarrow> log_obj \<Rightarrow> nat \<Rightarrow> evmdis_state \<Rightarrow> (evmdis_state, unit) outcome" where
  "record_op h l frame s =
     (case ops_of (dheap s ! frame) of
        None \<Rightarrow> Throw TypeError s
      | Some os \<Rightarrow>
          andThen (if os \<noteq> [] then note_results l (last os) s else Return () s)
            (\<lambda>_ s1. evalTo (dis_switch h l (new_info h l)) s1
               (\<lambda>sw. Return () (append_entry frame os sw l s1))))"

definition evmdis_step ::
    "host \<Rightarrow> log_obj \<Rightarrow> StateDB \<Rightarrow> evmdis_state \<Rightarrow> (evmdis_state, unit) outcome" where
  "evmdis_step h l db s =
     (let stk = dstack s in
      case getError l of
        Some (c # cs) \<Rightarrow>
          (if stk = [] then Throw TypeError s
           else Return () (put (last stk) (\<lambda>d. d\<lparr>d_error := Val (c # cs)\<rparr>) s))
      | _ \<Rightarrow>
          (if getDepth h l = int (length stk) then
             (if stk = [] then Throw TypeError s else record_op h l (last stk) s)
           else Return () (s\<lparr>dstack := take (nat (getDepth h l)) stk\<rparr>)))"

definition evmdis_fault ::
    "log_obj \<Rightarrow> StateDB option \<Rightarrow> evmdis_state \<Rightarrow> (evmdis_state, unit) outcome" where
  "evmdis_fault l db s = Return () s"

section \<open>result\<close>

text \<open>
  The result is serialised as a tree. A path through more objects than the store has runs through a
  cycle, which the serialisation rejects.
\<close>

datatype dnode = DNode opdata "dnode list option"

fun tree_of :: "nat \<Rightarrow> obj list \<Rightarrow> nat \<Rightarrow> dnode option" where
  "tree_of 0 H a = None"
| "tree_of (Suc n) H a =
     (case ops_of (H ! a) of
        None \<Rightarrow> Some (DNode (odata (H ! a)) None)
      | Some os \<Rightarrow>
          map_option (\<lambda>ts. DNode (odata (H ! a)) (Some ts)) (those (map (tree_of n H) os)))"

fun opt_json :: "string \<Rightarrow> ('a \<Rightarrow> jsval) \<Rightarrow> 'a option \<Rightarrow> (string \<times> jsval) list" where
  "opt_json k f None = []"
| "opt_json k f (Some v) = [(k, f v)]"

fun nullable_json :: "string \<Rightarrow> ('a \<Rightarrow> jsval) \<Rightarrow> 'a nullable \<Rightarrow> (string \<times> jsval) list" where
  "nullable_json k f Undef = []"
| "nullable_json k f Null = [(k, JNull)]"
| "nullable_json k f (Val v) = [(k, f v)]"

fun op_json :: "opval \<Rightarrow> jsval" where
  "op_json (OpNum n) = JNum (int n)"
| "op_json (OpStr t) = JStr t"

primrec node_json :: "dnode \<Rightarrow> jsval" where
  "node_json (DNode d os) =
     JObj (opt_json ''op'' op_json (d_op d) @ opt_json ''depth'' JNum (d_depth d) @
       opt_json ''result'' (\<lambda>rs. JArr (map JStr rs)) (d_result d) @ opt_json ''gas'' JNum (d_gas d) @
       opt_json ''to'' JStr (d_to d) @ opt_json ''value'' JStr (d_value d) @
       opt_json ''input'' JBuf (d_input d) @ nullable_json ''error'' JStr (d_error d) @
       nullable_json ''return'' JBuf (d_return d) @
       opt_json ''ops'' JArr (map_option (map node_json) os) @ opt_json ''pc'' JNum (d_pc d) @
       opt_json ''len'' JNum (d_len d))"

definition evmdis_result ::
    "ctx_obj \<Rightarrow> StateDB option \<Rightarrow> evmdis_state \<Rightarrow> (evmdis_state, jsval) outcome" where
  "evmdis_result c db s =
     (case dstack s of
        [] \<Rightarrow> Throw TypeError s
      | a # _ \<Rightarrow>
          (case ops_of (dheap s ! a) of
             None \<Rightarrow> Return JUndef s
           | Some os \<Rightarrow>
               (case those (map (tree_of (length (dheap s)) (dheap s)) os) of
                  None \<Rightarrow> Throw TypeError s
                | Some ts \<Rightarrow> Return (JArr (map node_json ts)) s)))"

definition evmdisTracer :: "host \<Rightarrow> evmdis_state tracer_obj" where
  "evmdisTracer h =
     \<lparr>obj_init = \<lparr>dheap = [Obj no_data (Some [])], dstack = [0]\<rparr>, obj_step = evmdis_step h,
      obj_fault = evmdis_fault, obj_result = evmdis_result\<rparr>"

end
