(* ===== verification/Evmdis_Tree.thy ===== *)
theory Evmdis_Tree
  imports Evmdis_Tracer
begin

text \<open>
  The store of \<open>evmdisTracer\<close> is a tree: the tracer's \<open>stack\<close> is the path from the root through the last
  entries. The detailed tracer, which writes through shared references, refines a tracer on trees
  that changes the tree along that path.
\<close>

section \<open>Trees in the store\<close>

text \<open>
  The store holds the tree \<open>t\<close> at an address, in the addresses \<open>fp\<close>.
\<close>

inductive rep :: "obj list \<Rightarrow> nat \<Rightarrow> dnode \<Rightarrow> nat list \<Rightarrow> bool"
  and reps :: "obj list \<Rightarrow> nat list \<Rightarrow> dnode list \<Rightarrow> nat list \<Rightarrow> bool" where
  rep_leaf: "H ! a = Obj d None \<Longrightarrow> a < length H \<Longrightarrow> rep H a (DNode d None) [a]"
| rep_node: "H ! a = Obj d (Some os) \<Longrightarrow> a < length H \<Longrightarrow> reps H os ts fp \<Longrightarrow>
    rep H a (DNode d (Some ts)) (a # fp)"
| reps_Nil: "reps H [] [] []"
| reps_Cons: "rep H a t f \<Longrightarrow> reps H as ts g \<Longrightarrow> reps H (a # as) (t # ts) (f @ g)"

inductive_cases rep_elim: "rep H a t fp"
inductive_cases reps_Nil_elim: "reps H [] ts fp"
inductive_cases reps_Cons_elim: "reps H (a # as) ts fp"

lemma reps_frame:
  "rep H a t fp \<Longrightarrow> (\<And>x. x \<in> set fp \<Longrightarrow> H' ! x = H ! x) \<Longrightarrow> length H \<le> length H' \<Longrightarrow> rep H' a t fp"
  "reps H as ts fp \<Longrightarrow> (\<And>x. x \<in> set fp \<Longrightarrow> H' ! x = H ! x) \<Longrightarrow> length H \<le> length H' \<Longrightarrow> reps H' as ts fp"
proof (induction rule: rep_reps.inducts)
  case (rep_leaf H a d)
  then show ?case by (auto intro: rep_reps.rep_leaf)
next
  case (rep_node H a d os ts fp)
  then show ?case by (intro rep_reps.rep_node) auto
next
  case (reps_Cons H a t f as ts g)
  then show ?case by (intro rep_reps.reps_Cons) auto
qed (rule rep_reps.reps_Nil)

lemma rep_bounds:
  "rep H a t fp \<Longrightarrow> set fp \<subseteq> {..<length H} \<and> a \<in> set fp"
  "reps H as ts fp \<Longrightarrow> set fp \<subseteq> {..<length H} \<and> set as \<subseteq> set fp"
  by (induction rule: rep_reps.inducts) auto

lemma reps_append:
  "reps H (as @ bs) ts fp \<longleftrightarrow>
   (\<exists>ts1 ts2 f g. ts = ts1 @ ts2 \<and> fp = f @ g \<and> reps H as ts1 f \<and> reps H bs ts2 g)"
proof (induction "as" arbitrary: ts fp)
  case Nil
  show ?case by (metis append_Nil reps_Nil reps_Nil_elim)
next
  case (Cons a "as")
  show ?case
  proof
    assume "reps H ((a # as) @ bs) ts fp"
    then obtain t ts' f g where "ts = t # ts'" "fp = f @ g" "rep H a t f" "reps H (as @ bs) ts' g"
      by (auto elim: reps_Cons_elim)
    with Cons.IH [of ts' g] show "\<exists>ts1 ts2 f g. ts = ts1 @ ts2 \<and> fp = f @ g \<and> reps H (a # as) ts1 f \<and> reps H bs ts2 g"
      by (metis append_Cons append_assoc reps_Cons)
  next
    assume "\<exists>ts1 ts2 f g. ts = ts1 @ ts2 \<and> fp = f @ g \<and> reps H (a # as) ts1 f \<and> reps H bs ts2 g"
    then obtain ts1 ts2 f g where 1: "ts = ts1 @ ts2" "fp = f @ g" "reps H (a # as) ts1 f" "reps H bs ts2 g"
      by blast
    from 1(3) obtain t ts' f1 f2 where 2: "ts1 = t # ts'" "f = f1 @ f2" "rep H a t f1" "reps H as ts' f2"
      by (auto elim: reps_Cons_elim)
    have "reps H (as @ bs) (ts' @ ts2) (f2 @ g)" using Cons.IH 1(4) 2(4) by blast
    from reps_Cons [OF 2(3) this] 1 2 show "reps H ((a # as) @ bs) ts fp" by simp
  qed
qed

lemma reps_single: "reps H [a] ts fp \<longleftrightarrow> (\<exists>t. ts = [t] \<and> rep H a t fp)"
proof
  assume "reps H [a] ts fp"
  then show "\<exists>t. ts = [t] \<and> rep H a t fp" by (auto elim!: reps_Cons_elim reps_Nil_elim)
next
  assume "\<exists>t. ts = [t] \<and> rep H a t fp"
  then show "reps H [a] ts fp" using reps_Cons [OF _ reps_Nil] by fastforce
qed

lemma reps_snoc: "reps H os ts f \<Longrightarrow> rep H b t g \<Longrightarrow> reps H (os @ [b]) (ts @ [t]) (f @ g)"
  unfolding reps_append reps_single by blast

lemma reps_snoc_elim:
  assumes "reps H (os @ [b]) ts fp"
  obtains ts' t f g where "ts = ts' @ [t]" "fp = f @ g" "reps H os ts' f" "rep H b t g"
  using assms unfolding reps_append reps_single by blast

text \<open>Enough fuel for the unfolding is the number of objects.\<close>

lemma tree_of_rep:
  "rep H a t fp \<Longrightarrow> length fp \<le> n \<Longrightarrow> tree_of n H a = Some t"
  "reps H as ts fp \<Longrightarrow> length fp \<le> n \<Longrightarrow> those (map (tree_of n H) as) = Some ts"
proof (induction arbitrary: n and n rule: rep_reps.inducts)
  case (rep_leaf H a d)
  then show ?case by (cases n) simp_all
next
  case (rep_node H a d os ts fp)
  then show ?case by (cases n) simp_all
qed simp_all

section \<open>The path of the stack\<close>

inductive spine :: "obj list \<Rightarrow> nat list \<Rightarrow> dnode \<Rightarrow> nat list \<Rightarrow> bool" where
  spine_top: "H ! a = Obj d (Some os) \<Longrightarrow> a < length H \<Longrightarrow> reps H os ts fp \<Longrightarrow>
    spine H [a] (DNode d (Some ts)) (a # fp)"
| spine_below: "H ! a = Obj d (Some (os @ [b])) \<Longrightarrow> a < length H \<Longrightarrow> reps H os ts f \<Longrightarrow>
    spine H (b # stk) t g \<Longrightarrow> spine H (a # b # stk) (DNode d (Some (ts @ [t]))) (a # f @ g)"

inductive_cases spine_top_elim: "spine H [a] t fp"

lemma spine_rep: "spine H stk t fp \<Longrightarrow> rep H (hd stk) t fp"
proof (induction rule: spine.induct)
  case (spine_top H a d os ts fp)
  then show ?case by (simp add: rep_node)
next
  case (spine_below H a d os b ts f stk t g)
  then have "reps H (os @ [b]) (ts @ [t]) (f @ g)" by (simp add: reps_snoc)
  with spine_below show ?case by (simp add: rep_node)
qed

lemma spine_nonempty: "spine H stk t fp \<Longrightarrow> stk \<noteq> []"
  by (induction rule: spine.induct) simp_all

lemma spine_take: "spine H stk t fp \<Longrightarrow> 0 < n \<Longrightarrow> spine H (take n stk) t fp"
proof (induction arbitrary: n rule: spine.induct)
  case (spine_top H a d os ts fp)
  then show ?case by (cases n) (auto intro: spine.spine_top)
next
  case (spine_below H a d os b ts f stk t g)
  then obtain m where n: "n = Suc m" by (cases n) auto
  show ?case
  proof (cases m)
    case 0
    have "rep H b t g" using spine_rep [OF spine_below.hyps(4)] by simp
    then have "reps H (os @ [b]) (ts @ [t]) (f @ g)" using spine_below.hyps(3) by (simp add: reps_snoc)
    from spine_top [OF spine_below.hyps(1,2) this] show ?thesis by (simp add: n 0)
  next
    case (Suc k)
    with spine_below.IH [of m] have "spine H (b # take k stk) t g" by simp
    from spine.spine_below [OF spine_below.hyps(1-3) this] show ?thesis by (simp add: n Suc)
  qed
qed

section \<open>The tracer on trees\<close>

fun at_spine :: "nat \<Rightarrow> dnode \<Rightarrow> dnode" where
  "at_spine (Suc k) (DNode d (Some ts)) = at_spine k (last ts)"
| "at_spine _ t = t"

fun on_spine :: "nat \<Rightarrow> (dnode \<Rightarrow> dnode) \<Rightarrow> dnode \<Rightarrow> dnode" where
  "on_spine 0 f t = f t"
| "on_spine (Suc k) f (DNode d (Some ts)) = DNode d (Some (butlast ts @ [on_spine k f (last ts)]))"
| "on_spine (Suc k) f t = t"

text \<open>
  The path can be cut at its end: a change of the last object and of what is below it, or an
  extension of the path, changes the tree at that place only.
\<close>

lemma spine_split:
  assumes "spine H stk t fp"
  shows "\<exists>f t0 g. fp = f @ g \<and> spine H [last stk] t0 g \<and> at_spine (length stk - 1) t = t0 \<and>
    (\<forall>H' u ext new. (\<forall>x \<in> set f. H' ! x = H ! x) \<and> length H \<le> length H' \<and>
       spine H' (last stk # ext) u (g @ new) \<longrightarrow>
       spine H' (stk @ ext) (on_spine (length stk - 1) (\<lambda>_. u) t) (fp @ new))"
  using assms
proof (induction rule: spine.induct)
  case (spine_top H a d os ts fp)
  have "spine H [a] (DNode d (Some ts)) (a # fp)" by (rule spine.spine_top [OF spine_top])
  then show ?case by (intro exI [of _ "[]"]) auto
next
  case (spine_below H a d os b ts f stk t g)
  then obtain f1 t0 g1 where IH: "g = f1 @ g1" "spine H [last (b # stk)] t0 g1"
    "at_spine (length (b # stk) - 1) t = t0"
    and ext: "\<And>H' u ext new. (\<forall>x \<in> set f1. H' ! x = H ! x) \<Longrightarrow> length H \<le> length H' \<Longrightarrow>
       spine H' (last (b # stk) # ext) u (g1 @ new) \<Longrightarrow>
       spine H' ((b # stk) @ ext) (on_spine (length (b # stk) - 1) (\<lambda>_. u) t) (g @ new)"
    by blast
  have "spine H' ((a # b # stk) @ ext) (on_spine (length (a # b # stk) - 1) (\<lambda>_. u) (DNode d (Some (ts @ [t]))))
      ((a # f @ g) @ new)"
    if "\<forall>x \<in> set (a # f @ f1). H' ! x = H ! x" "length H \<le> length H'"
      "spine H' (last (a # b # stk) # ext) u (g1 @ new)" for H' u ext new
  proof -
    have "spine H' (b # stk @ ext) (on_spine (length stk) (\<lambda>_. u) t) (g @ new)"
      using ext [of H' ext u new] that by simp
    moreover have "reps H' os ts f" by (rule reps_frame(2) [OF spine_below.hyps(3)]) (use that in auto)
    moreover have "H' ! a = Obj d (Some (os @ [b]))" "a < length H'" using that spine_below.hyps by auto
    ultimately show ?thesis using spine.spine_below by fastforce
  qed
  with IH show ?case by (intro exI [of _ "a # f @ f1"] exI [of _ t0] exI [of _ g1]) auto
qed

text \<open>The steps on trees.\<close>

fun set_error :: "string \<Rightarrow> dnode \<Rightarrow> dnode" where
  "set_error e (DNode d os) = DNode (d\<lparr>d_error := Val e\<rparr>) os"

fun add_results :: "log_obj \<Rightarrow> dnode \<Rightarrow> dnode" where
  "add_results l (DNode d os) =
     DNode (d\<lparr>d_result := map_option (\<lambda>rs. rs @ pushed_values l (pushes (d_op d))) (d_result d)\<rparr>) os"

definition results_to_last :: "log_obj \<Rightarrow> dnode list \<Rightarrow> dnode list" where
  "results_to_last l ts = (if ts = [] then [] else butlast ts @ [add_results l (last ts)])"

fun add_entry :: "log_obj \<Rightarrow> opdata \<times> bool \<times> byte list option \<Rightarrow> dnode \<Rightarrow> dnode" where
  "add_entry l (d, fr, ret) (DNode d' (Some ts)) =
     DNode (with_return ret d')
       (Some (results_to_last l ts @ [DNode (with_len l d) (if fr then Some [] else None)]))"
| "add_entry l sw t = t"

text \<open>
  A tree and the length of the open path. An instruction at the depth of the path is recorded in the
  innermost open entry, an instruction at another depth only cuts the path.
\<close>

definition tree_step :: "host \<Rightarrow> log_obj \<Rightarrow> dnode \<times> nat \<Rightarrow> js_error + dnode \<times> nat" where
  "tree_step h l tn =
     (case tn of (t, n) \<Rightarrow>
        case getError l of
          Some (c # cs) \<Rightarrow> Inr (on_spine (n - 1) (set_error (c # cs)) t, n)
        | _ \<Rightarrow>
            (if getDepth h l = int n then
               map_sum id (\<lambda>(d, fr, ret). (on_spine (n - 1) (add_entry l (d, fr, ret)) t, if fr then Suc n else n))
                 (dis_switch h l (new_info h l))
             else Inr (t, min n (nat (getDepth h l)))))"

text \<open>The tree in the store, with the entries that a step relies on.\<close>

definition holds_tree :: "evmdis_state \<Rightarrow> dnode \<times> nat \<Rightarrow> bool" where
  "holds_tree s tn =
     ((\<exists>fp. spine (dheap s) (dstack s) (fst tn) fp \<and> distinct fp) \<and> snd tn = length (dstack s) \<and>
      hd (dstack s) = 0 \<and>
      (\<forall>a < length (dheap s). a \<noteq> 0 \<longrightarrow> d_result (odata (dheap s ! a)) \<noteq> None))"

lemma on_spine_const: "on_spine k f t = on_spine k (\<lambda>_. f (at_spine k t)) t"
  by (induction k f t rule: on_spine.induct) simp_all

lemma holds_init: "holds_tree (obj_init (evmdisTracer h)) (DNode no_data (Some []), 1)"
proof -
  have "spine [Obj no_data (Some [])] [0] (DNode no_data (Some [])) [0]"
    by (rule spine_top [of _ _ _ "[]"]) (simp_all add: reps_Nil)
  then show ?thesis by (auto simp: holds_tree_def evmdisTracer_def intro!: exI [of _ "[0]"])
qed

text \<open>Writing the object at the end of the path.\<close>

lemma put_last:
  assumes sp: "spine H stk t fp" and dist: "distinct fp"
    and new: "H' = H[last stk := Obj (f (odata (H ! last stk))) (ops_of (H ! last stk))]"
    and g: "\<And>d os. g (DNode d os) = DNode (f d) os"
  shows "spine H' stk (on_spine (length stk - 1) g t) fp"
proof -
  obtain f1 t0 g1 where s: "fp = f1 @ g1" "spine H [last stk] t0 g1" "at_spine (length stk - 1) t = t0"
    and ext: "\<And>H' u. (\<forall>x \<in> set f1. H' ! x = H ! x) \<Longrightarrow> length H \<le> length H' \<Longrightarrow>
      spine H' [last stk] u g1 \<Longrightarrow> spine H' stk (on_spine (length stk - 1) (\<lambda>_. u) t) fp"
    using spine_split [OF sp] by (metis append_Nil2)
  obtain d os ts f2 where top: "t0 = DNode d (Some ts)" "g1 = last stk # f2" "H ! last stk = Obj d (Some os)"
    "last stk < length H" "reps H os ts f2"
    using s(2) by (auto elim: spine_top_elim)
  have notin: "last stk \<notin> set f1" "last stk \<notin> set f2" using dist s(1) top(2) by auto
  have "reps H' os ts f2"
    by (rule reps_frame(2) [OF top(5)]) (simp_all add: new nth_update_notin [OF notin(2)])
  then have "spine H' [last stk] (DNode (f d) (Some ts)) g1"
    unfolding top(2) by (intro spine_top) (use top(3,4) in \<open>simp_all add: new\<close>)
  then have "spine H' stk (on_spine (length stk - 1) (\<lambda>_. DNode (f d) (Some ts)) t) fp"
    by (intro ext) (simp_all add: new nth_update_notin [OF notin(1)])
  then show ?thesis using s(3) by (subst on_spine_const) (simp add: top(1) g)
qed

text \<open>Recording an instruction: the values go to the last entry, the new entry to the end.\<close>

lemma reps_results:
  assumes "reps H os ts fp" "distinct fp" "os \<noteq> []" and that: "d = odata (H ! last os)"
  shows "reps (H[last os := Obj (d\<lparr>d_result := map_option (\<lambda>rs. rs @ pushed_values l (pushes (d_op d))) (d_result d)\<rparr>)
      (ops_of (H ! last os))]) os (results_to_last l ts) fp" (is "reps ?H _ _ _")
proof -
  obtain os' b where os: "os = os' @ [b]" using assms(3) by (metis rev_exhaust)
  with assms(1) obtain ts' t f g where r: "ts = ts' @ [t]" "fp = f @ g" "reps H os' ts' f" "rep H b t g"
    by (auto elim: reps_snoc_elim)
  have b: "b \<in> set g" "b < length H" using rep_bounds(1) [OF r(4)] by auto
  have notin: "b \<notin> set f" using assms(2) r(2) b(1) by auto
  have 1: "reps ?H os' ts' f"
    by (rule reps_frame(2) [OF r(3)]) (simp_all add: os nth_update_notin [OF notin])
  have 2: "rep ?H b (add_results l t) g"
    using r(4)
  proof (cases rule: rep.cases)
    case (rep_leaf d')
    then show ?thesis using b that by (auto simp: os intro!: rep_reps.rep_leaf)
  next
    case (rep_node d' os'' ts'' f'')
    have "b \<notin> set f''" using assms(2) r(2) rep_node(2) by auto
    then have "reps ?H os'' ts'' f''"
      by (intro reps_frame(2) [OF rep_node(5)]) (simp_all add: os nth_update_notin)
    then show ?thesis using b that rep_node by (auto simp: os intro!: rep_reps.rep_node)
  qed
  from reps_snoc [OF 1 2] show ?thesis by (simp add: os r results_to_last_def)
qed

text \<open>The store after \<open>note_results\<close>.\<close>

definition results_heap :: "log_obj \<Rightarrow> nat list \<Rightarrow> obj list \<Rightarrow> obj list" where
  "results_heap l os H =
     (if os = [] then H
      else let d = odata (H ! last os) in
        H[last os := Obj (d\<lparr>d_result := map_option (\<lambda>rs. rs @ pushed_values l (pushes (d_op d))) (d_result d)\<rparr>)
            (ops_of (H ! last os))])"

lemma length_results_heap [simp]: "length (results_heap l os H) = length H"
  by (simp add: results_heap_def Let_def)

lemma results_heap_other: "os = [] \<or> x \<noteq> last os \<Longrightarrow> results_heap l os H ! x = H ! x"
  by (auto simp: results_heap_def Let_def)

lemma reps_results_heap:
  assumes "reps H os ts fp" "distinct fp"
  shows "reps (results_heap l os H) os (results_to_last l ts) fp"
proof (cases "os = []")
  case True
  then have "ts = []" using assms(1) by (auto elim: reps_Nil_elim)
  with True assms show ?thesis by (simp add: results_heap_def results_to_last_def)
next
  case False
  with reps_results [OF assms False refl, of l] show ?thesis by (simp add: results_heap_def Let_def)
qed

lemma record_last:
  assumes sp: "spine H stk t fp" and dist: "distinct fp" and os: "ops_of (H ! last stk) = Some os"
    and n: "n = length H"
    and H': "H' = (results_heap l os H)
      [last stk := Obj (with_return ret (odata (H ! last stk))) (Some (os @ [n]))] @
      [Obj (with_len l d) (if fr then Some [] else None)]"
  shows "spine H' (if fr then stk @ [n] else stk)
    (on_spine (length stk - 1) (add_entry l (d, fr, ret)) t) (fp @ [n])"
proof -
  obtain f1 t0 g1 where s: "fp = f1 @ g1" "spine H [last stk] t0 g1" "at_spine (length stk - 1) t = t0"
    and ext: "\<And>H' u ext. (\<forall>x \<in> set f1. H' ! x = H ! x) \<Longrightarrow> length H \<le> length H' \<Longrightarrow>
      spine H' (last stk # ext) u (g1 @ [n]) \<Longrightarrow>
      spine H' (stk @ ext) (on_spine (length stk - 1) (\<lambda>_. u) t) (fp @ [n])"
    using spine_split [OF sp] by metis
  obtain d0 ts f2 where top: "t0 = DNode d0 (Some ts)" "g1 = last stk # f2" "H ! last stk = Obj d0 (Some os)"
    "last stk < length H" "reps H os ts f2"
    using s(2) os by (auto elim!: spine_top_elim)
  let ?a = "last stk" and ?K = "results_heap l os H" and ?ts = "results_to_last l ts"
  let ?new = "DNode (with_len l d) (if fr then Some [] else None)"
  have notin: "?a \<notin> set f1" "?a \<notin> set f2" "distinct f2" and sub: "set os \<subseteq> set f2"
    using dist s(1) top(2) rep_bounds(2) [OF top(5)] by auto
  have f1b: "x < length H" if "x \<in> set f1" for x
    using that s(1) rep_bounds(1) [OF spine_rep [OF sp]] by auto
  have f2b: "x < length H" if "x \<in> set f2" for x using that rep_bounds(2) [OF top(5)] by auto
  have disj: "os = [] \<or> x \<noteq> last os" if "x \<in> set f1 \<or> x = ?a" for x
    using that dist s(1) top(2) sub notin(2) by (metis (no_types, lifting) IntI distinct_append empty_iff
        last_in_set list.set_intros(2) subsetD)
  have other: "H' ! x = H ! x" if "x \<in> set f1" for x
    using that f1b [OF that] disj [of x]
    by (simp add: H' nth_append nth_update_notin [OF notin(1) that] results_heap_other)
  have reps: "reps H' os ?ts f2"
    by (rule reps_frame(2) [OF reps_results_heap [OF top(5) notin(3), of l]])
      (use f2b notin(2) in \<open>auto simp: H' nth_append nth_update_notin [OF notin(2)]\<close>)
  have a: "H' ! ?a = Obj (with_return ret d0) (Some (os @ [n]))" "?a < length H'"
    using top(3,4) by (simp_all add: H' nth_append)
  have nn: "H' ! n = Obj (with_len l d) (if fr then Some [] else None)" "n < length H'"
    by (simp_all add: H' n nth_append)
  have "spine H' (?a # (if fr then [n] else [])) (DNode (with_return ret d0) (Some (?ts @ [?new]))) (g1 @ [n])"
  proof (cases fr)
    case True
    have "spine H' [n] ?new [n]" using True nn spine_top [OF _ nn(2) reps_Nil] by simp
    from spine_below [OF a reps this] True show ?thesis by (simp add: top(2))
  next
    case False
    have "rep H' n ?new [n]" using False nn by (simp add: rep_leaf)
    from spine_top [OF a reps_snoc [OF reps this]] False show ?thesis by (simp add: top(2))
  qed
  from ext [OF _ _ this] other
  have "spine H' (if fr then stk @ [n] else stk)
      (on_spine (length stk - 1) (\<lambda>_. DNode (with_return ret d0) (Some (?ts @ [?new]))) t) (fp @ [n])"
    by (simp add: H' split: if_splits)
  then show ?thesis using s(3) by (subst on_spine_const) (simp add: top(1))
qed

section \<open>Refinement\<close>

definition entries_ok :: "obj list \<Rightarrow> bool" where
  "entries_ok H = (\<forall>a < length H. a \<noteq> 0 \<longrightarrow> d_result (odata (H ! a)) \<noteq> None)"

lemma holds_treeI:
  "spine (dheap s) (dstack s) t fp \<Longrightarrow> distinct fp \<Longrightarrow> n = length (dstack s) \<Longrightarrow> hd (dstack s) = 0 \<Longrightarrow>
   entries_ok (dheap s) \<Longrightarrow> holds_tree s (t, n)"
  by (auto simp: holds_tree_def entries_ok_def)

lemma holds_treeE:
  assumes "holds_tree s (t, n)"
  obtains fp where "spine (dheap s) (dstack s) t fp" "distinct fp" "n = length (dstack s)" "hd (dstack s) = 0"
    "entries_ok (dheap s)" "dstack s \<noteq> []"
  using assms spine_nonempty by (auto simp: holds_tree_def entries_ok_def)

lemma entries_ok_update:
  assumes "entries_ok H" "d_result d = None \<Longrightarrow> a = 0 \<or> d_result (odata (H ! a)) = None"
  shows "entries_ok (H[a := Obj d os])"
proof (cases "a < length H")
  case True
  then show ?thesis using assms by (cases "d_result d") (auto simp: entries_ok_def nth_list_update)
qed (use assms in \<open>simp add: list_update_beyond\<close>)

lemma entries_ok_snoc: "entries_ok H \<Longrightarrow> d_result d \<noteq> None \<Longrightarrow> entries_ok (H @ [Obj d os])"
  by (auto simp: entries_ok_def nth_append less_Suc_eq)

lemma entries_ok_results: "entries_ok H \<Longrightarrow> entries_ok (results_heap l os H)"
  unfolding results_heap_def Let_def by (auto intro: entries_ok_update)

lemma note_results_heap:
  assumes "d_result (odata (dheap s ! last os)) \<noteq> None" "os \<noteq> []"
  shows "note_results l (last os) s = Return () (s\<lparr>dheap := results_heap l os (dheap s)\<rparr>)"
  using assms by (auto simp: note_results_def put_def results_heap_def Let_def)

lemma switch_result: "dis_switch h l d = Inr (d', fr, ret) \<Longrightarrow> d_result d' = d_result d"
  by (auto simp: dis_switch_def Let_def map_sum_Inr_iff split: if_splits)

lemma with_simps [simp]:
  "d_result (with_len l d) = d_result d" "d_result (with_return ret d) = d_result d"
  by (simp_all add: with_len_def with_return_def split: option.split)

lemma record_refines:
  assumes hold: "holds_tree s (t, n)" and sw: "dis_switch h l (new_info h l) = Inr (d, fr, ret)"
  shows "\<exists>s'. record_op h l (last (dstack s)) s = Return () s' \<and>
    holds_tree s' (on_spine (n - 1) (add_entry l (d, fr, ret)) t, if fr then Suc n else n)"
proof -
  let ?H = "dheap s" and ?stk = "dstack s"
  obtain fp where sp: "spine ?H ?stk t fp" "distinct fp" "n = length ?stk" "hd ?stk = 0" "entries_ok ?H" "?stk \<noteq> []"
    using hold by (rule holds_treeE)
  obtain f1 t0 g1 where s: "fp = f1 @ g1" "spine ?H [last ?stk] t0 g1"
    using spine_split [OF sp(1)] by blast
  then obtain os where os: "ops_of (?H ! last ?stk) = Some os" and osub: "set os \<subseteq> set (tl g1)"
    and a: "last ?stk < length ?H" and g1: "g1 = last ?stk # tl g1"
    by (auto elim!: spine_top_elim dest!: rep_bounds(2))
  have res: "d_result (odata (?H ! last os)) \<noteq> None" if "os \<noteq> []"
  proof -
    have l: "last os \<in> set (tl g1)" using osub that by auto
    have "last os < length ?H" using rep_bounds(1) [OF spine_rep [OF s(2)]] l g1 by (metis last_in_set lessThan_iff list.set_intros(2) subsetD)
    moreover have "last os \<noteq> 0"
    proof
      assume z: "last os = 0"
      have "fp = 0 # tl fp" using spine_rep [OF sp(1)] sp(4) by (auto elim: rep_elim)
      then have "distinct (f1 @ last ?stk # tl g1)" "f1 @ last ?stk # tl g1 = 0 # tl fp"
        using s(1) g1 sp(2) by simp_all
      with l z show False by (cases f1) auto
    qed
    ultimately show ?thesis using sp(5) by (simp add: entries_ok_def)
  qed
  have distinct_ends: "os = [] \<or> last ?stk \<noteq> last os"
    using osub g1 s(1) sp(2) by (metis distinct.simps(2) distinct_append last_in_set subsetD)
  let ?K = "results_heap l os ?H" and ?n = "length ?H"
  let ?s' = "append_entry (last ?stk) os (d, fr, ret) l (s\<lparr>dheap := ?K\<rparr>)"
  have heap: "dheap ?s' = ?K[last ?stk := Obj (with_return ret (odata (?H ! last ?stk))) (Some (os @ [?n]))] @
      [Obj (with_len l d) (if fr then Some [] else None)]"
    and stack: "dstack ?s' = (if fr then ?stk @ [?n] else ?stk)"
    using results_heap_other [OF distinct_ends] by (simp_all add: append_entry_def Let_def)
  have "record_op h l (last ?stk) s = Return () ?s'"
    using os sw note_results_heap [OF res, of l] by (cases "os = []") (simp_all add: record_op_def results_heap_def)
  moreover have "holds_tree ?s' (on_spine (n - 1) (add_entry l (d, fr, ret)) t, if fr then Suc n else n)"
  proof (rule holds_treeI)
    show "spine (dheap ?s') (dstack ?s') (on_spine (n - 1) (add_entry l (d, fr, ret)) t) (fp @ [?n])"
      unfolding stack sp(3) by (rule record_last [OF sp(1,2) os refl heap])
    show "distinct (fp @ [?n])" using sp(2) rep_bounds(1) [OF spine_rep [OF sp(1)]] by auto
    show "(if fr then Suc n else n) = length (dstack ?s')" "hd (dstack ?s') = 0"
      using sp(3,4,6) by (simp_all add: stack)
    have "d_result d \<noteq> None" using switch_result [OF sw] by (simp add: new_info_def)
    moreover have "d_result (odata (?H ! last ?stk)) = None \<Longrightarrow> last ?stk = 0"
      using sp(5) a by (auto simp: entries_ok_def)
    ultimately show "entries_ok (dheap ?s')"
      unfolding heap by (intro entries_ok_snoc entries_ok_update entries_ok_results sp(5)) auto
  qed
  ultimately show ?thesis by blast
qed

text \<open>One step of the detailed tracer is one step on trees.\<close>

lemma evmdis_step_refines:
  assumes "holds_tree s (t, n)" "1 \<le> getDepth h l" "tree_step h l (t, n) = Inr tn"
  shows "\<exists>s'. evmdis_step h l db s = Return () s' \<and> holds_tree s' tn"
proof -
  obtain fp where sp: "spine (dheap s) (dstack s) t fp" "distinct fp" "n = length (dstack s)" "hd (dstack s) = 0"
    "entries_ok (dheap s)" "dstack s \<noteq> []"
    using assms(1) by (rule holds_treeE)
  consider c cs where "getError l = Some (c # cs)"
    | "getError l = None \<or> getError l = Some []" "getDepth h l = int n"
    | "getError l = None \<or> getError l = Some []" "getDepth h l \<noteq> int n"
    by (metis list.exhaust option.exhaust)
  then show ?thesis
  proof cases
    case 1
    let ?s' = "put (last (dstack s)) (\<lambda>d. d\<lparr>d_error := Val (c # cs)\<rparr>) s"
    have "spine (dheap ?s') (dstack ?s') (on_spine (n - 1) (set_error (c # cs)) t) fp"
      using put_last [OF sp(1,2) refl, of "set_error (c # cs)" "\<lambda>d. d\<lparr>d_error := Val (c # cs)\<rparr>"] sp(3)
      by (simp add: put_def)
    moreover have "entries_ok (dheap ?s')" unfolding put_def by (auto intro: entries_ok_update [OF sp(5)])
    ultimately have "holds_tree ?s' tn"
      using 1 assms(3) sp by (auto intro!: holds_treeI simp: tree_step_def put_def)
    then show ?thesis using 1 sp(6) by (simp add: evmdis_step_def)
  next
    case 2
    then obtain d fr ret where sw: "dis_switch h l (new_info h l) = Inr (d, fr, ret)"
      and tn: "tn = (on_spine (n - 1) (add_entry l (d, fr, ret)) t, if fr then Suc n else n)"
      using assms(3) by (auto simp: tree_step_def map_sum_Inr_iff)
    show ?thesis using 2 sp(3,6) record_refines [OF assms(1) sw] tn by (auto simp: evmdis_step_def)
  next
    case 3
    let ?s' = "s\<lparr>dstack := take (nat (getDepth h l)) (dstack s)\<rparr>"
    have "holds_tree ?s' (t, min n (nat (getDepth h l)))"
      using spine_take [OF sp(1), of "nat (getDepth h l)"] assms(2) sp
      by (intro holds_treeI [of _ _ fp]) (simp_all add: hd_take min.commute)
    then show ?thesis using 3 assms(3) sp(3) by (auto simp: evmdis_step_def tree_step_def)
  qed
qed

definition dis_ok :: "host \<Rightarrow> log_obj \<Rightarrow> bool" where
  "dis_ok h l = (duk_numbers h \<and> evm_log l \<and> 1 \<le> getDepth h l)"

lemma switch_total:
  assumes "dis_ok h l"
  shows "\<exists>sw. dis_switch h l d = Inr sw"
proof -
  have duk: "duk_numbers h" and ev: "evm_log l" using assms by (simp_all add: dis_ok_def)
  have "\<exists>bs. memory_slice h l (Some (valueOf (peek l i)))
      (Some (js_add (valueOf (peek l i)) (valueOf (peek l k)))) = Inr bs" for i k
    by (rule memory_slice_valueOf [OF duk ev]) (use peek_nonneg [OF ev, of k] in \<open>simp add: valueOf_def\<close>)
  then obtain bs where "memory_slice h l (Some (valueOf (peek l i)))
      (Some (js_add (valueOf (peek l i)) (valueOf (peek l k)))) = Inr (bs i k)" for i k
    by metis
  moreover obtain bs0 where "memory_slice h l (Some 0) (Some 0) = Inr bs0"
    using memory_slice_no_panic [OF duk, of 0 0] by auto
  ultimately have "\<not> isl (dis_switch h l d)" by (simp add: dis_switch_def Let_def)
  then show ?thesis by (metis sum.collapse(2))
qed

lemma tree_step_total: "dis_ok h l \<Longrightarrow> \<exists>tn'. tree_step h l tn = Inr tn'"
  using switch_total [of h l "new_info h l"]
  by (cases tn) (auto simp: tree_step_def split: option.split list.split)

fun tree_run :: "host \<Rightarrow> log_obj list \<Rightarrow> dnode \<times> nat \<Rightarrow> js_error + dnode \<times> nat" where
  "tree_run h [] tn = Inr tn"
| "tree_run h (l # ls) tn = (case tree_step h l tn of Inl e \<Rightarrow> Inl e | Inr tn' \<Rightarrow> tree_run h ls tn')"

lemma tree_run_append:
  "tree_run h (ls @ ks) tn = (case tree_run h ls tn of Inl e \<Rightarrow> Inl e | Inr tn' \<Rightarrow> tree_run h ks tn')"
  by (induction ls arbitrary: tn) (simp_all split: sum.split)

lemma evmdis_run_refines:
  "list_all (\<lambda>(l, d). dis_ok h l) ls \<Longrightarrow> holds_tree s tn \<Longrightarrow>
   \<exists>s' tn'. run_steps (evmdis_step h) ls s = Return () s' \<and> tree_run h (map fst ls) tn = Inr tn' \<and>
     holds_tree s' tn'"
proof (induction ls arbitrary: s tn)
  case (Cons p ls)
  obtain l d t n where p: "p = (l, d)" "tn = (t, n)" by (cases p; cases tn)
  have ok: "dis_ok h l" "1 \<le> getDepth h l" using Cons.prems(1) p by (simp_all add: dis_ok_def)
  obtain tn1 where tn1: "tree_step h l (t, n) = Inr tn1" using tree_step_total [OF ok(1)] by blast
  obtain s1 where "evmdis_step h l d s = Return () s1" "holds_tree s1 tn1"
    using evmdis_step_refines [OF _ ok(2) tn1, of s d] Cons.prems(2) p by auto
  with Cons.IH [of s1 tn1] Cons.prems(1) p tn1 show ?case by simp
qed simp

interpretation evmdis_safe: passive_tracer "evmdisTracer h" "\<lambda>s. \<exists>tn. holds_tree s tn" "dis_ok h" for h
proof unfold_locales
  show "\<exists>tn. holds_tree (obj_init (evmdisTracer h)) tn" using holds_init by blast
next
  fix s l d
  assume "\<exists>tn. holds_tree s tn" and ok: "dis_ok h l"
  then obtain t n where tn: "holds_tree s (t, n)" by (metis surj_pair)
  obtain tn' where "tree_step h l (t, n) = Inr tn'" using tree_step_total [OF ok] by blast
  then obtain s' where "evmdis_step h l d s = Return () s'" "holds_tree s' tn'"
    using evmdis_step_refines [OF tn, of h l tn' d] ok by (auto simp: dis_ok_def)
  then show "\<exists>s'. obj_step (evmdisTracer h) l d s = Return () s' \<and> (\<exists>tn. holds_tree s' tn)"
    unfolding evmdisTracer_def by (auto simp del: split_paired_Ex)
qed (auto simp: evmdisTracer_def evmdis_fault_def)

text \<open>The entries of the root are what the result prints.\<close>

fun root_entries :: "dnode \<times> nat \<Rightarrow> dnode list" where
  "root_entries (DNode d (Some ts), n) = ts"
| "root_entries (DNode d None, n) = []"

lemma result_of_tree:
  assumes "holds_tree s tn"
  shows "evmdis_result c db s = Return (JArr (map node_json (root_entries tn))) s"
proof -
  obtain t n where tn: "tn = (t, n)" by (cases tn)
  obtain fp where sp: "spine (dheap s) (dstack s) t fp" "distinct fp" "dstack s \<noteq> []"
    using assms unfolding tn by (rule holds_treeE)
  let ?H = "dheap s"
  from sp(3) obtain a stk where stk: "dstack s = a # stk" by (cases "dstack s") auto
  obtain d os ts f where r: "t = DNode d (Some ts)" "?H ! a = Obj d (Some os)" "reps ?H os ts f" "fp = a # f"
    using spine_take [OF sp(1), of 1] stk by (auto elim: spine_top_elim)
  have "set fp \<subseteq> {..<length ?H}" using rep_bounds(1) [OF spine_rep [OF sp(1)]] by simp
  then have "length fp \<le> length ?H"
    using sp(2) by (metis card_lessThan card_mono distinct_card finite_lessThan)
  then have "those (map (tree_of (length ?H) ?H) os) = Some ts"
    using tree_of_rep(2) [OF r(3)] r(4) by simp
  then show ?thesis using r stk tn by (simp add: evmdis_result_def)
qed

lemma evmdis_captures:
  assumes "list_all (\<lambda>ev. \<not> is_stop ev) evs" "list_all (\<lambda>(l, d). dis_ok h l) (state_logs evs)"
  shows "\<exists>tn. tree_run h (map fst (state_logs evs)) (DNode no_data (Some []), 1) = Inr tn \<and>
    GetResult (evmdisTracer h) db (captures (evmdisTracer h) evs (New (evmdisTracer h))) =
      (Some (JArr (map node_json (root_entries tn))), None)"
proof -
  let ?T = "evmdisTracer h"
  obtain s' tn where run: "run_steps (evmdis_step h) (state_logs evs) (obj_init ?T) = Return () s'"
    and tn: "tree_run h (map fst (state_logs evs)) (DNode no_data (Some []), 1) = Inr tn" "holds_tree s' tn"
    using evmdis_run_refines [OF assms(2) holds_init] by blast
  have "tracerObject (captures ?T evs (New ?T)) = s' \<and> terr (captures ?T evs (New ?T)) = None \<and>
      panicked (captures ?T evs (New ?T)) = None"
    by (rule captures_run_steps [OF evmdis_safe.fault_id assms(1)])
      (use run in \<open>simp_all add: New_def evmdisTracer_def\<close>)
  then show ?thesis using tn result_of_tree [OF tn(2)] by (simp add: GetResult_def evmdisTracer_def)
qed

text \<open>C2: For every trace that nobody stopped, with depths from 1 and stack items that are not negative,
  \<open>evmdisTracer\<close> neither throws nor panics, its store of shared objects has no cycle, and the report
  is the printed form of the tree that the steps on trees build.\<close>

theorem evmdis_refines_trees:
  assumes "list_all (\<lambda>ev. \<not> is_stop ev) evs" "list_all (\<lambda>(l, d). dis_ok h l) (state_logs evs)"
  shows "\<exists>tn. tree_run h (map fst (state_logs evs)) (DNode no_data (Some []), 1) = Inr tn \<and>
    GetResult (evmdisTracer h) db (captures (evmdisTracer h) evs (New (evmdisTracer h))) =
      (Some (JArr (map node_json (root_entries tn))), None)"
  using assms by (rule evmdis_captures)

lemma sample_call_dis_ok: "list_all (\<lambda>(l, d). dis_ok ref_host l) (state_logs [sample_call 1])"
  by (simp add: sample_call_def dis_ok_def ref_duk_numbers evm_log_def args_log_def call_frame_def getDepth_def
      PushUint_small [OF ref_duk_numbers])

theorem evmdis_refines_trees_witness:
  "\<exists>tn. tree_run ref_host (map fst (state_logs [sample_call 1])) (DNode no_data (Some []), 1) = Inr tn \<and>
    GetResult (evmdisTracer ref_host) sample_db
      (captures (evmdisTracer ref_host) [sample_call 1] (New (evmdisTracer ref_host))) =
      (Some (JArr (map node_json (root_entries tn))), None)"
  by (rule evmdis_refines_trees) (use sample_call_dis_ok in simp_all)

section \<open>What is listed\<close>

text \<open>
  The listing of a contract that makes no calls: one entry per instruction, with the values that the
  next instruction finds on the stack.
\<close>

definition dis_entry :: "host \<Rightarrow> log_obj \<Rightarrow> dnode" where
  "dis_entry h l =
     DNode (with_len l (if op_toString l = ''JUMPDEST'' then (new_info h l)\<lparr>d_pc := Some (getPC h l)\<rparr>
                        else new_info h l)) None"

fun listing :: "host \<Rightarrow> log_obj list \<Rightarrow> dnode list" where
  "listing h [] = []"
| "listing h [l] = [dis_entry h l]"
| "listing h (l # k # ls) = add_results k (dis_entry h l) # listing h (k # ls)"

definition is_call :: "log_obj \<Rightarrow> bool" where
  "is_call l = (op_toString l \<in> {''CALL'', ''CALLCODE'', ''DELEGATECALL'', ''STATICCALL''})"

lemma switch_plain:
  assumes "dis_ok h l" "\<not> is_call l"
  shows "\<exists>ret. dis_switch h l (new_info h l) = Inr
    (if op_toString l = ''JUMPDEST'' then (new_info h l)\<lparr>d_pc := Some (getPC h l)\<rparr> else new_info h l, False, ret)"
proof -
  obtain sw where sw: "dis_switch h l (new_info h l) = Inr sw" using switch_total [OF assms(1)] by blast
  have nc: "op_toString l \<noteq> ''CALL''" "op_toString l \<noteq> ''CALLCODE''" "op_toString l \<noteq> ''DELEGATECALL''"
    "op_toString l \<noteq> ''STATICCALL''"
    using assms(2) by (simp_all add: is_call_def)
  consider "op_toString l = ''RETURN''" | "op_toString l = ''STOP'' \<or> op_toString l = ''SUICIDE''"
    | "op_toString l = ''JUMPDEST''"
    | "op_toString l \<noteq> ''RETURN''" "\<not> (op_toString l = ''STOP'' \<or> op_toString l = ''SUICIDE'')"
        "op_toString l \<noteq> ''JUMPDEST''"
    by blast
  then show ?thesis
  proof cases
    case 1
    then show ?thesis using sw by (auto simp: dis_switch_def Let_def map_sum_Inr_iff)
  next
    case 2
    have "dis_switch h l (new_info h l) =
        map_sum id (\<lambda>bs. (new_info h l, False, Some bs)) (memory_slice h l (Some 0) (Some 0))"
      unfolding dis_switch_def Let_def using 2 nc by (elim disjE) simp_all
    then show ?thesis using sw 2 by (cases "memory_slice h l (Some 0) (Some 0)") auto
  next
    case 3
    then show ?thesis by (simp add: dis_switch_def Let_def)
  next
    case 4
    then show ?thesis using nc by (simp add: dis_switch_def Let_def)
  qed
qed

lemma tree_step_plain:
  assumes "dis_ok h l" "\<not> is_call l" "lerror l = None" "getDepth h l = int n"
  shows "\<exists>ret. tree_step h l (t, n) =
    Inr (on_spine (n - 1) (add_entry l (if op_toString l = ''JUMPDEST'' then (new_info h l)\<lparr>d_pc := Some (getPC h l)\<rparr>
      else new_info h l, False, ret)) t, n)"
  using switch_plain [OF assms(1,2)] assms(3,4) by (auto simp: tree_step_def getError_def)

definition results_from :: "log_obj list \<Rightarrow> dnode list \<Rightarrow> dnode list" where
  "results_from ls ts = (case ls of [] \<Rightarrow> ts | l # _ \<Rightarrow> results_to_last l ts)"

lemma tree_run_straight:
  assumes "list_all (\<lambda>l. dis_ok h l \<and> \<not> is_call l \<and> lerror l = None \<and> getDepth h l = 1) ls"
  shows "\<exists>d'. tree_run h ls (DNode d (Some ts), 1) = Inr (DNode d' (Some (results_from ls ts @ listing h ls)), 1)"
  using assms
proof (induction h ls arbitrary: d ts rule: listing.induct)
  case (1 h)
  then show ?case by (simp add: results_from_def)
next
  case (2 h l)
  then show ?case using tree_step_plain [of h l 1 "DNode d (Some ts)"]
    by (auto simp: results_from_def dis_entry_def)
next
  case (3 h l k ls)
  obtain ret where step: "tree_step h l (DNode d (Some ts), 1) =
      Inr (DNode (with_return ret d) (Some (results_to_last l ts @ [dis_entry h l])), 1)"
    using tree_step_plain [of h l 1 "DNode d (Some ts)"] 3(2) by (auto simp: dis_entry_def)
  obtain d' where "tree_run h (k # ls) (DNode (with_return ret d) (Some (results_to_last l ts @ [dis_entry h l])), 1) =
      Inr (DNode d' (Some (results_from (k # ls) (results_to_last l ts @ [dis_entry h l]) @ listing h (k # ls))), 1)"
    using 3(1) [of "with_return ret d"] 3(2) by auto
  then show ?case using step by (simp add: results_from_def results_to_last_def)
qed



text \<open>C36: After a call of the outermost contract (whether or not the callee has code) the next instruction
  of the caller only closes the entry of the call: it is not listed, and the report is the same as
  without it.\<close>

theorem evmdis_drops_instruction_after_call:
  assumes "list_all (\<lambda>ev. \<not> is_stop ev) evs" "\<not> is_stop ev"
    and "map fst (state_logs evs) = before @ c # callee" "state_logs [ev] = [(l, d)]"
    and "list_all (\<lambda>l. dis_ok h l \<and> lerror l = None) (before @ c # callee @ [l])"
    and "list_all (\<lambda>l. \<not> is_call l \<and> getDepth h l = 1) before"
    and "is_call c" "getDepth h c = 1"
    and "list_all (\<lambda>l. \<not> is_call l \<and> getDepth h l = 2) callee" "getDepth h l = 1"
  shows "GetResult (evmdisTracer h) db (captures (evmdisTracer h) (evs @ [ev]) (New (evmdisTracer h))) =
    GetResult (evmdisTracer h) db (captures (evmdisTracer h) evs (New (evmdisTracer h)))"
proof -
  let ?t = "(DNode no_data (Some []), 1)" and ?ls = "before @ c # callee"
  obtain d1 ts where 1: "tree_run h before ?t = Inr (DNode d1 (Some ts), 1)"
    using tree_run_straight [of h before no_data "[]"] assms(5,6) by (auto simp: list_all_iff)
  obtain sw where sw: "dis_switch h c (new_info h c) = Inr sw" using switch_total assms(5) by fastforce
  then obtain e where "sw = (e, True, None)" using assms(7)
    by (auto simp: dis_switch_def is_call_def Let_def map_sum_Inr_iff)
  with sw assms(5,8) obtain t2 where 2: "tree_step h c (DNode d1 (Some ts), 1) = Inr (t2, 2)"
    by (auto simp: tree_step_def getError_def numeral_2_eq_2)
  have "\<exists>t'. tree_run h callee (t2, 2) = Inr (t', 2)"
    using assms(5,9)
  proof (induction callee arbitrary: t2)
    case (Cons k ks)
    obtain t' where "tree_step h k (t2, 2) = Inr (t', 2)"
      using tree_step_plain [of h k 2 t2] Cons.prems by auto
    with Cons.IH [of t'] Cons.prems show ?case by auto
  qed simp
  then obtain t3 where 3: "tree_run h callee (t2, 2) = Inr (t3, 2)" by blast
  have run: "tree_run h ?ls ?t = Inr (t3, 2)" using 1 2 3 by (simp add: tree_run_append)
  have 4: "tree_step h l (t3, 2) = Inr (t3, 1)" using assms(5,10) by (simp add: tree_step_def getError_def)
  have app: "state_logs (evs @ [ev]) = state_logs evs @ [(l, d)]"
    using assms(4) by (induction evs rule: state_logs.induct) simp_all
  have "list_all (dis_ok h) (map fst (state_logs evs))" and okl: "dis_ok h l"
    unfolding assms(3) using assms(5) by (simp_all add: list_all_iff)
  then have ok: "list_all (\<lambda>(l, d). dis_ok h l) (state_logs evs)" "dis_ok h l"
    by (auto simp: list_all_iff)
  have run': "tree_run h (map fst (state_logs (evs @ [ev]))) ?t = Inr (t3, 1)"
    unfolding app map_append assms(3) tree_run_append [of h ?ls] run using 4 by simp
  have "root_entries (t3, 2) = root_entries (t3, 1)" by (cases t3; cases "case t3 of DNode d x \<Rightarrow> x") auto
  with evmdis_captures [OF assms(1) ok(1), of db] evmdis_captures [of "evs @ [ev]" h db] ok run run' assms(1-3)
  show ?thesis by (simp add: app)
qed

theorem evmdis_drops_instruction_after_call_witness:
  "GetResult (evmdisTracer ref_host) sample_db
     (captures (evmdisTracer ref_host) ([sample_call 1] @ [sample_state 1 1]) (New (evmdisTracer ref_host))) =
   GetResult (evmdisTracer ref_host) sample_db
     (captures (evmdisTracer ref_host) [sample_call 1] (New (evmdisTracer ref_host)))"
proof -
  let ?c = "args_log (\<lambda>_. call_frame) \<lparr>a_block = 1, a_pc = 0, a_op = CALL, a_gas = 100, a_cost = 60,
     a_frame = 0, a_depth = 1, a_err = None\<rparr>"
  let ?k = "args_log (\<lambda>_. nil_frame) \<lparr>a_block = 1, a_pc = 0, a_op = 1, a_gas = 100, a_cost = 3, a_frame = 0,
     a_depth = 1, a_err = None\<rparr>"
  have dep: "getDepth ref_host ?c = 1" "getDepth ref_host ?k = 1"
    by (simp_all add: getDepth_def args_log_def PushUint_small [OF ref_duk_numbers])
  have logs: "map fst (state_logs [sample_call 1]) = [] @ ?c # []" "state_logs [sample_state 1 1] = [(?k, sample_db)]"
    by (simp_all add: sample_call_def sample_state_def)
  have ok: "dis_ok ref_host ?c" "dis_ok ref_host ?k" "lerror ?c = None" "lerror ?k = None" "is_call ?c"
    using dep
    by (simp_all add: dis_ok_def ref_duk_numbers evm_log_def is_call_def op_toString_def)
      (simp_all add: args_log_def call_frame_def nil_frame_def newstack_def)
  show ?thesis
    by (rule evmdis_drops_instruction_after_call [OF _ _ logs]) (use ok dep in simp_all)
qed

end
