(* ===== verification/Trie_Encoding.thy ===== *)
theory Trie_Encoding
  imports Prelude
begin

unbundle bit_operations_syntax

text \<open>
  The three encodings of trie keys (\<^verbatim>\<open>trie/encoding.go\<close>): the bytes of a key, one byte for every
  nibble with an optional terminator, and the compact form with a flag nibble that is stored. An access
  outside of a slice panics in Go and is \<open>Inl\<close> here.
\<close>

section \<open>Encodings\<close>

definition hasTerm :: "byte list \<Rightarrow> bool" where
  "hasTerm s = (s \<noteq> [] \<and> last s = 16)"

fun decodeNibbles :: "byte list \<Rightarrow> string + byte list" where
  "decodeNibbles [] = Inr []"
| "decodeNibbles [a] = Inl ''index out of range''"
| "decodeNibbles (a # b # ns) = map_sum id (\<lambda>bs. (push_bit 4 a OR b) # bs) (decodeNibbles ns)"

definition hexToCompact :: "byte list \<Rightarrow> string + byte list" where
  "hexToCompact hex =
     (let terminator = (if hasTerm hex then 1 else 0 :: byte);
          hex1 = (if hasTerm hex then butlast hex else hex);
          flag = push_bit 5 terminator
      in if odd (length hex1)
         then map_sum id (\<lambda>bs. (flag OR 16 OR hd hex1) # bs) (decodeNibbles (tl hex1))
         else map_sum id (\<lambda>bs. flag # bs) (decodeNibbles hex1))"

fun nibbles_of :: "byte list \<Rightarrow> byte list" where
  "nibbles_of [] = []"
| "nibbles_of (b # bs) = b div 16 # b mod 16 # nibbles_of bs"

definition keybytesToHex :: "byte list \<Rightarrow> byte list" where
  "keybytesToHex str = nibbles_of str @ [16]"

definition compactToHex :: "byte list \<Rightarrow> byte list" where
  "compactToHex compact =
     (if compact = [] then compact
      else let base = keybytesToHex compact;
               base1 = (if hd base < 2 then butlast base else base);
               chop = 2 - (hd base1 AND 1)
           in drop (unat chop) base1)"

definition hexToKeybytes :: "byte list \<Rightarrow> string + byte list" where
  "hexToKeybytes hex =
     (let hex1 = (if hasTerm hex then butlast hex else hex)
      in if odd (length hex1) then Inl ''can't convert hex key of odd length''
         else decodeNibbles hex1)"

fun prefixLen :: "byte list \<Rightarrow> byte list \<Rightarrow> nat" where
  "prefixLen (a # as) (b # bs) = (if a \<noteq> b then 0 else Suc (prefixLen as bs))"
| "prefixLen _ _ = 0"

section \<open>Nibbles\<close>

definition nibbles :: "byte list \<Rightarrow> bool" where
  "nibbles = list_all (\<lambda>b. b < 16)"

lemma nibbles_simps [simp]:
  "nibbles []" "nibbles (b # bs) \<longleftrightarrow> b < 16 \<and> nibbles bs"
  "nibbles (bs @ cs) \<longleftrightarrow> nibbles bs \<and> nibbles cs"
  by (simp_all add: nibbles_def)

text \<open>A key in the hex encoding: nibbles, then possibly the terminator.\<close>

definition hex_key :: "byte list \<Rightarrow> bool" where
  "hex_key k = nibbles (if hasTerm k then butlast k else k)"

lemma byte_mod_16: "b < 16 \<Longrightarrow> b mod 16 = (b :: byte)"
  by (simp add: word_less_nat_alt unat_mod word_unat_eq_iff)

lemma join_nibbles:
  assumes "a < 16" "b < (16 :: byte)"
  shows "push_bit 4 a OR b = a * 16 + b"
proof -
  have "take_bit 4 b = b" using byte_mod_16 [OF assms(2)] by (simp add: take_bit_eq_mod)
  then have low: "bit b n \<Longrightarrow> n < 4" for n by (metis bit_take_bit_iff)
  have "push_bit 4 a + b = push_bit 4 a OR b"
    by (intro disjunctive_add) (auto simp: bit_push_bit_iff dest: low)
  then show ?thesis by (simp add: push_bit_eq_mult)
qed

lemma unat_join:
  assumes "a < 16" "b < (16 :: byte)"
  shows "unat (a * 16 + b) = unat a * 16 + unat b"
  using assms by (simp add: word_less_nat_alt unat_word_ariths)

lemma split_joined [simp]:
  assumes "a < 16" "b < (16 :: byte)"
  shows "(a * 16 + b) div 16 = a" "(a * 16 + b) mod 16 = b"
  using unat_join [OF assms] assms by (simp_all add: word_unat_eq_iff unat_div unat_mod word_less_nat_alt)

lemma unat_byte: "unat (b :: byte) < 256"
  using unsigned_less [of b] by simp

lemma nibbles_byte: "b div 16 < (16 :: byte)" "b mod 16 < (16 :: byte)" "b div 16 * 16 + b mod 16 = (b :: byte)"
  using unat_byte [of b] div_mult_mod_eq [of b 16] by (simp_all add: word_less_nat_alt unat_div unat_mod)

lemma nibbles_of_nibbles [simp]: "nibbles (nibbles_of bs)"
  by (induction bs) (simp_all add: nibbles_byte)

lemma length_nibbles_of [simp]: "length (nibbles_of bs) = 2 * length bs"
  by (induction bs) simp_all

lemma decode_nibbles_of [simp]: "decodeNibbles (nibbles_of bs) = Inr bs"
  by (induction bs) (simp_all add: join_nibbles nibbles_byte)

lemma nibbles_of_decode:
  "nibbles ns \<Longrightarrow> even (length ns) \<Longrightarrow> \<exists>bs. decodeNibbles ns = Inr bs \<and> nibbles_of bs = ns"
  by (induction ns rule: decodeNibbles.induct) (auto simp: join_nibbles)

lemma hasTerm_snoc [simp]: "hasTerm (ns @ [t]) \<longleftrightarrow> t = 16"
  by (simp add: hasTerm_def)

lemma hasTerm_Nil [simp]: "\<not> hasTerm []"
  by (simp add: hasTerm_def)

lemma nibbles_butlast [simp]: "nibbles ns \<Longrightarrow> nibbles (butlast ns)"
  by (induction ns) auto

lemma nibbles_not_term: "nibbles ns \<Longrightarrow> \<not> hasTerm ns"
  by (induction ns rule: rev_induct) (auto simp: hasTerm_def)

section \<open>Round trips\<close>

lemma hex_key_cases:
  assumes "hex_key k"
  obtains "nibbles k" | ns where "nibbles ns" "k = ns @ [16]"
proof (cases "hasTerm k")
  case True
  then have "k = butlast k @ [16]" by (metis append_butlast_last_id hasTerm_def)
  with True assms that(2) show ?thesis by (simp add: hex_key_def)
qed (use assms that(1) in \<open>simp add: hex_key_def\<close>)

lemma compactToHex_join:
  assumes "f < 16" "n < (16 :: byte)"
  shows "compactToHex ((f * 16 + n) # bs) =
    drop (unat (2 - (f AND 1))) (f # n # nibbles_of bs @ (if f < 2 then [] else [16]))"
  using assms by (simp add: compactToHex_def keybytesToHex_def Let_def butlast_append)

lemma flag_bytes:
  assumes "n < (16 :: byte)"
  shows "compactToHex ((16 OR n) # bs) = n # nibbles_of bs"
    "compactToHex ((32 OR 16 OR n) # bs) = n # nibbles_of bs @ [16]"
    "compactToHex (0 # bs) = nibbles_of bs" "compactToHex (32 # bs) = nibbles_of bs @ [16]"
proof -
  have 1: "16 OR n = 1 * 16 + n" and 3: "48 OR n = 3 * 16 + n"
    using join_nibbles [of 1 n] join_nibbles [of 3 n] assms by simp_all
  have 48: "32 OR 16 OR n = 48 OR n" by (simp flip: or.assoc)
  show "compactToHex ((16 OR n) # bs) = n # nibbles_of bs"
    unfolding 1 using compactToHex_join [of 1 n bs] assms by simp
  show "compactToHex ((32 OR 16 OR n) # bs) = n # nibbles_of bs @ [16]"
    unfolding 48 3 using compactToHex_join [of 3 n bs] assms by simp
  show "compactToHex (0 # bs) = nibbles_of bs" "compactToHex (32 # bs) = nibbles_of bs @ [16]"
    using compactToHex_join [of 0 0 bs] compactToHex_join [of 2 0 bs] by simp_all
qed

lemma compact_nibbles:
  assumes "nibbles ns"
  shows "\<exists>bs. hexToCompact ns = Inr bs \<and> compactToHex bs = ns"
    and "\<exists>bs. hexToCompact (ns @ [16]) = Inr bs \<and> compactToHex bs = ns @ [16]"
proof -
  have "(\<exists>bs. hexToCompact ns = Inr bs \<and> compactToHex bs = ns) \<and>
    (\<exists>bs. hexToCompact (ns @ [16]) = Inr bs \<and> compactToHex bs = ns @ [16])"
  proof (cases "odd (length ns)")
    case True
    then obtain n ms where ns: "ns = n # ms" by (cases ns) auto
    with True assms obtain bs where bs: "decodeNibbles ms = Inr bs" "nibbles_of bs = ms"
      using nibbles_of_decode [of ms] by auto
    from True assms bs flag_bytes(1,2) [of n bs] show ?thesis
      by (simp add: ns hexToCompact_def nibbles_not_term [of "n # ms"] hasTerm_snoc [of "n # ms", simplified])
  next
    case False
    with assms obtain bs where bs: "decodeNibbles ns = Inr bs" "nibbles_of bs = ns"
      using nibbles_of_decode [of ns] by auto
    from False assms bs flag_bytes(3,4) [of 0 bs] show ?thesis
      by (simp add: hexToCompact_def nibbles_not_term)
  qed
  then show "\<exists>bs. hexToCompact ns = Inr bs \<and> compactToHex bs = ns"
    and "\<exists>bs. hexToCompact (ns @ [16]) = Inr bs \<and> compactToHex bs = ns @ [16]" by simp_all
qed

lemma compact_round_trip:
  assumes "hex_key k"
  shows "\<exists>bs. hexToCompact k = Inr bs \<and> compactToHex bs = k"
  using assms by (cases rule: hex_key_cases) (auto intro: compact_nibbles)

lemma keybytes_round_trip: "hexToKeybytes (keybytesToHex bs) = Inr bs"
  by (simp add: hexToKeybytes_def keybytesToHex_def)

lemma keybytesToHex_inject [simp]: "keybytesToHex a = keybytesToHex b \<longleftrightarrow> a = b"
  by (metis keybytes_round_trip sum.inject(2))

section \<open>Common prefixes\<close>

lemma prefixLen_le: "prefixLen a b \<le> length a" "prefixLen a b \<le> length b"
  by (induction a b rule: prefixLen.induct) auto

lemma prefixLen_take: "take (prefixLen a b) a = take (prefixLen a b) b"
  by (induction a b rule: prefixLen.induct) auto

lemma prefixLen_differ:
  "prefixLen a b < length a \<Longrightarrow> prefixLen a b < length b \<Longrightarrow> a ! prefixLen a b \<noteq> b ! prefixLen a b"
  by (induction a b rule: prefixLen.induct) auto

lemma prefixLen_all: "prefixLen a b = length b \<longleftrightarrow> take (length b) a = b"
  by (induction a b rule: prefixLen.induct) auto

section \<open>Property\<close>

text \<open>C14: The encodings of trie keys lose nothing and never panic: a key of nibbles with or without a terminator, of even or
  odd length, is read back from its compact form, and the bytes of a key from its nibbles.\<close>

theorem trie_key_round_trips:
  assumes "hex_key k"
  shows "(\<exists>bs. hexToCompact k = Inr bs \<and> compactToHex bs = k) \<and> hexToKeybytes (keybytesToHex key) = Inr key"
  using compact_round_trip [OF assms] keybytes_round_trip by simp

theorem trie_key_round_trips_witness:
  "(\<exists>bs. hexToCompact [1, 2, 3, 16] = Inr bs \<and> compactToHex bs = [1, 2, 3, 16]) \<and>
   hexToKeybytes (keybytesToHex [171, 5]) = Inr [171, 5]"
  by (rule trie_key_round_trips) (simp add: hex_key_def hasTerm_def)

end
