(* ===== verification/Patricia_Trie.thy ===== *)
theory Patricia_Trie
  imports Trie_Encoding
begin

text \<open>
  The Merkle Patricia trie of \<^verbatim>\<open>trie/trie.go\<close> and \<^verbatim>\<open>trie/node.go\<close>: lookup, insertion and deletion on
  nodes that are loaded from a database on demand. \<open>nil\<close> nodes and \<open>nil\<close> slices are \<open>None\<close>. The recursion
  follows references into the database and need not end, so the operations are partial functions:
  \<open>None\<close> as a result is a call that does not return. Errors and panics are left values.
\<close>

section \<open>Nodes and the database\<close>

record nodeFlag =
  fl_hash :: "byte list option"
  fl_dirty :: bool

datatype node =
    FullNode "node option list" nodeFlag
  | ShortNode "byte list" "node option" nodeFlag
  | HashNode "byte list"
  | ValueNode "byte list"

datatype trie_error =
    MissingNodeError "byte list" "byte list"
  | TriePanic string

text \<open>
  The database and the decoder of stored nodes, which is built on the RLP package: \<open>GetDecoded\<close> and
  \<open>GetEncoded\<close> are used when the database is a \<open>DatabaseReaderEx\<close>, \<open>db_Get\<close> otherwise.
\<close>

record database =
  is_ex :: bool
  GetDecoded :: "byte list \<Rightarrow> byte list \<Rightarrow> node option"
  GetEncoded :: "byte list \<Rightarrow> byte list \<Rightarrow> string + byte list option"
  db_Get :: "byte list \<Rightarrow> string + byte list option"
  decodeNode :: "byte list \<Rightarrow> byte list \<Rightarrow> string + node"

definition newFlag :: nodeFlag where
  "newFlag = \<lparr>fl_hash = None, fl_dirty = True\<rparr>"

definition mustDecodeNode :: "database \<Rightarrow> byte list \<Rightarrow> byte list \<Rightarrow> trie_error + node" where
  "mustDecodeNode db hash buf = map_sum TriePanic id (decodeNode db hash buf)"

definition resolveHash :: "database \<Rightarrow> byte list \<Rightarrow> byte list \<Rightarrow> trie_error + node" where
  "resolveHash db n prefix =
     (if is_ex db then
        (case GetDecoded db n prefix of
           Some dec \<Rightarrow> Inr dec
         | None \<Rightarrow>
             (case GetEncoded db n prefix of
                Inr (Some enc) \<Rightarrow> mustDecodeNode db n enc
              | _ \<Rightarrow> Inl (MissingNodeError n prefix)))
      else
        (case db_Get db n of
           Inr (Some enc) \<Rightarrow> mustDecodeNode db n enc
         | _ \<Rightarrow> Inl (MissingNodeError n prefix)))"

definition resolve :: "database \<Rightarrow> node option \<Rightarrow> byte list \<Rightarrow> trie_error + node option" where
  "resolve db n prefix =
     (case n of
        Some (HashNode h) \<Rightarrow> map_sum id Some (resolveHash db h prefix)
      | _ \<Rightarrow> Inr n)"

definition index_range :: trie_error where
  "index_range = TriePanic ''index out of range''"

section \<open>Lookup\<close>

partial_function (option) tryGet ::
    "database \<Rightarrow> node option \<Rightarrow> byte list \<Rightarrow> nat \<Rightarrow>
      (trie_error + byte list option \<times> node option \<times> bool) option" where
  "tryGet db n key pos =
     (case n of
        None \<Rightarrow> Some (Inr (None, None, False))
      | Some (ValueNode v) \<Rightarrow> Some (Inr (Some v, n, False))
      | Some (ShortNode k v fl) \<Rightarrow>
          if length key - pos < length k \<or> k \<noteq> take (length k) (drop pos key)
          then Some (Inr (None, n, False))
          else Option.bind (tryGet db v key (pos + length k))
            (\<lambda>r. Some (map_sum id
               (\<lambda>(value, newnode, didResolve).
                  (value, Some (ShortNode k (if didResolve then newnode else v) fl), didResolve)) r))
      | Some (FullNode cs fl) \<Rightarrow>
          if length key \<le> pos \<or> length cs \<le> unat (key ! pos) then Some (Inl index_range)
          else Option.bind (tryGet db (cs ! unat (key ! pos)) key (Suc pos))
            (\<lambda>r. Some (map_sum id
               (\<lambda>(value, newnode, didResolve).
                  (value,
                   Some (FullNode (if didResolve then cs[unat (key ! pos) := newnode] else cs) fl),
                   didResolve)) r))
      | Some (HashNode h) \<Rightarrow>
          (case resolveHash db h (take pos key) of
             Inl e \<Rightarrow> Some (Inl e)
           | Inr child \<Rightarrow>
               Option.bind (tryGet db (Some child) key pos)
                 (\<lambda>r. Some (map_sum id (\<lambda>(value, newnode, _). (value, newnode, True)) r))))"

definition TryGet ::
    "database \<Rightarrow> node option \<Rightarrow> byte list \<Rightarrow>
      ((trie_error + byte list option) \<times> node option) option" where
  "TryGet db root key =
     Option.bind (tryGet db root (keybytesToHex key) 0)
       (\<lambda>r. Some (case r of
          Inl e \<Rightarrow> (Inl e, root)
        | Inr (value, newroot, didResolve) \<Rightarrow> (Inr value, if didResolve then newroot else root)))"

section \<open>Insertion\<close>

partial_function (option) insert_at ::
    "database \<Rightarrow> node option \<Rightarrow> byte list \<Rightarrow> byte list \<Rightarrow> node option \<Rightarrow>
      (trie_error + bool \<times> node option) option" where
  "insert_at db n prefix key value =
     (if key = [] then
        Some (case n of
          Some (ValueNode v) \<Rightarrow>
            (case value of
               Some (ValueNode w) \<Rightarrow> Inr (v \<noteq> w, value)
             | _ \<Rightarrow> Inl (TriePanic ''interface conversion''))
        | _ \<Rightarrow> Inr (True, value))
      else
        (case n of
           Some (ShortNode k v fl) \<Rightarrow>
             (let matchlen = prefixLen key k in
              if matchlen = length k then
                Option.bind (insert_at db v (prefix @ take matchlen key) (drop matchlen key) value)
                  (\<lambda>r. Some (map_sum id
                     (\<lambda>(dirty, nn). if dirty then (True, Some (ShortNode k nn newFlag)) else (False, n)) r))
              else if length key \<le> matchlen \<or> 16 < k ! matchlen \<or> 16 < key ! matchlen then Some (Inl index_range)
              else
                Option.bind (insert_at db None (prefix @ take (Suc matchlen) k) (drop (Suc matchlen) k) v)
                  (\<lambda>r1. case r1 of
                     Inl e \<Rightarrow> Some (Inl e)
                   | Inr (_, old) \<Rightarrow>
                       Option.bind
                         (insert_at db None (prefix @ take (Suc matchlen) key) (drop (Suc matchlen) key) value)
                         (\<lambda>r2. Some (map_sum id
                            (\<lambda>(_, new).
                               let branch = FullNode ((replicate 17 None)
                                     [unat (k ! matchlen) := old, unat (key ! matchlen) := new]) newFlag
                               in (True, Some (if matchlen = 0 then branch
                                    else ShortNode (take matchlen key) (Some branch) newFlag))) r2))))
         | Some (FullNode cs fl) \<Rightarrow>
             (if length cs \<le> unat (hd key) then Some (Inl index_range)
              else
                Option.bind (insert_at db (cs ! unat (hd key)) (prefix @ [hd key]) (tl key) value)
                  (\<lambda>r. Some (map_sum id
                     (\<lambda>(dirty, nn).
                        if dirty then (True, Some (FullNode (cs[unat (hd key) := nn]) newFlag))
                        else (False, n)) r)))
         | None \<Rightarrow> Some (Inr (True, Some (ShortNode key value newFlag)))
         | Some (HashNode h) \<Rightarrow>
             (case resolveHash db h prefix of
                Inl e \<Rightarrow> Some (Inl e)
              | Inr rn \<Rightarrow>
                  Option.bind (insert_at db (Some rn) prefix key value)
                    (\<lambda>r. Some (map_sum id
                       (\<lambda>(dirty, nn). if dirty then (True, nn) else (False, Some rn)) r)))
         | Some (ValueNode _) \<Rightarrow> Some (Inl (TriePanic ''invalid node''))))"

section \<open>Deletion\<close>

text \<open>The loop over the children: the index of the only child, \<open>-1\<close> for none and \<open>-2\<close> for several.\<close>

fun single_child :: "nat \<Rightarrow> int \<Rightarrow> node option list \<Rightarrow> int" where
  "single_child i pos [] = pos"
| "single_child i pos (cld # cs) =
     (if cld \<noteq> None then (if pos = - 1 then single_child (Suc i) (int i) cs else - 2)
      else single_child (Suc i) pos cs)"

definition reduce_full ::
    "database \<Rightarrow> node option list \<Rightarrow> byte list \<Rightarrow> trie_error + bool \<times> node option" where
  "reduce_full db cs prefix =
     (let pos = single_child 0 (- 1) cs in
      if 0 \<le> pos then
        (let i = nat pos; one = Inr (True, Some (ShortNode [of_nat i] (cs ! i) newFlag)) in
         if i \<noteq> 16 then
           (case resolve db (cs ! i) (prefix @ [of_nat i]) of
              Inl e \<Rightarrow> Inl e
            | Inr (Some (ShortNode k v _)) \<Rightarrow> Inr (True, Some (ShortNode (of_nat i # k) v newFlag))
            | Inr _ \<Rightarrow> one)
         else one)
      else Inr (True, Some (FullNode cs newFlag)))"

partial_function (option) delete_at ::
    "database \<Rightarrow> node option \<Rightarrow> byte list \<Rightarrow> byte list \<Rightarrow> (trie_error + bool \<times> node option) option" where
  "delete_at db n prefix key =
     (case n of
        Some (ShortNode k v fl) \<Rightarrow>
          (let matchlen = prefixLen key k in
           if matchlen < length k then Some (Inr (False, n))
           else if matchlen = length key then Some (Inr (True, None))
           else
             Option.bind (delete_at db v (prefix @ take (length k) key) (drop (length k) key))
               (\<lambda>r. Some (map_sum id
                  (\<lambda>(dirty, child).
                     if dirty then
                       (True, Some (case child of
                          Some (ShortNode ck cv _) \<Rightarrow> ShortNode (k @ ck) cv newFlag
                        | _ \<Rightarrow> ShortNode k child newFlag))
                     else (False, n)) r)))
      | Some (FullNode cs fl) \<Rightarrow>
          (if key = [] \<or> length cs \<le> unat (hd key) then Some (Inl index_range)
           else
             Option.bind (delete_at db (cs ! unat (hd key)) (prefix @ [hd key]) (tl key))
               (\<lambda>r. Some (case r of
                  Inl e \<Rightarrow> Inl e
                | Inr (dirty, nn) \<Rightarrow>
                    if dirty then reduce_full db (cs[unat (hd key) := nn]) prefix else Inr (False, n))))
      | Some (ValueNode _) \<Rightarrow> Some (Inr (True, None))
      | None \<Rightarrow> Some (Inr (False, None))
      | Some (HashNode h) \<Rightarrow>
          (case resolveHash db h prefix of
             Inl e \<Rightarrow> Some (Inl e)
           | Inr rn \<Rightarrow>
               Option.bind (delete_at db (Some rn) prefix key)
                 (\<lambda>r. Some (map_sum id
                    (\<lambda>(dirty, nn). if dirty then (True, nn) else (False, Some rn)) r))))"

section \<open>The operations of a trie\<close>

definition TryUpdate ::
    "database \<Rightarrow> node option \<Rightarrow> byte list \<Rightarrow> byte list \<Rightarrow> (trie_error + node option) option" where
  "TryUpdate db root key value =
     (let k = keybytesToHex key in
      if value \<noteq> [] then
        Option.bind (insert_at db root [] k (Some (ValueNode value))) (\<lambda>r. Some (map_sum id snd r))
      else Option.bind (delete_at db root [] k) (\<lambda>r. Some (map_sum id snd r)))"

definition TryDelete ::
    "database \<Rightarrow> node option \<Rightarrow> byte list \<Rightarrow> (trie_error + node option) option" where
  "TryDelete db root key =
     Option.bind (delete_at db root [] (keybytesToHex key)) (\<lambda>r. Some (map_sum id snd r))"

text \<open>\<open>New\<close>: the hash of the empty trie is a constant of the hash function; \<open>None\<close> is a missing database.\<close>

definition NewTrie ::
    "byte list \<Rightarrow> byte list \<Rightarrow> database option \<Rightarrow> trie_error + node option" where
  "NewTrie emptyRoot root db =
     (if root \<noteq> replicate 32 0 \<and> root \<noteq> emptyRoot then
        (case db of
           None \<Rightarrow> Inl (TriePanic ''trie.New: cannot use existing root without a database'')
         | Some d \<Rightarrow> map_sum id Some (resolveHash d root []))
      else Inr None)"

end
