(* ===== verification/Trie_Canonical.thy ===== *)
theory Trie_Canonical
  imports Trie_Encoding
begin

text \<open>
  Fully loaded tries as trees, without flags, hashes and a database: lookup, insertion and deletion,
  the canonical form that insertion and deletion keep, and the theorem that a canonical tree is determined by its
  content.
\<close>

section \<open>Trees\<close>

datatype ptrie =
    PNil
  | PVal "byte list"
  | PShort "byte list" ptrie
  | PFull "ptrie list"

fun plookup :: "ptrie \<Rightarrow> byte list \<Rightarrow> byte list option" where
  "plookup PNil k = None"
| "plookup (PVal v) k = Some v"
| "plookup (PShort s t) k = (if take (length s) k = s then plookup t (drop (length s) k) else None)"
| "plookup (PFull ts) [] = None"
| "plookup (PFull ts) (c # k) = (if unat c < length ts then plookup (ts ! unat c) k else None)"

definition pleaf :: "byte list \<Rightarrow> ptrie \<Rightarrow> ptrie" where
  "pleaf k t = (if k = [] then t else PShort k t)"

definition pbranch :: "byte \<Rightarrow> ptrie \<Rightarrow> byte \<Rightarrow> ptrie \<Rightarrow> ptrie" where
  "pbranch a s b t = PFull ((replicate 17 PNil)[unat a := s, unat b := t])"

definition pjoin :: "byte list \<Rightarrow> ptrie \<Rightarrow> ptrie" where
  "pjoin k t = (case t of PShort s u \<Rightarrow> PShort (k @ s) u | _ \<Rightarrow> pleaf k t)"

fun pinsert :: "ptrie \<Rightarrow> byte list \<Rightarrow> byte list \<Rightarrow> ptrie" where
  "pinsert PNil k v = pleaf k (PVal v)"
| "pinsert (PVal w) k v = PVal v"
| "pinsert (PShort s t) k v =
     (let m = prefixLen k s in
      if m = length s then PShort s (pinsert t (drop m k) v)
      else pleaf (take m k)
        (pbranch (s ! m) (pleaf (drop (Suc m) s) t) (k ! m) (pleaf (drop (Suc m) k) (PVal v))))"
| "pinsert (PFull ts) [] v = PFull ts"
| "pinsert (PFull ts) (c # k) v =
     (if unat c < length ts then PFull (ts[unat c := pinsert (ts ! unat c) k v]) else PFull ts)"

definition entries :: "ptrie list \<Rightarrow> nat list" where
  "entries ts = filter (\<lambda>i. ts ! i \<noteq> PNil) [0..<length ts]"

definition preduce :: "ptrie list \<Rightarrow> ptrie" where
  "preduce ts =
     (case entries ts of
        [i] \<Rightarrow> (if i = 16 then PShort [16] (ts ! 16) else pjoin [of_nat i] (ts ! i))
      | _ \<Rightarrow> PFull ts)"

fun pdelete :: "ptrie \<Rightarrow> byte list \<Rightarrow> ptrie" where
  "pdelete PNil k = PNil"
| "pdelete (PVal w) k = PNil"
| "pdelete (PShort s t) k =
     (if take (length s) k \<noteq> s then PShort s t
      else if length k = length s then PNil
      else pjoin s (pdelete t (drop (length s) k)))"
| "pdelete (PFull ts) [] = PFull ts"
| "pdelete (PFull ts) (c # k) =
     (if unat c < length ts then preduce (ts[unat c := pdelete (ts ! unat c) k]) else PFull ts)"

section \<open>Canonical trees\<close>

definition is_value :: "ptrie \<Rightarrow> bool" where
  "is_value t = (\<exists>v. v \<noteq> [] \<and> t = PVal v)"

definition is_full :: "ptrie \<Rightarrow> bool" where
  "is_full t = (\<exists>ts. t = PFull ts)"

lemma size_child [termination_simp]: "t \<in> set (take n ts) \<Longrightarrow> size t < Suc (size_list size ts)"
  by (induction ts arbitrary: n) (auto simp: take_Cons split: nat.splits, fastforce)

text \<open>
  A short node ends at a value when its key ends with the terminator and leads to a full node
  otherwise; a full node has at least two entries.
\<close>

fun canon :: "ptrie \<Rightarrow> bool" where
  "canon PNil = False"
| "canon (PVal v) = False"
| "canon (PShort s t) =
     (if hasTerm s then nibbles (butlast s) \<and> is_value t
      else s \<noteq> [] \<and> nibbles s \<and> is_full t \<and> canon t)"
| "canon (PFull ts) =
     (length ts = 17 \<and> (\<forall>t \<in> set (take 16 ts). t = PNil \<or> canon t) \<and>
      (ts ! 16 = PNil \<or> is_value (ts ! 16)) \<and> 2 \<le> length (entries ts))"

text \<open>A complete key: nibbles and the terminator.\<close>

definition full_key :: "byte list \<Rightarrow> bool" where
  "full_key k = (hasTerm k \<and> nibbles (butlast k))"

lemma full_key_Cons [simp]: "full_key (c # k) \<longleftrightarrow> (if k = [] then c = 16 else c < 16 \<and> full_key k)"
  by (auto simp: full_key_def hasTerm_def)

lemma full_key_Nil [simp]: "\<not> full_key []"
  by (simp add: full_key_def hasTerm_def)

lemma full_key_append: "full_key (a @ b) \<longleftrightarrow> (if b = [] then full_key a else nibbles a \<and> full_key b)"
  by (induction a) auto

lemma full_key_keybytes [simp]: "full_key (keybytesToHex k)"
  by (simp add: full_key_def keybytesToHex_def)

lemma full_key_not_nibbles: "full_key k \<Longrightarrow> \<not> nibbles k"
  using nibbles_not_term by (auto simp: full_key_def)

lemma full_key_no_prefix: "full_key (a @ b) \<Longrightarrow> full_key a \<Longrightarrow> b = []"
  by (cases "b = []") (auto simp: full_key_append dest: full_key_not_nibbles)

lemma full_key_le_16: "full_key k \<Longrightarrow> c \<in> set k \<Longrightarrow> c \<le> 16"
  by (induction k) (auto split: if_splits)

text \<open>The subtrie at a position whose key has ended (\<open>e\<close>) or not.\<close>

definition proper :: "bool \<Rightarrow> ptrie \<Rightarrow> bool" where
  "proper e t = (if e then is_value t else canon t)"

definition well :: "bool \<Rightarrow> ptrie \<Rightarrow> bool" where
  "well e t = (t = PNil \<or> proper e t)"

definition rest_key :: "bool \<Rightarrow> byte list \<Rightarrow> bool" where
  "rest_key e k = (if e then k = [] else full_key k)"

lemma rest_key_simps [simp]: "rest_key True k \<longleftrightarrow> k = []" "rest_key False k \<longleftrightarrow> full_key k"
  by (simp_all add: rest_key_def)

lemma well_PNil [simp]: "well e PNil"
  by (simp add: well_def)

lemma proper_cases:
  "proper e (PShort s t) \<longleftrightarrow>
     \<not> e \<and> s \<noteq> [] \<and> (hasTerm s \<or> is_full t) \<and> nibbles (if hasTerm s then butlast s else s) \<and> proper (hasTerm s) t"
  "proper e (PVal v) \<longleftrightarrow> e \<and> v \<noteq> []" "\<not> proper e PNil"
  by (auto simp: proper_def is_value_def is_full_def hasTerm_def)

lemma proper_full:
  "proper e (PFull ts) \<longleftrightarrow>
     \<not> e \<and> length ts = 17 \<and> (\<forall>i \<le> 16. well (i = 16) (ts ! i)) \<and> 2 \<le> length (entries ts)"
proof (cases "length ts = 17")
  case True
  then have "(\<forall>t \<in> set (take 16 ts). t = PNil \<or> canon t) \<longleftrightarrow> (\<forall>i < 16. ts ! i = PNil \<or> canon (ts ! i))"
    by (simp add: all_set_conv_all_nth)
  moreover have "(\<forall>i \<le> 16. P i) \<longleftrightarrow> (\<forall>i < 16. P i) \<and> P 16" for P :: "nat \<Rightarrow> bool"
    by (auto simp: le_less)
  ultimately show ?thesis using True by (auto simp: proper_def well_def is_value_def)
qed (auto simp: proper_def is_value_def)

lemma rest_key_split:
  assumes "full_key (s @ k)"
  shows "rest_key (hasTerm s) k"
proof (cases "k = []")
  case True
  with assms show ?thesis by (simp add: rest_key_def full_key_def)
next
  case False
  with assms show ?thesis by (simp add: rest_key_def full_key_append nibbles_not_term)
qed

lemma rest_key_Cons:
  assumes "full_key (c # k)"
  shows "c \<le> 16" "rest_key (c = 16) k"
  using assms by (auto simp: rest_key_def split: if_splits)

section \<open>Lookup after an insertion\<close>

lemma plookup_pleaf:
  "plookup (pleaf s t) k = (if take (length s) k = s then plookup t (drop (length s) k) else None)"
  by (simp add: pleaf_def)

lemma plookup_pbranch:
  assumes "a \<le> 16" "b \<le> 16"
  shows "plookup (pbranch a s b t) (c # k) =
    (if c = b then plookup t k else if c = a then plookup s k else None)"
proof -
  have "unat a < 17" "unat b < 17" using assms by (simp_all add: word_le_nat_alt)
  moreover have "unat x = unat y \<longleftrightarrow> x = y" for x y :: byte by (simp add: word_unat_eq_iff)
  ultimately show ?thesis by (auto simp: pbranch_def nth_list_update)
qed

lemma differ_at:
  assumes "prefixLen k s \<noteq> length s" "full_key k" "full_key s \<or> nibbles s"
  obtains p a k2 b s2 where "k = p @ a # k2" "s = p @ b # s2" "a \<noteq> b" "prefixLen k s = length p"
proof -
  let ?m = "prefixLen k s"
  have s: "?m < length s" using assms(1) prefixLen_le(2) [of k s] by simp
  have k: "?m < length k"
  proof (rule ccontr)
    assume "\<not> ?m < length k"
    then have "k = take (length k) s" using prefixLen_take [of k s] prefixLen_le(1) [of k s] by simp
    then obtain r where "s = k @ r" by (metis append_take_drop_id)
    moreover from this have "r \<noteq> []" using s \<open>\<not> ?m < length k\<close> by auto
    ultimately show False using assms(2,3) full_key_no_prefix [of k r] full_key_not_nibbles [of k] by auto
  qed
  show ?thesis
    by (rule that [OF id_take_nth_drop [OF k]])
      (use prefixLen_take [of k s] id_take_nth_drop [OF s] prefixLen_differ [OF k s] prefixLen_le [of k s] in simp_all)
qed

lemma pinsert_differ:
  assumes "a \<noteq> b"
  shows "pinsert (PShort (p @ b # s) t) (p @ a # k) v =
    pleaf p (pbranch b (pleaf s t) a (pleaf k (PVal v)))"
proof -
  have "prefixLen (p @ a # k) (p @ b # s) = length p" using assms by (induction p) auto
  then show ?thesis by (simp add: Let_def)
qed

lemma pinsert_same: "pinsert (PShort s t) (s @ k) v = PShort s (pinsert t k v)"
proof -
  have "prefixLen (s @ k) s = length s" by (simp add: prefixLen_all)
  then show ?thesis by (simp add: Let_def)
qed

text \<open>How the key of a short node meets a key.\<close>

lemma short_cases:
  assumes "proper e (PShort s t)" "full_key k"
  obtains k2 where "k = s @ k2" "rest_key (hasTerm s) k2"
    | p a k2 b s2 where "k = p @ a # k2" "s = p @ b # s2" "a \<noteq> b" "nibbles p" "a \<le> 16" "b \<le> 16"
        "rest_key (a = 16) k2" "b = 16 \<longleftrightarrow> hasTerm s \<and> s2 = []" "s2 \<noteq> [] \<Longrightarrow> hasTerm s2 = hasTerm s"
        "nibbles (if hasTerm s2 then butlast s2 else s2)"
proof (cases "prefixLen k s = length s")
  case True
  then have "take (length s) k = s" by (simp add: prefixLen_all)
  then have "k = s @ drop (length s) k" by (metis append_take_drop_id)
  with assms(2) that(1) rest_key_split show ?thesis by metis
next
  case False
  have s: "full_key s \<or> nibbles s" "nibbles (if hasTerm s then butlast s else s)"
    using assms(1) by (auto simp: proper_cases full_key_def split: if_splits)
  from differ_at [OF False assms(2) s(1)] obtain p a k2 b s2 where
    1: "k = p @ a # k2" "s = p @ b # s2" "a \<noteq> b" by metis
  have k: "nibbles p" "full_key (a # k2)" using assms(2) 1 by (simp_all add: full_key_append)
  have tm: "hasTerm s \<longleftrightarrow> hasTerm (b # s2)" using 1 by (simp add: hasTerm_def)
  have b: "full_key (b # s2) \<or> nibbles (b # s2)"
    using s(1) 1(2) k(1) by (auto simp: full_key_append)
  show ?thesis
  proof (rule that(2) [OF 1 k(1) rest_key_Cons(1) [OF k(2)] _ rest_key_Cons(2) [OF k(2)]])
    show "b \<le> 16" "b = 16 \<longleftrightarrow> hasTerm s \<and> s2 = []" "nibbles (if hasTerm s2 then butlast s2 else s2)"
      "s2 \<noteq> [] \<Longrightarrow> hasTerm s2 = hasTerm s"
      unfolding tm using b
      by (auto simp: hasTerm_def full_key_def split: if_splits)
  qed
qed

lemma rest_key_take: "rest_key e k \<Longrightarrow> rest_key e r \<Longrightarrow> take (length k) r = k \<longleftrightarrow> r = k"
  by (auto simp: rest_key_def split: if_splits)
    (metis append_take_drop_id full_key_no_prefix append.right_neutral)

lemma take_append_Cons: "take (length (p @ b # s)) k = p @ b # s \<longleftrightarrow> (\<exists>r. k = p @ b # r \<and> take (length s) r = s)"
  by (metis append_Cons append_assoc append_eq_conv_conj append_take_drop_id)

lemma plookup_prefix: "plookup (PShort (p @ b # s) t) (p @ c # r) =
    (if c = b then plookup (pleaf s t) r else None)"
  by (simp add: plookup_pleaf)

lemma plookup_differ:
  assumes "full_key k'" "nibbles p" "a \<noteq> b" "a \<le> 16" "b \<le> 16" "rest_key (a = 16) k"
  shows "plookup (pleaf p (pbranch b (pleaf s t) a (pleaf k (PVal v)))) k' =
    (if k' = p @ a # k then Some v else plookup (PShort (p @ b # s) t) k')"
proof (cases "take (length p) k' = p")
  case True
  then obtain r where r: "k' = p @ r" by (metis append_take_drop_id)
  with assms(1,2) obtain c r' where "r = c # r'" "full_key (c # r')"
    by (cases r) (auto simp: full_key_append dest: full_key_not_nibbles)
  with r assms(3-6) show ?thesis
    using rest_key_take [OF assms(6), of r'] rest_key_Cons [of c r']
    by (auto simp: plookup_pleaf plookup_pbranch plookup_prefix)
next
  case False
  then have "k' \<noteq> p @ a # k" "take (length (p @ b # s)) k' \<noteq> p @ b # s"
    unfolding take_append_Cons by auto
  then show ?thesis using False by (simp add: plookup_pleaf)
qed

theorem plookup_pinsert:
  assumes "well e t" "rest_key e k" "rest_key e k'"
  shows "plookup (pinsert t k v) k' = (if k' = k then Some v else plookup t k')"
  using assms
proof (induction t k v arbitrary: e k' rule: pinsert.induct)
  case (1 k v)
  then show ?case
    by (auto simp: plookup_pleaf rest_key_def split: if_splits)
      (metis append_take_drop_id full_key_no_prefix append.right_neutral)
next
  case (2 w k v)
  then show ?case by (simp add: well_def proper_cases rest_key_def)
next
  case (3 s t k v)
  then have e: "\<not> e" and pr: "proper e (PShort s t)" and k: "full_key k" "full_key k'"
    by (auto simp: well_def proper_cases rest_key_def)
  from pr k(1) show ?case
  proof (cases rule: short_cases)
    case (1 k2)
    show ?thesis
    proof (cases "take (length s) k' = s")
      case True
      then obtain k2' where k': "k' = s @ k2'" by (metis append_take_drop_id)
      then have "rest_key (hasTerm s) k2'" using k(2) rest_key_split by metis
      moreover have "well (hasTerm s) t" using pr by (simp add: well_def proper_cases)
      moreover have "prefixLen k s = length s" using 1(1) by (simp add: prefixLen_all)
      ultimately have "plookup (pinsert t k2 v) k2' = (if k2' = k2 then Some v else plookup t k2')"
        using "3.IH" [OF refl, of "hasTerm s" k2'] 1 by simp
      then show ?thesis unfolding 1(1) k' pinsert_same by simp
    next
      case False
      then show ?thesis unfolding 1(1) pinsert_same by auto
    qed
  next
    case (2 p a k2 b s2)
    show ?thesis unfolding 2(1,2) pinsert_differ [OF 2(3)]
      by (rule plookup_differ [OF k(2) 2(4,3,5,6,7)])
  qed
next
  case (4 ts v)
  then show ?case by (simp add: well_def proper_full rest_key_def)
next
  case (5 ts c k v)
  then have e: "\<not> e" and ts: "length ts = 17" "\<And>i. i \<le> 16 \<Longrightarrow> well (i = 16) (ts ! i)"
    and k: "full_key (c # k)" "full_key k'"
    by (auto simp: well_def proper_full rest_key_def)
  from k(2) obtain c' r where k': "k' = c' # r" by (cases k') auto
  have c: "unat c \<le> 16" "unat c' \<le> 16" "unat c = 16 \<longleftrightarrow> c = 16"
    using rest_key_Cons(1) [OF k(1)] rest_key_Cons(1) [of c' r] k(2)
    by (simp_all add: k' word_le_nat_alt word_unat_eq_iff)
  show ?case
  proof (cases "c' = c")
    case True
    then show ?thesis
      using "5.IH" [of "c = 16" r] ts(1) ts(2) [OF c(1), unfolded c(3)] c rest_key_Cons(2) [OF k(1)] rest_key_Cons(2) [of c' r] k(2)
      by (simp add: k' del: full_key_Cons)
  next
    case False
    then have "unat c \<noteq> unat c'" by (auto simp: word_unat_eq_iff)
    with False show ?thesis using ts c by (simp add: k')
  qed
qed

section \<open>Insertion keeps the canonical form\<close>

lemma entries_two:
  assumes "i < length ts" "j < length ts" "i \<noteq> j" "ts ! i \<noteq> PNil" "ts ! j \<noteq> PNil"
  shows "2 \<le> length (entries ts)"
proof -
  have "{i, j} \<subseteq> set (entries ts)" using assms by (auto simp: entries_def)
  then have "card {i, j} \<le> card (set (entries ts))" by (intro card_mono) auto
  also have "\<dots> \<le> length (entries ts)" by (rule card_length)
  finally show ?thesis using assms(3) by simp
qed

lemma entries_update: "t \<noteq> PNil \<Longrightarrow> length (entries ts) \<le> length (entries (ts[i := t]))"
  by (auto simp: entries_def intro!: length_filter_mono) (metis nth_list_update_eq nth_list_update_neq)

lemma proper_not_PNil [simp]: "proper e t \<Longrightarrow> t \<noteq> PNil"
  by (auto simp: proper_cases)

lemma proper_pbranch:
  assumes "a \<noteq> b" "a \<le> 16" "b \<le> 16" "proper (a = 16) s" "proper (b = 16) t"
  shows "proper False (pbranch a s b t)"
proof -
  have ab: "unat a \<le> 16" "unat b \<le> 16" "unat a \<noteq> unat b" "unat a = 16 \<longleftrightarrow> a = 16" "unat b = 16 \<longleftrightarrow> b = 16"
    using assms(1-3) by (auto simp: word_le_nat_alt word_unat_eq_iff)
  have "2 \<le> length (entries ((replicate 17 PNil)[unat a := s, unat b := t]))"
    by (rule entries_two [of "unat a" _ "unat b"]) (use ab assms(4,5) in auto)
  moreover have "well (i = 16) ((replicate 17 PNil)[unat a := s, unat b := t] ! i)" if "i \<le> 16" for i
    using that ab assms(4,5) by (auto simp: nth_list_update well_def)
  ultimately show ?thesis by (simp add: pbranch_def proper_full)
qed

lemma proper_pleaf:
  assumes "nibbles (if hasTerm s then butlast s else s)" "s \<noteq> [] \<Longrightarrow> hasTerm s \<or> is_full t"
    and "proper (if s = [] then e else hasTerm s) t" "s \<noteq> [] \<Longrightarrow> \<not> e"
  shows "proper e (pleaf s t)"
  using assms by (auto simp: pleaf_def proper_cases)

lemma is_full_pbranch [simp]: "is_full (pbranch a s b t)" "is_full (PFull ts)"
  by (simp_all add: pbranch_def is_full_def)

lemma is_value_PVal [simp]: "is_value (PVal v) \<longleftrightarrow> v \<noteq> []"
  by (simp add: is_value_def)

lemma proper_leaf_value: "rest_key e k \<Longrightarrow> v \<noteq> [] \<Longrightarrow> proper e (pleaf k (PVal v))"
  by (auto simp: pleaf_def proper_cases rest_key_def full_key_def split: if_splits)

lemma is_full_pinsert: "is_full t \<Longrightarrow> is_full (pinsert t k v)"
  by (induction t k v rule: pinsert.induct) (auto simp: is_full_def)

theorem pinsert_proper:
  assumes "well e t" "rest_key e k" "v \<noteq> []"
  shows "proper e (pinsert t k v)"
  using assms
proof (induction t k v arbitrary: e rule: pinsert.induct)
  case (1 k v)
  then show ?case by (simp add: proper_leaf_value)
next
  case (2 w k v)
  then show ?case by (simp add: well_def proper_cases)
next
  case (3 s t k v)
  then have e: "\<not> e" and pr: "proper e (PShort s t)" and k: "full_key k"
    by (auto simp: well_def proper_cases rest_key_def)
  from pr k show ?case
  proof (cases rule: short_cases)
    case (1 k2)
    have "prefixLen k s = length s" using 1(1) by (simp add: prefixLen_all)
    then have "proper (hasTerm s) (pinsert t k2 v)"
      using "3.IH" [OF refl, of "hasTerm s"] 1 pr "3.prems"(3) by (simp add: well_def proper_cases)
    then show ?thesis unfolding 1(1) pinsert_same using pr is_full_pinsert by (auto simp: proper_cases)
  next
    case (2 p a k2 b s2)
    have "proper (b = 16) (pleaf s2 t)"
      by (rule proper_pleaf) (use pr 2(8,9,10) in \<open>auto simp: proper_cases\<close>)
    then have "proper False (pbranch b (pleaf s2 t) a (pleaf k2 (PVal v)))"
      using 2 proper_leaf_value [OF 2(7) "3.prems"(3)] by (intro proper_pbranch) auto
    then show ?thesis unfolding 2(1,2) pinsert_differ [OF 2(3)]
      using e 2(4) nibbles_not_term [OF 2(4)] by (intro proper_pleaf) auto
  qed
next
  case (4 ts v)
  then show ?case by (simp add: well_def proper_full rest_key_def)
next
  case (5 ts c k v)
  then have e: "\<not> e" and ts: "length ts = 17" "\<And>i. i \<le> 16 \<Longrightarrow> well (i = 16) (ts ! i)" "2 \<le> length (entries ts)"
    and k: "full_key (c # k)"
    by (auto simp: well_def proper_full rest_key_def)
  have c: "unat c \<le> 16" "unat c = 16 \<longleftrightarrow> c = 16"
    using rest_key_Cons(1) [OF k] by (simp_all add: word_le_nat_alt word_unat_eq_iff)
  have child: "proper (c = 16) (pinsert (ts ! unat c) k v)"
    using "5.IH" [of "c = 16"] ts(1) ts(2) [OF c(1), unfolded c(2)] c(1) rest_key_Cons(2) [OF k] "5.prems"(3) by simp
  let ?us = "ts[unat c := pinsert (ts ! unat c) k v]"
  have "well (i = 16) (?us ! i)" if "i \<le> 16" for i
    using ts(1) ts(2) [OF that] child c by (cases "i = unat c") (auto simp: well_def)
  moreover have "2 \<le> length (entries ?us)"
    by (rule le_trans [OF ts(3) entries_update [OF proper_not_PNil [OF child]]])
  ultimately show ?case using e ts(1) c by (simp add: proper_full)
qed

section \<open>Deletion\<close>

lemma proper_pjoin:
  assumes "proper False t" "nibbles s" "s \<noteq> []"
  shows "proper False (pjoin s t)"
proof (cases t)
  case (PShort k u)
  with assms have k: "k \<noteq> []" "hasTerm k \<or> is_full u" "nibbles (if hasTerm k then butlast k else k)"
    "proper (hasTerm k) u" by (simp_all add: proper_cases)
  have "hasTerm (s @ k) = hasTerm k" using k(1) by (simp add: hasTerm_def)
  with k assms(2) PShort show ?thesis by (auto simp: pjoin_def proper_cases butlast_append)
next
  case (PFull ts)
  with assms show ?thesis by (auto simp: pjoin_def pleaf_def proper_cases nibbles_not_term)
qed (use assms in \<open>simp_all add: proper_cases\<close>)

lemma plookup_pjoin:
  "plookup (pjoin s t) k = (if take (length s) k = s then plookup t (drop (length s) k) else None)"
proof (cases t)
  case (PShort r u)
  have "take (length (s @ r)) k = s @ r \<longleftrightarrow> take (length s) k = s \<and> take (length r) (drop (length s) k) = r"
    by (cases "length s \<le> length k") (auto simp: take_add)
  with PShort show ?thesis by (simp add: pjoin_def add.commute)
qed (auto simp: pjoin_def plookup_pleaf)

lemma entries_mem: "i \<in> set (entries ts) \<longleftrightarrow> i < length ts \<and> ts ! i \<noteq> PNil"
  by (auto simp: entries_def)

lemma distinct_entries: "distinct (entries ts)"
  by (simp add: entries_def)

lemma entries_other:
  assumes "2 \<le> length (entries ts)"
  obtains j where "j < length ts" "j \<noteq> i" "ts ! j \<noteq> PNil"
proof -
  have "\<not> set (entries ts) \<subseteq> {i}"
  proof
    assume "set (entries ts) \<subseteq> {i}"
    then have "card (set (entries ts)) \<le> card {i}" by (intro card_mono) auto
    with assms show False using distinct_card [OF distinct_entries, of ts] by simp
  qed
  then obtain j where "j \<in> set (entries ts)" "j \<noteq> i" by blast
  with that [of j] show ?thesis by (simp add: entries_mem)
qed

text \<open>A full node whose entries are in order, of which at least one is left.\<close>

lemma preduce_correct:
  assumes "length ts = 17" "\<And>i. i \<le> 16 \<Longrightarrow> well (i = 16) (ts ! i)" "j \<le> 16" "ts ! j \<noteq> PNil"
  shows "proper False (preduce ts)" "full_key k \<Longrightarrow> plookup (preduce ts) k = plookup (PFull ts) k"
proof -
  have ne: "entries ts \<noteq> []" using assms(1,3,4) entries_mem [of j ts] by auto
  have "proper False (preduce ts) \<and> (full_key k \<longrightarrow> plookup (preduce ts) k = plookup (PFull ts) k)"
  proof (cases "length (entries ts) = 1")
    case True
    then obtain i where i: "entries ts = [i]" by (auto simp: length_Suc_conv)
    then have mem: "x < 17 \<and> ts ! x \<noteq> PNil \<longleftrightarrow> x = i" for x
      using entries_mem [of x ts] assms(1) by simp
    have i16: "i \<le> 16" "ts ! i \<noteq> PNil" using mem [of i] by simp_all
    have other: "ts ! x = PNil" if "x \<le> 16" "x \<noteq> i" for x using mem [of x] that by simp
    have pr: "proper (i = 16) (ts ! i)" using assms(2) [OF i16(1)] i16(2) by (simp add: well_def)
    have u: "unat (of_nat i :: byte) = i" using i16(1) by (simp add: unat_of_nat)
    have eq: "preduce ts = pjoin [of_nat i] (ts ! i)"
    proof (cases "i = 16")
      case True
      with pr obtain v where "ts ! 16 = PVal v" by (auto simp: proper_def is_value_def)
      with True show ?thesis by (simp add: preduce_def i pjoin_def pleaf_def)
    qed (simp add: preduce_def i)
    have lk: "plookup (preduce ts) k = plookup (PFull ts) k" if "full_key k"
    proof -
      from that obtain c r where k: "k = c # r" by (cases k) auto
      then have c: "unat c \<le> 16" using rest_key_Cons(1) [of c r] that by (simp add: word_le_nat_alt)
      show ?thesis
      proof (cases "c = of_nat i")
        case True
        then show ?thesis using u assms(1) i16(1) by (simp add: eq plookup_pjoin k)
      next
        case False
        then have "unat c \<noteq> i" using u by (auto simp: word_unat_eq_iff)
        then show ?thesis using False other [OF c] c assms(1) by (simp add: eq plookup_pjoin k)
      qed
    qed
    moreover have "proper False (preduce ts)"
    proof (cases "i = 16")
      case True
      with pr obtain v where "ts ! i = PVal v" "v \<noteq> []" by (auto simp: proper_def is_value_def)
      with True show ?thesis by (simp add: eq pjoin_def pleaf_def proper_cases hasTerm_def)
    next
      case False
      with i16 u have "of_nat i < (16 :: byte)" by (simp add: word_less_nat_alt)
      with pr False show ?thesis unfolding eq by (intro proper_pjoin) simp_all
    qed
    ultimately show ?thesis by blast
  next
    case False
    with ne have two: "2 \<le> length (entries ts)" by (cases "entries ts") (auto simp: Suc_le_eq)
    then have "preduce ts = PFull ts" by (auto simp: preduce_def split: list.split)
    with two assms(1,2) show ?thesis by (simp add: proper_full)
  qed
  then show "proper False (preduce ts)" "full_key k \<Longrightarrow> plookup (preduce ts) k = plookup (PFull ts) k"
    by simp_all
qed

lemma unat_nibble:
  assumes "full_key (c # k)"
  shows "unat c \<le> 16" "unat c = 16 \<longleftrightarrow> c = 16"
  using rest_key_Cons(1) [OF assms] by (simp_all add: word_le_nat_alt word_unat_eq_iff)

lemma plookup_update:
  assumes "full_key (c # k)" "full_key k'" "length ts = 17"
    and "\<And>r. rest_key (c = 16) r \<Longrightarrow> plookup u r = (if r = k then x else plookup (ts ! unat c) r)"
  shows "plookup (PFull (ts[unat c := u])) k' = (if k' = c # k then x else plookup (PFull ts) k')"
proof -
  from assms(2) obtain c' r where k': "k' = c' # r" by (cases k') auto
  have c: "unat c \<le> 16" "unat c' \<le> 16" using unat_nibble(1) assms(1,2) k' by blast+
  show ?thesis
  proof (cases "c' = c")
    case True
    then show ?thesis using assms(3) c assms(4) [of r] rest_key_Cons(2) [of c' r] assms(2) by (simp add: k' del: full_key_Cons)
  next
    case False
    then have "unat c \<noteq> unat c'" by (auto simp: word_unat_eq_iff)
    with False show ?thesis using assms(3) c by (simp add: k')
  qed
qed

lemma pdelete_correct:
  assumes "well e t" "rest_key e k"
  shows "well e (pdelete t k) \<and> (is_full t \<longrightarrow> pdelete t k \<noteq> PNil) \<and>
    (\<forall>k'. rest_key e k' \<longrightarrow> plookup (pdelete t k) k' = (if k' = k then None else plookup t k'))"
  using assms
proof (induction t k arbitrary: e rule: pdelete.induct)
  case (2 w k)
  then show ?case by (auto simp: well_def proper_cases rest_key_def is_full_def)
next
  case (3 s t k)
  then have e: "\<not> e" and pr: "proper e (PShort s t)" and k: "full_key k"
    by (auto simp: well_def proper_cases rest_key_def)
  show ?case
  proof (cases "take (length s) k = s")
    case True
    then obtain k2 where k2: "k = s @ k2" by (metis append_take_drop_id)
    with k have rk: "rest_key (hasTerm s) k2" by (simp add: rest_key_split)
    show ?thesis
    proof (cases "hasTerm s")
      case True
      with rk have "k2 = []" by (simp add: rest_key_def)
      moreover have "take (length s) k' = s \<longleftrightarrow> k' = s" if "full_key k'" for k'
        using rest_key_take [of False k k'] that k \<open>k2 = []\<close> k2 by (simp add: rest_key_def)
      ultimately show ?thesis using e k2 by (auto simp: rest_key_def is_full_def)
    next
      case False
      then have t: "is_full t" "nibbles s" "s \<noteq> []" "well False t" and rk: "rest_key False k2"
        using pr rk by (auto simp: proper_cases well_def)
      have "k2 \<noteq> []" using rk by (auto simp: rest_key_def)
      have IH: "well False (pdelete t k2)" "pdelete t k2 \<noteq> PNil"
        "\<And>r. full_key r \<Longrightarrow> plookup (pdelete t k2) r = (if r = k2 then None else plookup t r)"
        using "3.IH" [where e = False] t rk k2 \<open>k2 \<noteq> []\<close> by (auto simp: rest_key_def)
      have "proper False (pjoin s (pdelete t k2))"
        using IH(1,2) t by (intro proper_pjoin) (simp_all add: well_def)
      moreover have "plookup (pjoin s (pdelete t k2)) k' = (if k' = k then None else plookup (PShort s t) k')"
        if "full_key k'" for k'
      proof (cases "take (length s) k' = s")
        case True
        then obtain r where r: "k' = s @ r" by (metis append_take_drop_id)
        then have "full_key r" using that t(2) by (cases "r = []") (auto simp: full_key_append dest: full_key_not_nibbles)
        then show ?thesis using IH(3) [of r] by (simp add: plookup_pjoin r k2)
      qed (auto simp: plookup_pjoin k2)
      ultimately show ?thesis using e k2 \<open>k2 \<noteq> []\<close> by (auto simp: well_def rest_key_def is_full_def)
    qed
  next
    case False
    then show ?thesis using "3.prems" by (auto simp: is_full_def)
  qed
next
  case (4 ts)
  then show ?case by (simp add: well_def proper_full rest_key_def)
next
  case (5 ts c k)
  then have e: "\<not> e" and ts: "length ts = 17" "\<And>i. i \<le> 16 \<Longrightarrow> well (i = 16) (ts ! i)" "2 \<le> length (entries ts)"
    and k: "full_key (c # k)"
    by (auto simp: well_def proper_full rest_key_def)
  note c = unat_nibble [OF k]
  let ?u = "pdelete (ts ! unat c) k" let ?us = "ts[unat c := ?u]"
  have IH: "well (c = 16) ?u"
    "\<And>r. rest_key (c = 16) r \<Longrightarrow> plookup ?u r = (if r = k then None else plookup (ts ! unat c) r)"
    using "5.IH" [of "c = 16"] ts(1) ts(2) [OF c(1), unfolded c(2)] c(1) rest_key_Cons(2) [OF k] by auto
  from entries_other [OF ts(3)] obtain j where j: "j \<le> 16" "j \<noteq> unat c" "ts ! j \<noteq> PNil"
    using ts(1) by (metis less_Suc_eq_le numeral_eq_Suc pred_numeral_simps(3) eval_nat_numeral(3))
  have us: "length ?us = 17" "well (i = 16) (?us ! i)" if "i \<le> 16" for i
    using ts(1) ts(2) [OF that] IH(1) c by (cases "i = unat c"; simp)+
  have "proper False (preduce ?us)" "full_key k' \<Longrightarrow> plookup (preduce ?us) k' = plookup (PFull ?us) k'" for k'
    using preduce_correct(1) [of ?us j] preduce_correct(2) [of ?us j k'] us j ts(1) by auto
  moreover have "plookup (PFull ?us) k' = (if k' = c # k then None else plookup (PFull ts) k')" if "full_key k'" for k'
    by (rule plookup_update [OF k that ts(1) IH(2)])
  ultimately show ?case using e ts(1) c(1) by (auto simp: well_def rest_key_def simp del: plookup.simps)
qed (simp add: is_full_def)

section \<open>A canonical tree is determined by its content\<close>

definition same_content :: "bool \<Rightarrow> ptrie \<Rightarrow> ptrie \<Rightarrow> bool" where
  "same_content e t u = (\<forall>k. rest_key e k \<longrightarrow> plookup t k = plookup u k)"

lemma same_content_sym: "same_content e t u \<Longrightarrow> same_content e u t"
  by (simp add: same_content_def)

lemma child_key:
  assumes "length ts = 17" "i \<le> 16" "rest_key (i = 16) k"
  shows "full_key (of_nat i # k)" "plookup (PFull ts) (of_nat i # k) = plookup (ts ! i) k"
proof -
  have u: "unat (of_nat i :: byte) = i" using assms(2) by (simp add: unat_of_nat)
  then have "of_nat i = (16 :: byte) \<longleftrightarrow> i = 16" by (auto simp: word_unat_eq_iff)
  moreover have "i \<noteq> 16 \<Longrightarrow> of_nat i < (16 :: byte)" using u assms(2) by (simp add: word_less_nat_alt)
  ultimately show "full_key (of_nat i # k)" using assms(3) by (auto simp: rest_key_def split: if_splits)
  show "plookup (PFull ts) (of_nat i # k) = plookup (ts ! i) k" using u assms(1,2) by simp
qed

lemma full_key_short: "proper e (PShort s t) \<Longrightarrow> rest_key (hasTerm s) k \<Longrightarrow> full_key (s @ k)"
  by (cases "hasTerm s") (auto simp: proper_cases rest_key_def full_key_append, simp add: full_key_def)

lemma proper_nonempty: "proper e t \<Longrightarrow> \<exists>k. rest_key e k \<and> plookup t k \<noteq> None"
proof (induction t arbitrary: e)
  case (PShort s t)
  then have "proper (hasTerm s) t" by (simp add: proper_cases)
  with PShort.IH obtain k where "rest_key (hasTerm s) k" "plookup t k \<noteq> None" by blast
  moreover from this(1) PShort.prems have "full_key (s @ k)" by (simp add: full_key_short)
  ultimately show ?case using PShort.prems by (intro exI [of _ "s @ k"]) (simp add: proper_cases rest_key_def)
next
  case (PFull ts)
  then have ts: "length ts = 17" "\<And>i. i \<le> 16 \<Longrightarrow> well (i = 16) (ts ! i)" "2 \<le> length (entries ts)" and e: "\<not> e"
    by (simp_all add: proper_full)
  from entries_other [OF ts(3), of 17] obtain j where j: "j < 17" "ts ! j \<noteq> PNil" using ts(1) by metis
  then have "proper (j = 16) (ts ! j)" using ts(2) [of j] by (simp add: well_def)
  with PFull.IH [of "ts ! j"] ts(1) j obtain k where "rest_key (j = 16) k" "plookup (ts ! j) k \<noteq> None"
    by fastforce
  with child_key [OF ts(1), of j k] j(1) e have "rest_key e (of_nat j # k)" "plookup (PFull ts) (of_nat j # k) \<noteq> None"
    by (simp_all del: full_key_Cons plookup.simps)
  then show ?case by blast
qed (auto simp: proper_cases rest_key_def)

text \<open>The keys in a full node start in two different ways.\<close>

lemma full_two_heads:
  assumes "proper False (PFull ts)"
  obtains c k where "c \<noteq> d" "full_key (c # k)" "plookup (PFull ts) (c # k) \<noteq> None"
proof -
  have ts: "length ts = 17" "\<And>i. i \<le> 16 \<Longrightarrow> well (i = 16) (ts ! i)" "2 \<le> length (entries ts)"
    using assms by (simp_all add: proper_full)
  from entries_other [OF ts(3), of "unat d"] obtain j where j: "j < 17" "j \<noteq> unat d" "ts ! j \<noteq> PNil"
    using ts(1) by metis
  then have "proper (j = 16) (ts ! j)" using ts(2) [of j] by (simp add: well_def)
  then obtain k where k: "rest_key (j = 16) k" "plookup (ts ! j) k \<noteq> None" using proper_nonempty by blast
  have "(of_nat j :: byte) \<noteq> d" using j(1,2) by (auto simp: word_unat_eq_iff unat_of_nat)
  with child_key [OF ts(1), of j k] j k that show ?thesis by simp
qed

lemma short_not_full:
  assumes "proper False (PShort s t)" "proper False (PFull ts)"
  shows "\<not> same_content False (PShort s t) (PFull ts)"
proof
  assume same: "same_content False (PShort s t) (PFull ts)"
  from full_two_heads [OF assms(2), of "hd s"] obtain c k where
    c: "c \<noteq> hd s" "full_key (c # k)" "plookup (PFull ts) (c # k) \<noteq> None" by metis
  moreover have "s \<noteq> []" using assms(1) by (simp add: proper_cases)
  then have "plookup (PShort s t) (c # k) = None" using c(1) by (cases s) auto
  ultimately show False using same by (simp add: same_content_def rest_key_def del: plookup.simps)
qed

text \<open>A short node that has a longer key than another one does not have all keys of it.\<close>

lemma short_longer:
  assumes "proper False (PShort s t)" "proper False (PShort (s @ c # r) u)"
  shows "\<not> same_content False (PShort s t) (PShort (s @ c # r) u)"
proof
  assume same: "same_content False (PShort s t) (PShort (s @ c # r) u)"
  have "\<not> hasTerm s"
  proof
    assume "hasTerm s"
    with assms(1) have "full_key s" by (simp add: proper_cases full_key_def)
    moreover have "full_key (s @ c # r) \<or> nibbles (s @ c # r)"
      using assms(2) by (auto simp: proper_cases full_key_def split: if_splits)
    ultimately show False using full_key_no_prefix [of s "c # r"] full_key_not_nibbles [of s] by auto
  qed
  with assms(1) obtain ts where ts: "t = PFull ts" "proper False (PFull ts)" "nibbles s"
    by (auto simp: proper_cases is_full_def)
  from full_two_heads [OF ts(2), of c] obtain c' k where
    c': "c' \<noteq> c" "full_key (c' # k)" "plookup (PFull ts) (c' # k) \<noteq> None" by metis
  then have "full_key (s @ c' # k)" using ts(3) by (simp add: full_key_append)
  moreover have "plookup (PShort s t) (s @ c' # k) \<noteq> None" using c'(3) ts(1) by simp
  moreover have "plookup (PShort (s @ c # r) u) (s @ c' # k) = None" using c'(1) by simp
  ultimately show False using same by (simp add: same_content_def rest_key_def del: plookup.simps)
qed

lemma prefix_compare:
  fixes a b :: "'a list"
  obtains "a = b" | c r where "b = a @ c # r" | c r where "a = b @ c # r"
    | p x xs y ys where "a = p @ x # xs" "b = p @ y # ys" "x \<noteq> y"
proof (induction a arbitrary: b thesis)
  case Nil
  then show ?case by (cases b) auto
next
  case (Cons x xs)
  show ?case
  proof (cases b)
    case Nil
    then show ?thesis using Cons.prems(3) by simp
  next
    case b: (Cons y ys)
    show ?thesis
    proof (cases "x = y")
      case True
      show ?thesis
        by (rule Cons.IH [of ys]) (use True b Cons.prems in \<open>auto intro: append_Cons [symmetric]\<close>,
          metis append_Cons)
    next
      case False
      then show ?thesis using Cons.prems(4) [of "[]" x xs y ys] b by simp
    qed
  qed
qed

lemma short_unique:
  assumes "proper False (PShort s t)" "proper False (PShort s' u)"
    and "same_content False (PShort s t) (PShort s' u)"
  shows "s = s'"
proof (cases rule: prefix_compare [of s s'])
  case (4 p x xs y ys)
  have "proper (hasTerm s) t" using assms(1) by (simp add: proper_cases)
  then obtain k where k: "rest_key (hasTerm s) k" "plookup t k \<noteq> None" using proper_nonempty by blast
  have "plookup (PShort s' u) (s @ k) = None" using 4 by simp
  with k(2) assms(3) full_key_short [OF assms(1) k(1)] show ?thesis
    by (force simp: same_content_def rest_key_def)
next
  case (2 c r)
  with short_longer [OF assms(1)] assms(2,3) show ?thesis by blast
next
  case (3 c r)
  with short_longer [OF assms(2)] assms(1) same_content_sym [OF assms(3)] show ?thesis by blast
qed

theorem canonical_unique:
  assumes "proper e t" "proper e u" "same_content e t u"
  shows "t = u"
  using assms
proof (induction t arbitrary: e u)
  case (PVal v)
  then show ?case
    by (cases u) (auto simp: proper_cases proper_full same_content_def rest_key_def)
next
  case (PShort s t)
  then have e: "e = False" by (simp add: proper_cases)
  show ?case
  proof (cases u)
    case (PShort s' u')
    then have s: "s' = s" using short_unique PShort.prems e by auto
    have "same_content (hasTerm s) t u'"
      unfolding same_content_def
    proof (intro allI impI)
      fix k assume "rest_key (hasTerm s) k"
      then have "full_key (s @ k)" using full_key_short \<open>proper e (PShort s t)\<close> by blast
      then show "plookup t k = plookup u' k"
        using \<open>same_content e (PShort s t) u\<close> e PShort s by (force simp: same_content_def rest_key_def)
    qed
    then show ?thesis using PShort.IH [of "hasTerm s" u'] PShort.prems PShort s by (simp add: proper_cases)
  qed (use PShort.prems e short_not_full in \<open>auto simp: proper_cases\<close>)
next
  case (PFull ts)
  then have e: "e = False" by (simp add: proper_full)
  show ?case
  proof (cases u)
    case (PFull us)
    have len: "length ts = 17" "length us = 17" using PFull.prems(1,2) PFull by (simp_all add: proper_full)
    have "ts ! i = us ! i" if "i < 17" for i
    proof -
      have i: "i \<le> 16" using that by simp
      have w: "well (i = 16) (ts ! i)" "well (i = 16) (us ! i)"
        using PFull.prems(1,2) PFull i by (simp_all add: proper_full)
      have same: "same_content (i = 16) (ts ! i) (us ! i)"
        unfolding same_content_def
      proof (intro allI impI)
        fix k assume k: "rest_key (i = 16) k"
        from child_key(1) [OF len(1) i k] have "plookup (PFull ts) (of_nat i # k) = plookup (PFull us) (of_nat i # k)"
          using PFull.prems(3) PFull e by (simp add: same_content_def rest_key_def del: plookup.simps full_key_Cons)
        then show "plookup (ts ! i) k = plookup (us ! i) k"
          unfolding child_key(2) [OF len(1) i k] child_key(2) [OF len(2) i k] .
      qed
      show ?thesis
      proof (cases "ts ! i = PNil \<or> us ! i = PNil")
        case True
        with w same proper_nonempty show ?thesis by (force simp: well_def same_content_def)
      next
        case False
        with w PFull.IH [of "ts ! i" "i = 16" "us ! i"] same len that show ?thesis by (simp add: well_def)
      qed
    qed
    then show ?thesis using PFull len by (simp add: nth_equalityI)
  next
    case (PShort s' u')
    with PFull.prems e short_not_full [of s' u' ts] same_content_sym [OF PFull.prems(3)] show ?thesis by simp
  qed (use PFull.prems e in \<open>auto simp: proper_cases\<close>)
qed (simp add: proper_cases)

end
