(* ===== verification/Trie_Hasher.thy ===== *)
theory Trie_Hasher
  imports Patricia_Trie Trie_Canonical
begin

text \<open>
  Hashing and storing a trie (\<^verbatim>\<open>trie/hasher.go\<close>): a node is replaced by the hash of its encoding when the
  encoding has at least 32 bytes, hashes are cached in the nodes. The RLP encoding of items and the
  hash function are parameters; \<open>to_rlp\<close> is the shape in which nodes are encoded.
\<close>

section \<open>Encoding of nodes\<close>

datatype rlp_item = RStr "byte list" | RList "rlp_item list"

record hash_env =
  rlp_bytes :: "rlp_item \<Rightarrow> byte list"
  blake2b :: "byte list \<Rightarrow> byte list"

fun to_rlp :: "node \<Rightarrow> rlp_item" where
  "to_rlp (ShortNode k v fl) = RList [RStr k, case v of None \<Rightarrow> RList [] | Some m \<Rightarrow> to_rlp m]"
| "to_rlp (FullNode cs fl) = RList (map (\<lambda>c. case c of None \<Rightarrow> RList [] | Some m \<Rightarrow> to_rlp m) cs)"
| "to_rlp (HashNode h) = RStr h"
| "to_rlp (ValueNode v) = RStr v"

section \<open>The hasher\<close>

text \<open>
  A computation that may fail and writes to the database. A write is the hash, the path and
  the encoding; \<open>put_error\<close> is the error the database returns for it.
\<close>

type_synonym db_put = "byte list \<times> byte list \<times> byte list"
type_synonym 'a hres = "(string + 'a) \<times> db_put list"

definition bind_h :: "'a hres \<Rightarrow> ('a \<Rightarrow> 'b hres) \<Rightarrow> 'b hres" where
  "bind_h m f =
     (case m of
        (Inl e, ws) \<Rightarrow> (Inl e, ws)
      | (Inr a, ws) \<Rightarrow> (case f a of (r, ws') \<Rightarrow> (r, ws @ ws')))"

type_synonym writer = "(db_put \<Rightarrow> string option) option"

fun cache :: "node \<Rightarrow> byte list option \<times> bool" where
  "cache (FullNode cs fl) = (fl_hash fl, fl_dirty fl)"
| "cache (ShortNode k v fl) = (fl_hash fl, fl_dirty fl)"
| "cache (HashNode h) = (None, True)"
| "cache (ValueNode v) = (None, True)"

text \<open>The cached hash as far as \<open>hash\<close> uses it: the hash and the node that replaces \<open>n\<close>.\<close>

definition use_cache :: "writer \<Rightarrow> node \<Rightarrow> (node \<times> node) option" where
  "use_cache db n =
     (case cache n of
        (Some hash, dirty) \<Rightarrow>
          (if db = None then Some (HashNode hash, n)
           else if \<not> dirty then Some (HashNode hash, HashNode hash)
           else None)
      | (None, _) \<Rightarrow> None)"

definition store_node :: "hash_env \<Rightarrow> writer \<Rightarrow> node \<Rightarrow> byte list \<Rightarrow> bool \<Rightarrow> node hres" where
  "store_node E db n path force =
     (case n of
        HashNode h \<Rightarrow> (Inr n, [])
      | _ \<Rightarrow>
          (let tmp = rlp_bytes E (to_rlp n) in
           if length tmp < 32 \<and> \<not> force then (Inr n, [])
           else
             (let hash = (case fst (cache n) of Some h \<Rightarrow> h | None \<Rightarrow> blake2b E tmp) in
              case db of
                None \<Rightarrow> (Inr (HashNode hash), [])
              | Some put_error \<Rightarrow>
                  (case put_error (hash, path, tmp) of
                     None \<Rightarrow> (Inr (HashNode hash), [(hash, path, tmp)])
                   | Some e \<Rightarrow> (Inl e, [])))))"

fun set_cache :: "writer \<Rightarrow> node \<Rightarrow> node \<Rightarrow> node" where
  "set_cache db hashed (ShortNode k v fl) =
     ShortNode k v \<lparr>fl_hash = (case hashed of HashNode h \<Rightarrow> Some h | _ \<Rightarrow> None),
       fl_dirty = (db = None \<and> fl_dirty fl)\<rparr>"
| "set_cache db hashed (FullNode cs fl) =
     FullNode cs \<lparr>fl_hash = (case hashed of HashNode h \<Rightarrow> Some h | _ \<Rightarrow> None),
       fl_dirty = (db = None \<and> fl_dirty fl)\<rparr>"
| "set_cache db hashed n = n"

definition empty_value :: "node option \<Rightarrow> node option" where
  "empty_value n = (case n of None \<Rightarrow> Some (ValueNode []) | Some m \<Rightarrow> Some m)"

lemma size_node_child [termination_simp]:
  "Some m \<in> set (take n cs) \<Longrightarrow> size m < Suc (size_list (size_option size) cs)"
  by (induction cs arbitrary: n) (auto simp: take_Cons split: nat.splits, fastforce)

lemma size_list_take [termination_simp]: "size_list f (take n cs) \<le> size_list f cs"
  by (induction cs arbitrary: n) (auto simp: take_Cons split: nat.splits)

fun hash_node :: "hash_env \<Rightarrow> writer \<Rightarrow> node \<Rightarrow> byte list \<Rightarrow> bool \<Rightarrow> (node \<times> node) hres"
  and hash_kids :: "hash_env \<Rightarrow> writer \<Rightarrow> nat \<Rightarrow> node option list \<Rightarrow> byte list \<Rightarrow>
    (node option list \<times> node option list) hres"
  where
  "hash_node E db n path force =
     (case use_cache db n of
        Some r \<Rightarrow> (Inr r, [])
      | None \<Rightarrow>
          bind_h
            (case n of
               ShortNode k v fl \<Rightarrow>
                 (case hexToCompact k of
                    Inl e \<Rightarrow> (Inl e, [])
                  | Inr ck \<Rightarrow>
                      (case v of
                         None \<Rightarrow> (Inl ''nil pointer dereference'', [])
                       | Some (ValueNode x) \<Rightarrow> (Inr (ShortNode ck v fl, n), [])
                       | Some m \<Rightarrow>
                           bind_h (hash_node E db m (path @ k) False)
                             (\<lambda>(h, c). (Inr (ShortNode ck (Some h) fl, ShortNode k (Some c) fl), []))))
             | FullNode cs fl \<Rightarrow>
                 bind_h (hash_kids E db 0 (take 16 cs) path)
                   (\<lambda>(hs, ks). (Inr (FullNode (hs @ [empty_value (cs ! 16)]) fl,
                                     FullNode (ks @ [cs ! 16]) fl), []))
             | _ \<Rightarrow> (Inr (n, n), []))
            (\<lambda>(collapsed, cached).
               bind_h (store_node E db collapsed path force)
                 (\<lambda>hashed. (Inr (hashed, set_cache db hashed cached), []))))"
| "hash_kids E db i [] path = (Inr ([], []), [])"
| "hash_kids E db i (None # cs) path =
     bind_h (hash_kids E db (Suc i) cs path)
       (\<lambda>(hs, ks). (Inr (Some (ValueNode []) # hs, None # ks), []))"
| "hash_kids E db i (Some m # cs) path =
     bind_h (hash_node E db m (path @ [of_nat i]) False)
       (\<lambda>(h, c). bind_h (hash_kids E db (Suc i) cs path)
          (\<lambda>(hs, ks). (Inr (Some h # hs, Some c # ks), [])))"

declare hash_node.simps [simp del]

text \<open>\<open>hashRoot\<close>, \<open>Hash\<close> and \<open>CommitTo\<close>: the root hash and the root that replaces the old one.\<close>

definition hashRoot ::
    "hash_env \<Rightarrow> byte list \<Rightarrow> writer \<Rightarrow> node option \<Rightarrow> (node \<times> node option) hres" where
  "hashRoot E emptyRoot db root =
     (case root of
        None \<Rightarrow> (Inr (HashNode emptyRoot, None), [])
      | Some n \<Rightarrow> bind_h (hash_node E db n [] True) (\<lambda>(h, c). (Inr (h, Some c), [])))"

definition HashTrie ::
    "hash_env \<Rightarrow> byte list \<Rightarrow> node option \<Rightarrow> string + byte list \<times> node option" where
  "HashTrie E emptyRoot root =
     (case fst (hashRoot E emptyRoot None root) of
        Inr (HashNode h, cached) \<Rightarrow> Inr (h, cached)
      | Inr _ \<Rightarrow> Inl ''interface conversion''
      | Inl e \<Rightarrow> Inl e)"

definition CommitTo ::
    "hash_env \<Rightarrow> byte list \<Rightarrow> (db_put \<Rightarrow> string option) \<Rightarrow> node option \<Rightarrow> (byte list \<times> node option) hres" where
  "CommitTo E emptyRoot db root =
     bind_h (hashRoot E emptyRoot (Some db) root)
       (\<lambda>(hash, cached). (case hash of HashNode h \<Rightarrow> Inr (h, cached) | _ \<Rightarrow> Inl ''interface conversion'', []))"

end
