(* ===== verification/Trie_Map.thy ===== *)
theory Trie_Map
  imports Trie_Hasher
begin

text \<open>
  The operations of \<open>Patricia_Trie\<close> refine those on fully loaded trees: on a node that represents a
  canonical tree in the database they return, without an error, and represent the tree
  that the pure operation gives. With the facts on canonical trees the trie is a map from
  keys to values whose form depends on nothing but the map.
\<close>

section \<open>Hashes of trees\<close>

text \<open>An item inside another one: by its hash, if it is long.\<close>

definition embed :: "hash_env \<Rightarrow> rlp_item \<Rightarrow> rlp_item" where
  "embed E x = (if 32 \<le> length (rlp_bytes E x) then RStr (blake2b E (rlp_bytes E x)) else x)"

definition value_item :: "ptrie \<Rightarrow> rlp_item" where
  "value_item t = RStr (case t of PVal v \<Rightarrow> v | _ \<Rightarrow> [])"

fun pitem :: "hash_env \<Rightarrow> ptrie \<Rightarrow> rlp_item" where
  "pitem E PNil = RStr []"
| "pitem E (PVal v) = RStr v"
| "pitem E (PShort k t) =
     RList [RStr (case hexToCompact k of Inr ck \<Rightarrow> ck | Inl _ \<Rightarrow> []),
       if is_full t then embed E (pitem E t) else value_item t]"
| "pitem E (PFull ts) =
     RList (map (\<lambda>t. if t = PNil then RStr [] else embed E (pitem E t)) (take 16 ts) @ [value_item (ts ! 16)])"

definition encoding :: "hash_env \<Rightarrow> ptrie \<Rightarrow> byte list" where
  "encoding E t = rlp_bytes E (pitem E t)"

definition node_hash :: "hash_env \<Rightarrow> ptrie \<Rightarrow> byte list" where
  "node_hash E t = blake2b E (encoding E t)"

text \<open>A tree has a hash of its own at the root and where its encoding is too long to be embedded.\<close>

definition hashed_at :: "hash_env \<Rightarrow> bool \<Rightarrow> ptrie \<Rightarrow> byte list \<Rightarrow> bool" where
  "hashed_at E r t h = (h = node_hash E t \<and> (r \<or> 32 \<le> length (encoding E t)))"

definition flag_ok :: "hash_env \<Rightarrow> bool \<Rightarrow> nodeFlag \<Rightarrow> ptrie \<Rightarrow> bool" where
  "flag_ok E r fl t = (\<forall>h. fl_hash fl = Some h \<longrightarrow> hashed_at E r t h)"

lemma newFlag_ok [simp]: "flag_ok E r newFlag t"
  by (simp add: flag_ok_def newFlag_def)

section \<open>The tree that a node stands for\<close>

text \<open>
  \<open>loads E db rt p n t\<close>: the node \<open>n\<close> at the path \<open>p\<close> (the root, if \<open>rt\<close>) stands for the tree \<open>t\<close>, and the hashes that are
  cached in it are those of the subtrees. A reference is the hash of what it stands for and is resolved to a decoded
  node, which is a short or a full node.
\<close>

fun decoded :: "node \<Rightarrow> bool" where
  "decoded (ShortNode k v fl) = True"
| "decoded (FullNode cs fl) = True"
| "decoded _ = False"

inductive loads :: "hash_env \<Rightarrow> database \<Rightarrow> bool \<Rightarrow> byte list \<Rightarrow> node option \<Rightarrow> ptrie \<Rightarrow> bool" for E db where
  nil: "loads E db rt p None PNil"
| val: "loads E db rt p (Some (ValueNode v)) (PVal v)"
| short: "loads E db False (p @ k) v t \<Longrightarrow> flag_ok E rt fl (PShort k t) \<Longrightarrow>
    loads E db rt p (Some (ShortNode k v fl)) (PShort k t)"
| full: "length cs = length ts \<Longrightarrow>
    (\<And>i. i < length cs \<Longrightarrow> loads E db False (p @ [of_nat i]) (cs ! i) (ts ! i)) \<Longrightarrow>
    flag_ok E rt fl (PFull ts) \<Longrightarrow> loads E db rt p (Some (FullNode cs fl)) (PFull ts)"
| hash: "resolveHash db h p = Inr n \<Longrightarrow> decoded n \<Longrightarrow> hashed_at E rt t h \<Longrightarrow> loads E db rt p (Some n) t \<Longrightarrow>
    loads E db rt p (Some (HashNode h)) t"

inductive_cases loads_nodeE:
  "loads E db rt p (Some (ShortNode k v fl)) t"
  "loads E db rt p (Some (FullNode cs fl)) t"
  "loads E db rt p (Some (ValueNode v)) t"
  "loads E db rt p None t"

lemma loads_nil_iff: "loads E db rt p n t \<Longrightarrow> n = None \<longleftrightarrow> t = PNil"
  by (induction rule: loads.induct) auto

lemma loads_decoded: "loads E db rt p (Some n) t \<Longrightarrow> decoded n \<Longrightarrow> \<not> well True t"
  by (cases n) (auto simp: well_def proper_cases proper_full elim: loads_nodeE)

lemma loads_leaf:
  "loads E db False (p @ k) v t \<Longrightarrow> loads E db False p (if k = [] then v else Some (ShortNode k v newFlag)) (pleaf k t)"
  by (auto simp: pleaf_def intro: loads.short)

section \<open>Lookup\<close>

lemma take_test:
  "length (p @ k) - length p < length s \<or> s \<noteq> take (length s) (drop (length p) (p @ k)) \<longleftrightarrow> take (length s) k \<noteq> s"
  by (auto dest: arg_cong [where f = length])

lemma tryGet_refines:
  assumes "loads E db rt p n t" "well e t" "rest_key e k"
  shows "\<exists>n' d. tryGet db n (p @ k) (length p) = Some (Inr (plookup t k, n', d)) \<and> loads E db rt p n' t"
  using assms
proof (induction arbitrary: e k rule: loads.induct)
  case (nil rt p)
  then show ?case by (subst tryGet.simps) (auto intro: loads.nil)
next
  case (val rt p v)
  then show ?case by (subst tryGet.simps) (auto intro: loads.val)
next
  case (short p s v t rt fl)
  have e: "e = False" and w: "well (hasTerm s) t" using short.prems(1) by (simp_all add: well_def proper_cases)
  show ?case
  proof (cases "take (length s) k = s")
    case True
    then obtain r where k: "k = s @ r" by (metis append_take_drop_id)
    with short.prems(2) e have "rest_key (hasTerm s) r" by (simp add: rest_key_split)
    with short.IH [OF w] obtain n' d where
      "tryGet db v ((p @ s) @ r) (length (p @ s)) = Some (Inr (plookup t r, n', d))" "loads E db False (p @ s) n' t" by blast
    with short.hyps True show ?thesis
      by (subst tryGet.simps) (auto simp: k intro: loads.short)
  next
    case False
    then show ?thesis using short.hyps
      by (subst tryGet.simps, subst take_test) (auto intro: loads.short)
  qed
next
  case (full cs ts p rt fl)
  then have e: "e = False" and ts: "length ts = 17" "\<And>i. i \<le> 16 \<Longrightarrow> well (i = 16) (ts ! i)"
    by (auto simp: well_def proper_full)
  from full.prems(2) e obtain c r where k: "k = c # r" "full_key (c # r)" by (cases k) auto
  note c = unat_nibble [OF k(2)]
  have i: "unat c < length cs" using c(1) ts(1) full.hyps(1) by simp
  have "\<exists>n' d. tryGet db (cs ! unat c) ((p @ [of_nat (unat c)]) @ r) (length (p @ [of_nat (unat c) :: byte])) =
      Some (Inr (plookup (ts ! unat c) r, n', d)) \<and> loads E db False (p @ [of_nat (unat c)]) n' (ts ! unat c)"
    by (rule full.IH [OF i]) (use ts(2) [OF c(1)] rest_key_Cons(2) [OF k(2)] c(2) in simp_all)
  then obtain n' d where "tryGet db (cs ! unat c) (p @ c # r) (Suc (length p)) = Some (Inr (plookup (ts ! unat c) r, n', d))"
    and n': "loads E db False (p @ [c]) n' (ts ! unat c)" by auto
  moreover have "loads E db rt p (Some (FullNode (cs[unat c := n']) fl)) (PFull ts)"
    by (rule loads.full) (use full.hyps n' i in \<open>auto simp: nth_list_update\<close>)
  moreover have "loads E db rt p (Some (FullNode cs fl)) (PFull ts)" by (rule loads.full) (use full.hyps in auto)
  ultimately show ?case using i full.hyps(1)
    by (subst tryGet.simps) (auto simp: k nth_append)
next
  case (hash h p n rt t)
  from hash.IH [OF hash.prems] obtain n' d where
    "tryGet db (Some n) (p @ k) (length p) = Some (Inr (plookup t k, n', d))" "loads E db rt p n' t" by blast
  with hash.hyps(1) show ?case by (subst tryGet.simps) auto
qed

section \<open>Insertion\<close>

lemma insert_nil:
  "insert_at db None p k v = Some (Inr (True, if k = [] then v else Some (ShortNode k v newFlag)))"
  by (subst insert_at.simps) simp

lemma loads_branch:
  assumes "a \<le> 16" "b \<le> 16" "loads E db False (p @ [a]) x s" "loads E db False (p @ [b]) y t"
  shows "loads E db rt p (Some (FullNode ((replicate 17 None)[unat a := x, unat b := y]) newFlag)) (pbranch a s b t)"
  unfolding pbranch_def
proof (rule loads.full)
  fix i assume "i < length ((replicate 17 None)[unat a := x, unat b := y])"
  then have "i < 17" by simp
  then show "loads E db False (p @ [of_nat i]) ((replicate 17 None)[unat a := x, unat b := y] ! i)
      ((replicate 17 PNil)[unat a := s, unat b := t] ! i)"
    using assms by (cases "i = unat b"; cases "i = unat a") (simp_all add: loads.nil)
qed simp_all

lemma insert_differ:
  assumes "a \<noteq> b" "a \<le> 16" "b \<le> 16" "loads E db False (p @ q @ b # s) n t"
  shows "\<exists>n'. insert_at db (Some (ShortNode (q @ b # s) n fl)) p (q @ a # k) (Some (ValueNode v)) =
      Some (Inr (True, n')) \<and> loads E db rt p n' (pinsert (PShort (q @ b # s) t) (q @ a # k) v)"
proof -
  have m: "prefixLen (q @ a # k) (q @ b # s) = length q" using assms(1) by (induction q) auto
  let ?old = "if s = [] then n else Some (ShortNode s n newFlag)"
  let ?new = "if k = [] then Some (ValueNode v) else Some (ShortNode k (Some (ValueNode v)) newFlag)"
  let ?br = "FullNode ((replicate 17 None)[unat b := ?old, unat a := ?new]) newFlag"
  have "loads E db False ((p @ q) @ [b]) ?old (pleaf s t)" by (rule loads_leaf) (use assms(4) in simp)
  moreover have "loads E db False ((p @ q) @ [a]) ?new (pleaf k (PVal v))" by (rule loads_leaf) (rule loads.val)
  ultimately have br: "loads E db rt' (p @ q) (Some ?br) (pbranch b (pleaf s t) a (pleaf k (PVal v)))" for rt'
    by (rule loads_branch [OF assms(3,2)])
  have "insert_at db (Some (ShortNode (q @ b # s) n fl)) p (q @ a # k) (Some (ValueNode v)) =
      Some (Inr (True, if q = [] then Some ?br else Some (ShortNode q (Some ?br) newFlag)))"
    using assms(2,3) by (subst insert_at.simps) (simp add: m Let_def insert_nil not_less)
  moreover have "loads E db rt p (if q = [] then Some ?br else Some (ShortNode q (Some ?br) newFlag))
      (pleaf q (pbranch b (pleaf s t) a (pleaf k (PVal v))))"
    using br [of rt] br [of False] by (auto simp: pleaf_def intro: loads.short)
  ultimately show ?thesis unfolding pinsert_differ [OF assms(1)] by blast
qed

lemma loads_child:
  assumes "length cs = length ts" "\<And>i. i < length cs \<Longrightarrow> loads E db False (p @ [of_nat i]) (cs ! i) (ts ! i)"
    and "loads E db False (p @ [c]) n' u"
  shows "loads E db rt p (Some (FullNode (cs[unat c := n']) newFlag)) (PFull (ts[unat c := u]))"
proof (rule loads.full)
  fix i assume "i < length (cs[unat c := n'])"
  then show "loads E db False (p @ [of_nat i]) (cs[unat c := n'] ! i) (ts[unat c := u] ! i)"
    using assms by (cases "i = unat c") auto
qed (use assms(1) in simp_all)

lemma insert_refines:
  assumes "loads E db rt p n t" "well e t" "rest_key e k"
  shows "\<exists>dirty n'. insert_at db n p k (Some (ValueNode v)) = Some (Inr (dirty, n')) \<and>
    loads E db rt p n' (pinsert t k v) \<and> (\<not> dirty \<longrightarrow> pinsert t k v = t)"
  using assms
proof (induction arbitrary: e k rule: loads.induct)
  case (nil rt p)
  have "loads E db rt p (if k = [] then Some (ValueNode v) else Some (ShortNode k (Some (ValueNode v)) newFlag)) (pleaf k (PVal v))"
    by (simp add: pleaf_def loads.val loads.short)
  then show ?case unfolding insert_nil by auto
next
  case (val rt p w)
  then have "k = []" by (simp add: well_def proper_cases)
  then show ?case by (subst insert_at.simps) (auto intro: loads.val)
next
  case (short p s n t rt fl)
  then have pr: "proper e (PShort s t)" and e: "e = False" and k: "full_key k" by (auto simp: well_def proper_cases)
  from pr k show ?case
  proof (cases rule: short_cases)
    case (1 r)
    have "well (hasTerm s) t" using pr by (simp add: proper_cases well_def)
    from short.IH [OF this 1(2)] obtain dirty n' where
      2: "insert_at db n (p @ s) r (Some (ValueNode v)) = Some (Inr (dirty, n'))"
      "loads E db False (p @ s) n' (pinsert t r v)" "\<not> dirty \<longrightarrow> pinsert t r v = t" by blast
    have "s \<noteq> []" using pr by (simp add: proper_cases)
    moreover have "prefixLen (s @ r) s = length s" by (simp add: prefixLen_all)
    ultimately have eq: "insert_at db (Some (ShortNode s n fl)) p (s @ r) (Some (ValueNode v)) =
        Some (Inr (if dirty then (True, Some (ShortNode s n' newFlag)) else (False, Some (ShortNode s n fl))))"
      using 2(1) by (subst insert_at.simps) (simp add: Let_def)
    have "loads E db rt p (Some (ShortNode s n' newFlag)) (PShort s (pinsert t r v))"
      "loads E db rt p (Some (ShortNode s n fl)) (PShort s t)"
      by (rule loads.short; use 2(2) short.hyps in simp)+
    then show ?thesis unfolding 1(1) pinsert_same eq using 2(3) by (cases dirty) auto
  next
    case (2 q a k2 b s2)
    have "loads E db False (p @ q @ b # s2) n t" using short.hyps 2(2) by simp
    from insert_differ [OF 2(3,5,6) this, where rt = rt and fl = fl and k = k2 and v = v]
    show ?thesis unfolding 2(1,2) by auto
  qed
next
  case (full cs ts p rt fl)
  then have e: "e = False" and ts: "length ts = 17" "\<And>i. i \<le> 16 \<Longrightarrow> well (i = 16) (ts ! i)"
    by (auto simp: well_def proper_full)
  from full.prems(2) e obtain c r where k: "k = c # r" "full_key (c # r)" by (cases k) auto
  note c = unat_nibble [OF k(2)]
  have i: "unat c < length cs" using c(1) ts(1) full.hyps(1) by simp
  have "\<exists>dirty n'. insert_at db (cs ! unat c) (p @ [of_nat (unat c)]) r (Some (ValueNode v)) = Some (Inr (dirty, n')) \<and>
    loads E db False (p @ [of_nat (unat c)]) n' (pinsert (ts ! unat c) r v) \<and> (\<not> dirty \<longrightarrow> pinsert (ts ! unat c) r v = ts ! unat c)"
    by (rule full.IH [OF i]) (use ts(2) [OF c(1)] rest_key_Cons(2) [OF k(2)] c(2) in simp_all)
  then obtain dirty n' where n': "insert_at db (cs ! unat c) (p @ [c]) r (Some (ValueNode v)) = Some (Inr (dirty, n'))"
    "loads E db False (p @ [c]) n' (pinsert (ts ! unat c) r v)" "\<not> dirty \<longrightarrow> pinsert (ts ! unat c) r v = ts ! unat c" by auto
  have "loads E db rt p (Some (FullNode (cs[unat c := n']) newFlag)) (PFull (ts[unat c := pinsert (ts ! unat c) r v]))"
    by (rule loads_child [OF full.hyps(1,2) n'(2)])
  moreover have "loads E db rt p (Some (FullNode cs fl)) (PFull ts)" by (rule loads.full) (use full.hyps in auto)
  ultimately show ?case using i full.hyps(1) n'(1,3)
    by (subst insert_at.simps) (auto simp: k)
next
  case (hash h p n rt t)
  from hash.IH [OF hash.prems] obtain dirty n' where
    1: "insert_at db (Some n) p k (Some (ValueNode v)) = Some (Inr (dirty, n'))" "loads E db rt p n' (pinsert t k v)"
    "\<not> dirty \<longrightarrow> pinsert t k v = t" by blast
  show ?case
  proof (cases "k = []")
    case True
    with hash.prems(2) have e: "e = True" by (cases e) auto
    with hash.prems(1) hash.hyps(2,4) loads_decoded show ?thesis by blast
  next
    case False
    with 1 hash.hyps show ?thesis by (subst insert_at.simps) auto
  qed
qed

section \<open>Deletion\<close>

definition children :: "nat \<Rightarrow> node option list \<Rightarrow> nat list" where
  "children i cs = map fst (filter (\<lambda>(_, c). c \<noteq> None) (enumerate i cs))"

lemma children_simps [simp]:
  "children i [] = []" "children i (c # cs) = (if c \<noteq> None then i # children (Suc i) cs else children (Suc i) cs)"
  by (simp_all add: children_def)

lemma single_child_seen:
  "pos \<noteq> - 1 \<Longrightarrow> single_child i pos cs = (if children i cs = [] then pos else - 2)"
  by (induction i pos cs rule: single_child.induct) auto

lemma single_child_eq:
  "single_child i (- 1) cs = (case children i cs of [] \<Rightarrow> - 1 | [j] \<Rightarrow> int j | _ \<Rightarrow> - 2)"
  by (induction cs arbitrary: i) (auto simp: single_child_seen split: list.split)

lemma children_filter: "children 0 cs = filter (\<lambda>i. cs ! i \<noteq> None) [0..<length cs]"
proof -
  have "enumerate 0 cs = map (\<lambda>i. (i, cs ! i)) [0..<length cs]"
    by (rule nth_equalityI) (simp_all add: nth_enumerate_eq)
  then show ?thesis by (simp add: children_def filter_map comp_def)
qed

lemma children_entries:
  assumes "length cs = length ts" "\<And>i. i < length cs \<Longrightarrow> loads E db False (p @ [of_nat i]) (cs ! i) (ts ! i)"
  shows "children 0 cs = entries ts"
proof -
  have "cs ! i = None \<longleftrightarrow> ts ! i = PNil" if "i < length cs" for i using loads_nil_iff [OF assms(2) [OF that]] .
  then show ?thesis unfolding children_filter entries_def assms(1) [symmetric] by (intro filter_cong) auto
qed

lemma resolve_loads:
  assumes "loads E db rt p (Some n) t"
  shows "\<exists>n'. resolve db (Some n) p = Inr (Some n') \<and> loads E db rt p (Some n') t \<and> (\<forall>h. n' \<noteq> HashNode h)"
  using assms by cases (auto simp: resolve_def intro: loads.intros elim: decoded.elims)

lemma reduce_refines:
  assumes "length cs = 17" "length ts = 17" "\<And>i. i < 17 \<Longrightarrow> loads E db False (p @ [of_nat i]) (cs ! i) (ts ! i)"
    and "\<And>i. i \<le> 16 \<Longrightarrow> well (i = 16) (ts ! i)" "entries ts \<noteq> []"
  shows "\<exists>n'. reduce_full db cs p = Inr (True, n') \<and> loads E db rt p n' (preduce ts)"
proof (cases "\<exists>i. entries ts = [i]")
  case True
  then obtain i where i: "entries ts = [i]" by blast
  have ch: "children 0 cs = [i]" using children_entries [of cs ts E db p] assms(1-3) i by simp
  have mem: "i < 17" "ts ! i \<noteq> PNil" using entries_mem [of i ts] i assms(2) by simp_all
  have pr: "proper (i = 16) (ts ! i)" using assms(4) [of i] mem by (simp add: well_def)
  note ld = assms(3) [OF mem(1)]
  have one: "loads E db rt p (Some (ShortNode [of_nat i] (cs ! i) newFlag)) (PShort [of_nat i] (ts ! i))"
    by (rule loads.short) (use ld in simp_all)
  show ?thesis
  proof (cases "i = 16")
    case True
    with one show ?thesis by (simp add: reduce_full_def single_child_eq ch preduce_def i)
  next
    case False
    obtain n where n: "cs ! i = Some n" using loads_nil_iff [OF ld] mem(2) by (cases "cs ! i") auto
    obtain n' where n': "resolve db (Some n) (p @ [of_nat i]) = Inr (Some n')" "loads E db False (p @ [of_nat i]) (Some n') (ts ! i)"
      "\<And>h. n' \<noteq> HashNode h" using resolve_loads [OF ld [unfolded n]] by blast
    have red: "preduce ts = pjoin [of_nat i] (ts ! i)" using False by (simp add: preduce_def i)
    show ?thesis
    proof (cases n')
      case (ShortNode k v fl)
      with n'(2) obtain t where "ts ! i = PShort k t" "loads E db False ((p @ [of_nat i]) @ k) v t"
        by (auto elim: loads_nodeE)
      with False n n'(1) ShortNode show ?thesis
        by (auto simp: reduce_full_def single_child_eq ch red pjoin_def intro: loads.short)
    next
      case (FullNode us fl)
      with n'(2) obtain us' where "ts ! i = PFull us'" by (auto elim: loads_nodeE)
      with one False n n'(1) FullNode show ?thesis
        by (simp add: reduce_full_def single_child_eq ch red pjoin_def pleaf_def)
    next
      case (ValueNode v)
      with n'(2) pr False show ?thesis by (auto simp: proper_cases elim: loads_nodeE)
    qed (use n'(3) in simp)
  qed
next
  case False
  with assms(5) have "single_child 0 (- 1) cs = - 2" "preduce ts = PFull ts"
    using children_entries [of cs ts E db p] assms(1-3)
    by (auto simp: single_child_eq preduce_def split: list.split)
  moreover have "loads E db rt p (Some (FullNode cs newFlag)) (PFull ts)"
    by (rule loads.full) (use assms(1-3) in auto)
  ultimately show ?thesis by (simp add: reduce_full_def)
qed

lemma pjoin_full: "is_full t \<Longrightarrow> s \<noteq> [] \<Longrightarrow> pjoin s t = PShort s t"
  by (auto simp: is_full_def pjoin_def pleaf_def)

lemma loads_joined:
  assumes "loads E db False (p @ s) n t" "s \<noteq> []" "n = Some m" "decoded m"
  shows "loads E db rt p (Some (case n of Some (ShortNode ck cv _) \<Rightarrow> ShortNode (s @ ck) cv newFlag
      | _ \<Rightarrow> ShortNode s n newFlag)) (pjoin s t)"
  using assms
  by (cases m) (auto simp: pjoin_def pleaf_def elim!: loads_nodeE intro!: loads.intros)

lemma reduce_decoded: "reduce_full db cs p = Inr (b, Some n) \<Longrightarrow> decoded n"
  by (auto simp: reduce_full_def Let_def split: if_splits sum.splits option.splits node.splits)

text \<open>What a deletion that reports a change gives is never a reference.\<close>

definition settled :: "node option \<Rightarrow> bool" where
  "settled n = (case n of None \<Rightarrow> True | Some m \<Rightarrow> decoded m)"

lemma delete_refines:
  assumes "loads E db rt p n t" "well e t" "rest_key e k"
  shows "\<exists>dirty n'. delete_at db n p k = Some (Inr (dirty, n')) \<and> loads E db rt p n' (pdelete t k) \<and>
    (\<not> dirty \<longrightarrow> pdelete t k = t) \<and> (dirty \<longrightarrow> settled n')"
  using assms
proof (induction arbitrary: e k rule: loads.induct)
  case (nil rt p)
  then show ?case by (subst delete_at.simps) (auto intro: loads.nil)
next
  case (val rt p w)
  then show ?case by (subst delete_at.simps) (auto intro: loads.nil simp: settled_def)
next
  case (short p s n t rt fl)
  then have pr: "proper e (PShort s t)" and e: "e = False" and k: "full_key k" and s: "s \<noteq> []"
    by (auto simp: well_def proper_cases)
  show ?case
  proof (cases "take (length s) k = s")
    case True
    then obtain r where r: "k = s @ r" by (metis append_take_drop_id)
    have m: "prefixLen (s @ r) s = length s" by (simp add: prefixLen_all)
    show ?thesis
    proof (cases "r = []")
      case True
      then show ?thesis using m by (subst delete_at.simps) (auto simp: r intro: loads.nil simp: settled_def)
    next
      case False
      with k r have rk: "rest_key (hasTerm s) r" by (simp add: rest_key_split)
      with False have "\<not> hasTerm s" by (cases "hasTerm s") auto
      with pr rk have t: "\<not> hasTerm s" "is_full t" "well False t" and rk: "rest_key False r"
        by (simp_all add: proper_cases well_def)
      with short.IH [of False r] rk obtain dirty n' where
        1: "delete_at db n (p @ s) r = Some (Inr (dirty, n'))" "loads E db False (p @ s) n' (pdelete t r)"
        "\<not> dirty \<longrightarrow> pdelete t r = t" "dirty \<longrightarrow> settled n'" by auto
      have "pdelete t r \<noteq> PNil" using pdelete_correct [of False t r] t rk by simp
      then obtain m' where m': "n' = Some m'" using loads_nil_iff [OF 1(2)] by auto
      have d: "delete_at db (Some (ShortNode s n fl)) p k =
          Some (Inr (if dirty then (True, Some (case n' of Some (ShortNode ck cv _) \<Rightarrow> ShortNode (s @ ck) cv newFlag
            | _ \<Rightarrow> ShortNode s n' newFlag)) else (False, Some (ShortNode s n fl))))"
        using 1(1) m False by (subst delete_at.simps) (simp add: r)
      have "pdelete (PShort s t) k = pjoin s (pdelete t r)" using False by (simp add: r)
      with d 1 m' loads_joined [OF 1(2) s m'] pjoin_full [OF t(2) s] short.hyps show ?thesis
        by (cases dirty) (auto simp: settled_def intro: loads.short split: node.split)
    qed
  next
    case False
    then have "prefixLen k s < length s" using prefixLen_all [of k s] prefixLen_le(2) [of k s] by simp
    with False short.hyps show ?thesis by (subst delete_at.simps) (auto simp: Let_def intro: loads.short)
  qed
next
  case (full cs ts p rt fl)
  then have e: "e = False" and ts: "length ts = 17" "\<And>i. i \<le> 16 \<Longrightarrow> well (i = 16) (ts ! i)" "2 \<le> length (entries ts)"
    by (auto simp: well_def proper_full)
  from full.prems(2) e obtain c r where k: "k = c # r" "full_key (c # r)" by (cases k) auto
  note c = unat_nibble [OF k(2)]
  have i: "unat c < length cs" using c(1) ts(1) full.hyps(1) by simp
  let ?u = "pdelete (ts ! unat c) r" let ?us = "ts[unat c := ?u]"
  have "\<exists>dirty n'. delete_at db (cs ! unat c) (p @ [of_nat (unat c)]) r = Some (Inr (dirty, n')) \<and>
      loads E db False (p @ [of_nat (unat c)]) n' ?u \<and> (\<not> dirty \<longrightarrow> ?u = ts ! unat c) \<and> (dirty \<longrightarrow> settled n')"
    by (rule full.IH [OF i]) (use ts(2) [OF c(1)] rest_key_Cons(2) [OF k(2)] c(2) in simp_all)
  then obtain dirty n' where n': "delete_at db (cs ! unat c) (p @ [c]) r = Some (Inr (dirty, n'))"
    "loads E db False (p @ [c]) n' ?u" "\<not> dirty \<longrightarrow> ?u = ts ! unat c" by auto
  have same: "loads E db rt p (Some (FullNode cs fl)) (PFull ts)" by (rule loads.full) (use full.hyps in auto)
  have "preduce ts = PFull ts" using ts(3) by (auto simp: preduce_def split: list.split)
  moreover have "\<exists>n''. reduce_full db (cs[unat c := n']) p = Inr (True, n'') \<and> loads E db rt p n'' (preduce ?us)"
  proof (rule reduce_refines)
    have "loads E db rt p (Some (FullNode (cs[unat c := n']) newFlag)) (PFull ?us)"
      by (rule loads_child [OF full.hyps(1,2) n'(2)])
    then show "loads E db False (p @ [of_nat i]) (cs[unat c := n'] ! i) (?us ! i)" if "i < 17" for i
      using that full.hyps(1) ts(1) by (auto elim: loads_nodeE)
    have "well (c = 16) ?u"
      using pdelete_correct [of "c = 16" "ts ! unat c" r] ts(2) [OF c(1)] rest_key_Cons(2) [OF k(2)] c(2) by simp
    then show "well (i = 16) (?us ! i)" if "i \<le> 16" for i
      using ts(1) ts(2) [OF that] c by (cases "i = unat c") simp_all
    from entries_other [OF ts(3)] obtain j where "j < length ts" "j \<noteq> unat c" "ts ! j \<noteq> PNil" by metis
    then show "entries ?us \<noteq> []" using entries_mem [of j ?us] by force
  qed (use full.hyps(1) ts(1) in simp_all)
  then obtain n'' where "reduce_full db (cs[unat c := n']) p = Inr (True, n'')" "loads E db rt p n'' (preduce ?us)" by blast
  moreover have "settled n''" using reduce_decoded calculation(2) by (cases n'') (auto simp: settled_def)
  ultimately show ?case using i full.hyps(1) n'(1,3) same
    by (subst delete_at.simps) (cases dirty, auto simp: k)
next
  case (hash h p n rt t)
  from hash.IH [OF hash.prems] obtain dirty n' where
    "delete_at db (Some n) p k = Some (Inr (dirty, n'))" "loads E db rt p n' (pdelete t k)"
    "\<not> dirty \<longrightarrow> pdelete t k = t" "dirty \<longrightarrow> settled n'" by blast
  with hash.hyps show ?case by (subst delete_at.simps) auto
qed

end
