(* ===== verification/Trie_Root.thy ===== *)
theory Trie_Root
  imports Trie_Map
begin

text \<open>
  The trie as a map of byte strings with a root hash. Lookup and update satisfy the interface of a key-value
  store, and the hash of the root is a function of the map that the trie holds: it does not depend
  on the order or the history of the updates, nor on what is loaded or cached.
\<close>

section \<open>Hashing\<close>

lemma bind_h_Inr [simp]: "bind_h (Inr a, []) f = f a"
  by (simp add: bind_h_def split: prod.split)

definition reference :: "hash_env \<Rightarrow> bool \<Rightarrow> ptrie \<Rightarrow> rlp_item" where
  "reference E rt t = (if rt \<or> 32 \<le> length (encoding E t) then RStr (node_hash E t) else pitem E t)"

lemma embed_reference: "embed E (pitem E t) = reference E False t"
  by (simp add: embed_def reference_def encoding_def node_hash_def)

text \<open>Hashing without a database: the reference to the tree, and a node with more hashes cached.\<close>

definition hashes_to :: "hash_env \<Rightarrow> database \<Rightarrow> bool \<Rightarrow> byte list \<Rightarrow> node \<Rightarrow> ptrie \<Rightarrow> bool" where
  "hashes_to E db rt p n t =
     (\<exists>h n'. hash_node E None n p rt = (Inr (h, n'), []) \<and> to_rlp h = reference E rt t \<and>
        (rt \<longrightarrow> h = HashNode (node_hash E t)) \<and> loads E db rt p (Some n') t)"

lemma hashes_to_cached:
  assumes "cache n = (Some h, d)" "hashed_at E rt t h" "loads E db rt p (Some n) t"
  shows "hashes_to E db rt p n t"
  unfolding hashes_to_def
  by (subst hash_node.simps) (use assms in \<open>auto simp: use_cache_def hashed_at_def reference_def\<close>)

text \<open>\<open>store_node\<close> of a collapsed node whose encoding is that of the tree, followed by caching.\<close>

lemma store_collapsed:
  assumes "to_rlp col = pitem E t" "\<And>h. col \<noteq> HashNode h" "fst (cache col) = None"
  shows "\<exists>h. store_node E None col p rt = (Inr h, []) \<and> to_rlp h = reference E rt t \<and>
    (rt \<longrightarrow> h = HashNode (node_hash E t)) \<and> (\<forall>x. h = HashNode x \<longrightarrow> hashed_at E rt t x)"
  using assms
  by (cases col) (auto simp: store_node_def Let_def encoding_def [symmetric] reference_def node_hash_def hashed_at_def)

lemma kids_hash:
  assumes "length ts = length cs"
    and "\<And>j. j < length cs \<Longrightarrow> cs ! j = None \<and> ts ! j = PNil \<or>
      (\<exists>m. cs ! j = Some m \<and> ts ! j \<noteq> PNil \<and> hashes_to E db False (p @ [of_nat (i + j)]) m (ts ! j))"
  shows "\<exists>hs ks. hash_kids E None i cs p = (Inr (hs, ks), []) \<and>
    map (\<lambda>c. case c of None \<Rightarrow> RList [] | Some m \<Rightarrow> to_rlp m) hs =
      map (\<lambda>t. if t = PNil then RStr [] else embed E (pitem E t)) ts \<and>
    length ks = length cs \<and> (\<forall>j < length cs. loads E db False (p @ [of_nat (i + j)]) (ks ! j) (ts ! j))"
  using assms
proof (induction cs arbitrary: i ts)
  case (Cons c cs)
  then obtain t us where ts: "ts = t # us" by (cases ts) auto
  have "\<exists>hs ks. hash_kids E None (Suc i) cs p = (Inr (hs, ks), []) \<and>
    map (\<lambda>c. case c of None \<Rightarrow> RList [] | Some m \<Rightarrow> to_rlp m) hs =
      map (\<lambda>t. if t = PNil then RStr [] else embed E (pitem E t)) us \<and>
    length ks = length cs \<and> (\<forall>j < length cs. loads E db False (p @ [of_nat (Suc i + j)]) (ks ! j) (us ! j))"
    by (rule Cons.IH) (use Cons.prems(1) Cons.prems(2) [of "Suc j" for j] ts in auto)
  then obtain hs ks where IH: "hash_kids E None (Suc i) cs p = (Inr (hs, ks), [])"
    "map (\<lambda>c. case c of None \<Rightarrow> RList [] | Some m \<Rightarrow> to_rlp m) hs =
      map (\<lambda>t. if t = PNil then RStr [] else embed E (pitem E t)) us" "length ks = length cs"
    "\<And>j. j < length cs \<Longrightarrow> loads E db False (p @ [of_nat (Suc i + j)]) (ks ! j) (us ! j)" by blast
  have step: "\<forall>j < length (c # cs). loads E db False (p @ [of_nat (i + j)]) ((k # ks) ! j) (ts ! j)"
    if "loads E db False (p @ [of_nat i]) k t" for k
    using that IH(4) ts by (auto simp: less_Suc_eq_0_disj ac_simps)
  show ?case
  proof (cases c)
    case None
    then have "t = PNil" using Cons.prems(2) [of 0] ts by simp
    with None IH(1-3) step [of None] ts show ?thesis by (auto simp: loads.nil)
  next
    case (Some m)
    with Cons.prems(2) [of 0] ts obtain h n' where m: "t \<noteq> PNil"
      "hash_node E None m (p @ [of_nat i]) False = (Inr (h, n'), [])" "to_rlp h = reference E False t"
      "loads E db False (p @ [of_nat i]) (Some n') t" by (auto simp: hashes_to_def)
    with Some IH(1-3) step [OF m(4)] ts show ?thesis by (auto simp: embed_reference)
  qed
qed simp

lemma loads_value:
  assumes "loads E db rt p v t" "is_value t"
  shows "\<exists>x. v = Some (ValueNode x) \<and> t = PVal x"
  using assms(1)
proof cases
  case (hash h n)
  with loads_decoded [of E db rt p n t] assms(2) show ?thesis by (simp add: well_def proper_def)
qed (use assms(2) in \<open>auto simp: is_value_def\<close>)

lemma hash_short:
  assumes "loads E db False (p @ k) v t" "flag_ok E rt fl (PShort k t)" "proper False (PShort k t)"
    and "\<And>m. v = Some m \<Longrightarrow> is_full t \<Longrightarrow> hashes_to E db False (p @ k) m t"
  shows "hashes_to E db rt p (ShortNode k v fl) (PShort k t)"
proof (cases "fl_hash fl")
  case (Some h)
  then show ?thesis
    using assms(1,2) by (intro hashes_to_cached) (auto simp: flag_ok_def intro: loads.short)
next
  case None
  have "hex_key k" using assms(3) by (auto simp: proper_cases hex_key_def)
  then obtain ck where ck: "hexToCompact k = Inr ck" using compact_round_trip by blast
  obtain x v' where x: "hash_node E None (ShortNode k v fl) p rt =
      bind_h (store_node E None (ShortNode ck (Some x) fl) p rt)
        (\<lambda>h. (Inr (h, set_cache None h (ShortNode k (Some v') fl)), []))"
    "to_rlp (ShortNode ck (Some x) fl) = pitem E (PShort k t)" "loads E db False (p @ k) (Some v') t"
  proof (cases "hasTerm k")
    case True
    with assms(3) have "is_value t" by (auto simp: proper_cases proper_def)
    with loads_value [OF assms(1)] obtain w where w: "v = Some (ValueNode w)" "t = PVal w" by blast
    show ?thesis
      by (rule that [of "ValueNode w" "ValueNode w"], subst hash_node.simps)
        (use w ck None assms(1) in \<open>simp_all add: use_cache_def value_item_def is_full_def del: set_cache.simps\<close>)
  next
    case False
    with assms(3) have full: "is_full t" by (simp add: proper_cases)
    then obtain m where m: "v = Some m" using loads_nil_iff [OF assms(1)] by (cases v) (auto simp: is_full_def)
    from assms(4) [OF m full] obtain h n' where h: "hash_node E None m (p @ k) False = (Inr (h, n'), [])"
      "to_rlp h = reference E False t" "loads E db False (p @ k) (Some n') t" by (auto simp: hashes_to_def)
    have "\<not> (\<exists>w. m = ValueNode w)" using assms(1) m full by (auto simp: is_full_def elim: loads_nodeE)
    with h(1) ck None m have "hash_node E None (ShortNode k v fl) p rt =
      bind_h (store_node E None (ShortNode ck (Some h) fl) p rt)
        (\<lambda>x. (Inr (x, set_cache None x (ShortNode k (Some n') fl)), []))"
      by (subst hash_node.simps, cases m) (simp_all add: use_cache_def del: set_cache.simps)
    with h(2,3) ck full show ?thesis by (intro that [of h n']) (simp_all add: embed_reference)
  qed
  obtain h where h: "store_node E None (ShortNode ck (Some x) fl) p rt = (Inr h, [])" "to_rlp h = reference E rt (PShort k t)"
    "rt \<longrightarrow> h = HashNode (node_hash E (PShort k t))" "\<forall>y. h = HashNode y \<longrightarrow> hashed_at E rt (PShort k t) y"
    using store_collapsed [OF x(2), of p rt] None by auto
  have "flag_ok E rt \<lparr>fl_hash = (case h of HashNode y \<Rightarrow> Some y | _ \<Rightarrow> None), fl_dirty = d\<rparr> (PShort k t)" for d
    using h(4) by (simp add: flag_ok_def split: node.split)
  then have "loads E db rt p (Some (set_cache None h (ShortNode k (Some v') fl))) (PShort k t)"
    using x(3) by (simp add: loads.short)
  with h(1-3) x(1) show ?thesis by (auto simp: hashes_to_def bind_h_def)
qed

lemma hash_full:
  assumes "length cs = length ts" "\<And>i. i < length cs \<Longrightarrow> loads E db False (p @ [of_nat i]) (cs ! i) (ts ! i)"
    and "flag_ok E rt fl (PFull ts)" "proper False (PFull ts)"
    and "\<And>i m. i < 16 \<Longrightarrow> cs ! i = Some m \<Longrightarrow> hashes_to E db False (p @ [of_nat i]) m (ts ! i)"
  shows "hashes_to E db rt p (FullNode cs fl) (PFull ts)"
proof (cases "fl_hash fl")
  case (Some h)
  then show ?thesis
    using assms(1-3) by (intro hashes_to_cached) (auto simp: flag_ok_def intro: loads.full)
next
  case None
  have len: "length ts = 17" "length cs = 17" and "\<forall>i \<le> 16. well (i = 16) (ts ! i)"
    using assms(1,4) by (simp_all add: proper_full)
  then have w: "well True (ts ! 16)" by (auto dest: spec [of _ 16])
  have "cs ! j = None \<and> ts ! j = PNil \<or> (\<exists>m. cs ! j = Some m \<and> ts ! j \<noteq> PNil \<and> hashes_to E db False (p @ [of_nat j]) m (ts ! j))"
    if "j < 16" for j
    using loads_nil_iff [OF assms(2), of j] assms(5) [of j] that len by (cases "cs ! j") auto
  then have "\<exists>hs ks. hash_kids E None 0 (take 16 cs) p = (Inr (hs, ks), []) \<and>
    map (\<lambda>c. case c of None \<Rightarrow> RList [] | Some m \<Rightarrow> to_rlp m) hs =
      map (\<lambda>t. if t = PNil then RStr [] else embed E (pitem E t)) (take 16 ts) \<and>
    length ks = length (take 16 cs) \<and>
    (\<forall>j < length (take 16 cs). loads E db False (p @ [of_nat (0 + j)]) (ks ! j) (take 16 ts ! j))"
    using len by (intro kids_hash) auto
  then obtain hs ks where kids: "hash_kids E None 0 (take 16 cs) p = (Inr (hs, ks), [])"
    "map (\<lambda>c. case c of None \<Rightarrow> RList [] | Some m \<Rightarrow> to_rlp m) hs =
      map (\<lambda>t. if t = PNil then RStr [] else embed E (pitem E t)) (take 16 ts)" "length ks = 16"
    "\<And>j. j < 16 \<Longrightarrow> loads E db False (p @ [of_nat j]) (ks ! j) (ts ! j)" using len by auto
  have l16: "loads E db False (p @ [16]) (cs ! 16) (ts ! 16)" using assms(2) [of 16] len by simp
  have "(case empty_value (cs ! 16) of None \<Rightarrow> RList [] | Some m \<Rightarrow> to_rlp m) = value_item (ts ! 16)"
  proof (cases "ts ! 16 = PNil")
    case True
    then show ?thesis using loads_nil_iff [OF l16] by (simp add: empty_value_def value_item_def)
  next
    case False
    with w loads_value [OF l16] show ?thesis by (auto simp: well_def proper_def empty_value_def value_item_def)
  qed
  then have col: "to_rlp (FullNode (hs @ [empty_value (cs ! 16)]) fl) = pitem E (PFull ts)"
    using kids(2) by simp
  obtain h where h: "store_node E None (FullNode (hs @ [empty_value (cs ! 16)]) fl) p rt = (Inr h, [])"
    "to_rlp h = reference E rt (PFull ts)" "rt \<longrightarrow> h = HashNode (node_hash E (PFull ts))"
    "\<forall>y. h = HashNode y \<longrightarrow> hashed_at E rt (PFull ts) y"
    using store_collapsed [OF col, of p rt] None by auto
  have "flag_ok E rt \<lparr>fl_hash = (case h of HashNode y \<Rightarrow> Some y | _ \<Rightarrow> None), fl_dirty = d\<rparr> (PFull ts)" for d
    using h(4) by (simp add: flag_ok_def split: node.split)
  moreover have "loads E db False (p @ [of_nat i]) ((ks @ [cs ! 16]) ! i) (ts ! i)" if "i < 17" for i
    using that kids(3,4) l16 by (cases "i = 16") (auto simp: nth_append)
  ultimately have "loads E db rt p (Some (set_cache None h (FullNode (ks @ [cs ! 16]) fl))) (PFull ts)"
    using kids(3) len by (auto intro!: loads.full)
  moreover have "hash_node E None (FullNode cs fl) p rt = (Inr (h, set_cache None h (FullNode (ks @ [cs ! 16]) fl)), [])"
    by (subst hash_node.simps) (use kids(1) h(1) None in \<open>simp add: use_cache_def bind_h_def\<close>)
  ultimately show ?thesis using h(2,3) by (auto simp: hashes_to_def)
qed

lemma proper_child: "proper False (PFull ts) \<Longrightarrow> i \<le> 16 \<Longrightarrow> well (i = 16) (ts ! i)"
  by (simp add: proper_full)

lemma hash_refines:
  assumes "loads E db rt p n t" "n = Some m" "proper False t"
  shows "hashes_to E db rt p m t"
  using assms
proof (induction arbitrary: m rule: loads.induct)
  case (short p k v t rt fl)
  have "proper False t" if "is_full t"
    using short.prems(2) that by (cases "hasTerm k") (auto simp: proper_cases proper_full is_full_def)
  with short show ?case by (auto intro!: hash_short)
next
  case (full cs ts p rt fl)
  have "hashes_to E db False (p @ [of_nat i]) m' (ts ! i)" if "i < 16" "cs ! i = Some m'" for i m'
  proof (rule full.IH [OF _ that(2)])
    have "well (i = 16) (ts ! i)" using proper_child [OF full.prems(2), of i] that(1) by simp
    moreover have "i < length cs" using full.prems(2) full.hyps(1) that(1) by (simp add: proper_full)
    ultimately have "i < length cs" "well False (ts ! i)" using that(1) by simp_all
    with loads_nil_iff [OF full.hyps(2), of i] that(2) show "i < length cs" "proper False (ts ! i)" by (auto simp: well_def)
  qed
  with full show ?case by (auto intro!: hash_full)
next
  case (hash h p n rt t)
  have "hash_node E None (HashNode h) p rt = (Inr (HashNode h, HashNode h), [])"
    by (subst hash_node.simps) (simp add: use_cache_def bind_h_def store_node_def)
  with hash show ?case
    by (auto simp: hashes_to_def hashed_at_def reference_def intro: loads.hash)
qed (auto simp: proper_cases)

section \<open>Key-value stores\<close>

text \<open>
  The interface: a state \<open>s\<close> holds a map; \<open>get\<close> returns what the map has, \<open>put\<close> replaces an entry, or removes it
  for the empty value. Both return, and neither fails.
\<close>

definition upd :: "byte list \<times> byte list \<Rightarrow> (byte list \<Rightarrow> byte list option) \<Rightarrow> byte list \<Rightarrow> byte list option" where
  "upd kv m = m(fst kv := (if snd kv = [] then None else Some (snd kv)))"

fun put_all ::
    "('s \<Rightarrow> byte list \<Rightarrow> byte list \<Rightarrow> ('e + 's) option) \<Rightarrow> (byte list \<times> byte list) list \<Rightarrow> 's \<Rightarrow> ('e + 's) option" where
  "put_all put [] s = Some (Inr s)"
| "put_all put (kv # kvs) s =
     Option.bind (put s (fst kv) (snd kv))
       (\<lambda>r. case r of Inl e \<Rightarrow> Some (Inl e) | Inr s' \<Rightarrow> put_all put kvs s')"

locale kv_store =
  fixes holds :: "'s \<Rightarrow> (byte list \<Rightarrow> byte list option) \<Rightarrow> bool"
    and get :: "'s \<Rightarrow> byte list \<Rightarrow> (('e + byte list option) \<times> 's) option"
    and put :: "'s \<Rightarrow> byte list \<Rightarrow> byte list \<Rightarrow> ('e + 's) option"
  assumes get_holds: "holds s m \<Longrightarrow> \<exists>s'. get s k = Some (Inr (m k), s') \<and> holds s' m"
    and put_holds: "holds s m \<Longrightarrow> \<exists>s'. put s k v = Some (Inr s') \<and> holds s' (upd (k, v) m)"
begin

lemma put_all_holds: "holds s m \<Longrightarrow> \<exists>s'. put_all put kvs s = Some (Inr s') \<and> holds s' (fold upd kvs m)"
proof (induction kvs arbitrary: s m)
  case (Cons kv kvs)
  from put_holds [OF Cons.prems, of "fst kv" "snd kv"] obtain s1 where
    "put s (fst kv) (snd kv) = Some (Inr s1)" "holds s1 (upd kv m)" by auto
  with Cons.IH show ?case by simp
qed simp

lemma read_last_write:
  assumes "holds s m" "k \<notin> fst ` set kvs" "v \<noteq> []"
  shows "\<exists>s' s''. put_all put ((k, v) # kvs) s = Some (Inr s') \<and> get s' k = Some (Inr (Some v), s'')"
proof -
  from put_all_holds [OF assms(1)] obtain s' where
    s': "put_all put ((k, v) # kvs) s = Some (Inr s')" "holds s' (fold upd ((k, v) # kvs) m)" by blast
  have "fold upd kvs m' k = m' k" for m'
    using assms(2) by (induction kvs arbitrary: m') (auto simp: upd_def)
  then have "fold upd ((k, v) # kvs) m k = Some v" using assms(3) by (simp add: upd_def)
  with get_holds [OF s'(2), of k] s'(1) show ?thesis by auto
qed

end

section \<open>The trie is a key-value store\<close>

definition hex_map :: "(byte list \<Rightarrow> byte list option) \<Rightarrow> byte list \<Rightarrow> byte list option" where
  "hex_map m k = (case hexToKeybytes k of Inr b \<Rightarrow> (if keybytesToHex b = k then m b else None) | Inl _ \<Rightarrow> None)"

lemma hex_map_key [simp]: "hex_map m (keybytesToHex b) = m b"
  by (simp add: hex_map_def keybytes_round_trip)

lemma hex_map_upd: "hex_map (m(b := x)) k = (if k = keybytesToHex b then x else hex_map m k)"
  by (auto simp: hex_map_def keybytes_round_trip split: sum.split)

definition stands_for :: "ptrie \<Rightarrow> (byte list \<Rightarrow> byte list option) \<Rightarrow> bool" where
  "stands_for t m = (well False t \<and> (\<forall>k. full_key k \<longrightarrow> plookup t k = hex_map m k))"

definition holds_map :: "hash_env \<Rightarrow> database \<Rightarrow> node option \<Rightarrow> (byte list \<Rightarrow> byte list option) \<Rightarrow> bool" where
  "holds_map E db root m = (\<exists>t. loads E db True [] root t \<and> stands_for t m)"

lemma stands_for_unique:
  assumes "stands_for t m" "stands_for u m"
  shows "t = u"
proof -
  have same: "same_content False t u" using assms by (simp add: stands_for_def same_content_def)
  show ?thesis
  proof (cases "t = PNil \<or> u = PNil")
    case True
    then show ?thesis
      using assms same proper_nonempty [of False t] proper_nonempty [of False u]
      by (auto simp: stands_for_def well_def same_content_def)
  next
    case False
    with assms canonical_unique [OF _ _ same] show ?thesis by (simp add: stands_for_def well_def)
  qed
qed

lemma TryGet_holds:
  assumes "holds_map E db root m"
  shows "\<exists>root'. TryGet db root key = Some (Inr (m key), root') \<and> holds_map E db root' m"
proof -
  from assms obtain t where t: "loads E db True [] root t" "stands_for t m" by (auto simp: holds_map_def)
  from tryGet_refines [OF t(1), of False "keybytesToHex key"] t(2) obtain n' d where
    "tryGet db root (keybytesToHex key) 0 = Some (Inr (m key, n', d))" "loads E db True [] n' t"
    by (auto simp: stands_for_def)
  with t show ?thesis by (auto simp: TryGet_def holds_map_def)
qed

lemma TryUpdate_holds:
  assumes "holds_map E db root m"
  shows "\<exists>root'. TryUpdate db root key value = Some (Inr root') \<and> holds_map E db root' (upd (key, value) m)"
proof -
  let ?k = "keybytesToHex key"
  from assms obtain t where t: "loads E db True [] root t" "well False t" "\<And>k. full_key k \<Longrightarrow> plookup t k = hex_map m k"
    by (auto simp: holds_map_def stands_for_def)
  show ?thesis
  proof (cases "value = []")
    case True
    from delete_refines [OF t(1,2), of ?k] obtain d n' where
      "delete_at db root [] ?k = Some (Inr (d, n'))" "loads E db True [] n' (pdelete t ?k)" by auto
    moreover have "stands_for (pdelete t ?k) (upd (key, value) m)"
      using pdelete_correct [OF t(2), of ?k] t(3) True by (simp add: stands_for_def upd_def hex_map_upd)
    ultimately show ?thesis using True by (auto simp: TryUpdate_def holds_map_def)
  next
    case False
    from insert_refines [OF t(1,2), of ?k "value"] obtain d n' where
      "insert_at db root [] ?k (Some (ValueNode value)) = Some (Inr (d, n'))"
      "loads E db True [] n' (pinsert t ?k value)" by auto
    moreover have "stands_for (pinsert t ?k value) (upd (key, value) m)"
      using plookup_pinsert [OF t(2), of ?k] pinsert_proper [OF t(2), of ?k "value"] t(3) False
      by (simp add: stands_for_def upd_def hex_map_upd well_def)
    ultimately show ?thesis using False by (auto simp: TryUpdate_def holds_map_def)
  qed
qed

interpretation trie: kv_store "holds_map E db" "TryGet db" "TryUpdate db" for E db
  by unfold_locales (use TryGet_holds TryUpdate_holds in blast)+

lemma holds_empty: "holds_map E db None Map.empty"
  unfolding holds_map_def
  by (rule exI [of _ PNil]) (auto simp: stands_for_def hex_map_def loads.nil split: sum.split)

section \<open>The root hash\<close>

definition root_hash :: "hash_env \<Rightarrow> byte list \<Rightarrow> ptrie \<Rightarrow> byte list" where
  "root_hash E emptyRoot t = (if t = PNil then emptyRoot else node_hash E t)"

lemma HashTrie_loads:
  assumes "loads E db True [] root t" "well False t"
  shows "\<exists>root'. HashTrie E emptyRoot root = Inr (root_hash E emptyRoot t, root') \<and> loads E db True [] root' t"
proof (cases root)
  case None
  with assms show ?thesis using loads_nil_iff [OF assms(1)]
    by (auto simp: HashTrie_def hashRoot_def root_hash_def)
next
  case (Some n)
  then have "t \<noteq> PNil" using loads_nil_iff [OF assms(1)] by auto
  with assms(2) have "proper False t" by (simp add: well_def)
  from hash_refines [OF assms(1) Some this] obtain n' where
    "hash_node E None n [] True = (Inr (HashNode (node_hash E t), n'), [])" "loads E db True [] (Some n') t"
    by (auto simp: hashes_to_def)
  with Some \<open>t \<noteq> PNil\<close> show ?thesis by (auto simp: HashTrie_def hashRoot_def root_hash_def)
qed

lemma same_map_same_hash:
  assumes "holds_map E db root m" "holds_map E db' root' m"
  shows "\<exists>h r r'. HashTrie E emptyRoot root = Inr (h, r) \<and> HashTrie E emptyRoot root' = Inr (h, r') \<and>
    holds_map E db r m \<and> holds_map E db' r' m"
proof -
  from assms obtain t u where t: "loads E db True [] root t" "stands_for t m"
    and u: "loads E db' True [] root' u" "stands_for u m" by (auto simp: holds_map_def)
  have "u = t" using stands_for_unique t(2) u(2) by blast
  moreover have "well False t" using t(2) by (simp add: stands_for_def)
  ultimately show ?thesis
    using HashTrie_loads [OF t(1), of emptyRoot] HashTrie_loads [OF u(1), of emptyRoot] t(2)
    by (auto simp: holds_map_def)
qed

section \<open>Properties\<close>

text \<open>C4: A trie holds a map: if its nodes, loaded from the database or not, hold the map \<open>m\<close>, then \<open>TryGet\<close> returns
  and gives the value of \<open>m\<close>, the empty result for a key that is not in it, and \<open>TryUpdate\<close> returns and the new root
  holds the map with the entry replaced, or removed if the new value is empty. Neither fails, and a lookup that loads nodes changes
  nothing of the map.\<close>

theorem trie_is_a_map:
  assumes "holds_map E db root m"
  shows "(\<exists>root'. TryGet db root key = Some (Inr (m key), root') \<and> holds_map E db root' m) \<and>
    (\<exists>root'. TryUpdate db root key value = Some (Inr root') \<and>
       holds_map E db root' (m(key := (if value = [] then None else Some value))))"
  using trie.get_holds [OF assms, of key] trie.put_holds [OF assms, of key "value"] by (simp only: upd_def fst_conv snd_conv)

definition no_db :: database where
  "no_db = \<lparr>is_ex = False, GetDecoded = \<lambda>_ _. None, GetEncoded = \<lambda>_ _. Inr None, db_Get = \<lambda>_. Inr None,
     decodeNode = \<lambda>_ _. Inl ''no node''\<rparr>"

fun plain_rlp :: "rlp_item \<Rightarrow> byte list" where
  "plain_rlp (RStr bs) = of_nat (128 + length bs) # bs"
| "plain_rlp (RList xs) = 192 # concat (map plain_rlp xs)"

definition plain_env :: hash_env where
  "plain_env = \<lparr>rlp_bytes = plain_rlp, blake2b = take 32\<rparr>"

theorem trie_is_a_map_witness:
  "\<exists>root'. TryUpdate no_db None [1, 2] [7] = Some (Inr root') \<and>
     holds_map plain_env no_db root' (Map.empty([1, 2] \<mapsto> [7]))"
  using trie_is_a_map [OF holds_empty [of plain_env no_db], of "[1, 2]" "[7]"] by simp

text \<open>C3: The root hash depends on nothing but the content: two tries that are built from the empty trie by updates and
  deletions in any order have the same root hash when they hold the same map, for any encoding and hash function.
  None of the updates fails.\<close>

theorem trie_root_hash_canonical:
  assumes "fold upd kvs Map.empty = fold upd kvs' Map.empty"
  shows "\<exists>root root' h r r'. put_all (TryUpdate db) kvs None = Some (Inr root) \<and>
    put_all (TryUpdate db) kvs' None = Some (Inr root') \<and>
    HashTrie E emptyRoot root = Inr (h, r) \<and> HashTrie E emptyRoot root' = Inr (h, r')"
proof -
  from trie.put_all_holds [OF holds_empty] obtain root root' where
    1: "put_all (TryUpdate db) kvs None = Some (Inr root)" "holds_map E db root (fold upd kvs Map.empty)" and
    2: "put_all (TryUpdate db) kvs' None = Some (Inr root')" "holds_map E db root' (fold upd kvs' Map.empty)" by metis
  from same_map_same_hash [OF 1(2) 2(2) [folded assms], of emptyRoot] 1(1) 2(1) show ?thesis by blast
qed

theorem trie_root_hash_canonical_witness:
  "\<exists>root root' h r r'. put_all (TryUpdate no_db) [([1], [5]), ([1, 2], [6]), ([3], [9]), ([3], [])] None = Some (Inr root) \<and>
    put_all (TryUpdate no_db) [([1, 2], [6]), ([1], [4]), ([1], [5])] None = Some (Inr root') \<and>
    HashTrie plain_env [] root = Inr (h, r) \<and> HashTrie plain_env [] root' = Inr (h, r')"
  by (rule trie_root_hash_canonical) (auto simp: upd_def fun_eq_iff)

text \<open>C13: Hashing a trie returns, and the hashes that it caches in the nodes are never stale: after updates of a trie that was
  hashed before, the root hash is the one of a trie that was never hashed.\<close>

theorem trie_cached_hashes_fresh:
  assumes "holds_map E db root m" "HashTrie E emptyRoot root = Inr (h, root1)"
    and "put_all (TryUpdate db) kvs root1 = Some (Inr root2)" "put_all (TryUpdate db) kvs root = Some (Inr root3)"
  shows "map_sum id fst (HashTrie E emptyRoot root2) = map_sum id fst (HashTrie E emptyRoot root3)"
proof -
  have "holds_map E db root1 m" using same_map_same_hash [OF assms(1,1), of emptyRoot] assms(2) by auto
  then have "holds_map E db root2 (fold upd kvs m)" using trie.put_all_holds [of E db root1 m kvs] assms(3) by auto
  moreover have "holds_map E db root3 (fold upd kvs m)" using trie.put_all_holds [OF assms(1), of kvs] assms(4) by auto
  ultimately show ?thesis using same_map_same_hash [of E db root2 _ db root3 emptyRoot] by fastforce
qed

theorem trie_cached_hashes_fresh_witness:
  "\<exists>root h root1 root2 root3. put_all (TryUpdate no_db) [([1], [5]), ([1, 2], [6])] None = Some (Inr root) \<and>
    HashTrie plain_env [] root = Inr (h, root1) \<and>
    put_all (TryUpdate no_db) [([1], [8])] root1 = Some (Inr root2) \<and>
    put_all (TryUpdate no_db) [([1], [8])] root = Some (Inr root3) \<and>
    map_sum id fst (HashTrie plain_env [] root2) = map_sum id fst (HashTrie plain_env [] root3)"
proof -
  from trie.put_all_holds [OF holds_empty] obtain root where
    1: "put_all (TryUpdate no_db) [([1], [5]), ([1, 2], [6])] None = Some (Inr root)"
      "holds_map plain_env no_db root (fold upd [([1], [5]), ([1, 2], [6])] Map.empty)" by blast
  from same_map_same_hash [OF 1(2,2)] obtain h root1 where
    2: "HashTrie plain_env [] root = Inr (h, root1)"
      "holds_map plain_env no_db root1 (fold upd [([1], [5]), ([1, 2], [6])] Map.empty)" by blast
  from trie.put_all_holds [OF 2(2)] trie.put_all_holds [OF 1(2)] obtain root2 root3 where
    "put_all (TryUpdate no_db) [([1], [8])] root1 = Some (Inr root2)"
    "put_all (TryUpdate no_db) [([1], [8])] root = Some (Inr root3)" by blast
  with 1(1) 2(1) trie_cached_hashes_fresh [OF 1(2) 2(1) this] show ?thesis by blast
qed

end
