(* ===== verification/Computations.thy ===== *)
theory Computations
  imports Prelude
begin

text \<open>
  Computations of the Go code over a state: a call may not return (\<open>None\<close>), may panic or return an error, or
  return a value. An error keeps what was already changed, so the state is part of every outcome. \<open>Caused\<close>
  is an error that wraps another one, as \<open>state.Error\<close> does; panics pass through.
\<close>

datatype 'e failure = Panic string | Err 'e | Caused "'e failure"

type_synonym ('a, 'e, 's) io = "'s \<Rightarrow> (('e failure + 'a) \<times> 's) option"

definition ret :: "'a \<Rightarrow> ('a, 'e, 's) io" where
  "ret a s = Some (Inr a, s)"

definition fail :: "'e failure \<Rightarrow> ('a, 'e, 's) io" where
  "fail e s = Some (Inl e, s)"

definition andthen :: "('a, 'e, 's) io \<Rightarrow> ('a \<Rightarrow> ('b, 'e, 's) io) \<Rightarrow> ('b, 'e, 's) io" where
  "andthen m f s =
     (case m s of
        None \<Rightarrow> None
      | Some (Inl e, s') \<Rightarrow> Some (Inl e, s')
      | Some (Inr a, s') \<Rightarrow> f a s')"

fun wrap_failure :: "'e failure \<Rightarrow> 'e failure" where
  "wrap_failure (Panic p) = Panic p"
| "wrap_failure e = Caused e"

definition wrapped :: "('a, 'e, 's) io \<Rightarrow> ('a, 'e, 's) io" where
  "wrapped m s = map_option (\<lambda>(r, s'). (map_sum wrap_failure id r, s')) (m s)"

text \<open>A panic that is the left value of a pure operation.\<close>

definition or_panic :: "string + 'a \<Rightarrow> ('a, 'e, 's) io" where
  "or_panic r s = Some (map_sum Panic id r, s)"

text \<open>A computation on a component of the state.\<close>

definition on_part :: "('s \<Rightarrow> 't) \<Rightarrow> ('t \<Rightarrow> 's \<Rightarrow> 's) \<Rightarrow> ('a, 'e, 't) io \<Rightarrow> ('a, 'e, 's) io" where
  "on_part get put m s = map_option (\<lambda>(r, t). (r, put t s)) (m (get s))"

section \<open>Returning\<close>

text \<open>\<open>returns m s a s'\<close>: the call returns the value \<open>a\<close> without an error and leaves \<open>s'\<close>.\<close>

definition returns :: "('a, 'e, 's) io \<Rightarrow> 's \<Rightarrow> 'a \<Rightarrow> 's \<Rightarrow> bool" where
  "returns m s a s' = (m s = Some (Inr a, s'))"

lemma returns_ret [simp]: "returns (ret a) s b s' \<longleftrightarrow> b = a \<and> s' = s"
  by (auto simp: returns_def ret_def)

lemma returns_fail [simp]: "\<not> returns (fail e) s b s'"
  by (simp add: returns_def fail_def)

lemma returns_andthen: "returns m s a s1 \<Longrightarrow> returns (f a) s1 b s2 \<Longrightarrow> returns (andthen m f) s b s2"
  by (simp add: returns_def andthen_def)

lemma returns_andthen_iff: "returns m s a s1 \<Longrightarrow> returns (andthen m f) s b s2 \<longleftrightarrow> returns (f a) s1 b s2"
  by (simp add: returns_def andthen_def)

lemma returns_wrapped [simp]: "returns (wrapped m) s a s' \<longleftrightarrow> returns m s a s'"
  by (auto simp: returns_def wrapped_def elim: sum.exhaust_sel) (metis Inl_Inr_False map_sum.simps(1) sum.exhaust map_sum.simps(2) id_apply sum.inject(2))

lemma returns_or_panic [simp]: "returns (or_panic r) s a s' \<longleftrightarrow> r = Inr a \<and> s' = s"
  by (cases r) (auto simp: returns_def or_panic_def)

lemma returns_on_part: "returns m (get s) a t \<Longrightarrow> s' = put t s \<Longrightarrow> returns (on_part get put m) s a s'"
  by (simp add: returns_def on_part_def)

lemma returns_unique: "returns m s a s1 \<Longrightarrow> returns m s b s2 \<Longrightarrow> b = a \<and> s2 = s1"
  by (simp add: returns_def)

end
