(* ===== verification/Mux_Trie.thy ===== *)
theory Mux_Trie
  imports Trie_Root Computations
begin

text \<open>
  The managed trie of \<^verbatim>\<open>muxdb/trie.go\<close>: it opens the trie of its root on the first use and, if it is
  secure, hashes the keys and remembers them. The database of a trie, with the caches in front of it, is the
  parameter \<open>db\<close>; \<open>E\<close> holds the hash function.
\<close>

section \<open>The program\<close>

text \<open>\<open>lazyInit\<close> keeps the trie or the error of the first attempt: \<open>None\<close> before it.\<close>

record MuxTrie =
  mt_originalRoot :: bytes32
  mt_secure :: bool
  mt_trieObj :: "(trie_error + node option) option"
  mt_secureKeys :: "(bytes32 \<times> byte list) list"

definition newTrie :: "bytes32 \<Rightarrow> bool \<Rightarrow> MuxTrie" where
  "newTrie root secure = \<lparr>mt_originalRoot = root, mt_secure = secure, mt_trieObj = None, mt_secureKeys = []\<rparr>"

definition NewSecureTrie :: "bytes32 \<Rightarrow> MuxTrie" where
  "NewSecureTrie root = newTrie root True"

text \<open>\<open>blake2b\<close> of the encoding of the empty string.\<close>

definition emptyRoot :: "hash_env \<Rightarrow> bytes32" where
  "emptyRoot E = blake2b E (rlp_bytes E (RStr []))"

text \<open>Errors of the node: those of a trie, and those of a library such as RLP or the key-value store.\<close>

datatype node_error = TrieErr trie_error | LibErr string

definition trie_failure :: "trie_error \<Rightarrow> node_error failure" where
  "trie_failure e = (case e of TriePanic p \<Rightarrow> Panic p | _ \<Rightarrow> Err (TrieErr e))"

definition lazyInit :: "hash_env \<Rightarrow> database \<Rightarrow> (node option, node_error, MuxTrie) io" where
  "lazyInit E db t =
     (let obj = (case mt_trieObj t of Some r \<Rightarrow> r | None \<Rightarrow> NewTrie (emptyRoot E) (mt_originalRoot t) (Some db)) in
      Some (map_sum trie_failure id obj, t\<lparr>mt_trieObj := Some obj\<rparr>))"

definition hashKey :: "hash_env \<Rightarrow> byte list \<Rightarrow> bool \<Rightarrow> (byte list, node_error, MuxTrie) io" where
  "hashKey E key save t =
     (if \<not> mt_secure t then ret key t
      else
        let h = blake2b E key in
        ret h (if save then t\<lparr>mt_secureKeys := AList.update h key (mt_secureKeys t)\<rparr> else t))"

definition set_root :: "node option \<Rightarrow> MuxTrie \<Rightarrow> MuxTrie" where
  "set_root root t = t\<lparr>mt_trieObj := Some (Inr root)\<rparr>"

definition mt_Get :: "hash_env \<Rightarrow> database \<Rightarrow> byte list \<Rightarrow> (byte list option, node_error, MuxTrie) io" where
  "mt_Get E db key =
     andthen (lazyInit E db) (\<lambda>root.
       andthen (hashKey E key False) (\<lambda>k t.
         map_option (\<lambda>(r, root'). (map_sum trie_failure id r, set_root root' t)) (TryGet db root k)))"

definition mt_Update :: "hash_env \<Rightarrow> database \<Rightarrow> byte list \<Rightarrow> byte list \<Rightarrow> (unit, node_error, MuxTrie) io" where
  "mt_Update E db key val =
     andthen (lazyInit E db) (\<lambda>root.
       andthen (hashKey E key True) (\<lambda>k t.
         map_option
           (\<lambda>r. case r of Inl e \<Rightarrow> (Inl (trie_failure e), t) | Inr root' \<Rightarrow> (Inr (), set_root root' t))
           (TryUpdate db root k val)))"

text \<open>\<open>Hash\<close> falls back to the original root when the trie cannot be opened.\<close>

definition mt_Hash :: "hash_env \<Rightarrow> database \<Rightarrow> (bytes32, node_error, MuxTrie) io" where
  "mt_Hash E db t =
     (case lazyInit E db t of
        Some (Inr root, t') \<Rightarrow>
          (case HashTrie E (emptyRoot E) root of
             Inr (h, root') \<Rightarrow> ret h (set_root root' t')
           | Inl p \<Rightarrow> fail (Panic p) t')
      | Some (Inl (Panic p), t') \<Rightarrow> fail (Panic p) t'
      | Some (Inl _, t') \<Rightarrow> ret (mt_originalRoot t) t'
      | None \<Rightarrow> None)"

section \<open>The map of a managed trie\<close>

text \<open>A managed trie holds a map if the trie it has opened, or would open, does.\<close>

definition mt_holds :: "hash_env \<Rightarrow> database \<Rightarrow> MuxTrie \<Rightarrow> (byte list \<Rightarrow> byte list option) \<Rightarrow> bool" where
  "mt_holds E db t m =
     (\<exists>root. (case mt_trieObj t of Some r \<Rightarrow> r | None \<Rightarrow> NewTrie (emptyRoot E) (mt_originalRoot t) (Some db)) = Inr root \<and>
        holds_map E db root m)"

definition mt_key :: "hash_env \<Rightarrow> MuxTrie \<Rightarrow> byte list \<Rightarrow> byte list" where
  "mt_key E t key = (if mt_secure t then blake2b E key else key)"

lemma lazyInit_holds:
  assumes "mt_holds E db t m"
  shows "\<exists>root. lazyInit E db t = Some (Inr root, t\<lparr>mt_trieObj := Some (Inr root)\<rparr>) \<and> holds_map E db root m"
  using assms by (auto simp: mt_holds_def lazyInit_def Let_def)

lemma mt_Get_holds:
  assumes "mt_holds E db t m"
  shows "\<exists>t'. returns (mt_Get E db key) t (m (mt_key E t key)) t' \<and> mt_holds E db t' m \<and> mt_secure t' = mt_secure t"
proof -
  from lazyInit_holds [OF assms] obtain root where
    root: "lazyInit E db t = Some (Inr root, t\<lparr>mt_trieObj := Some (Inr root)\<rparr>)" "holds_map E db root m" by blast
  from trie.get_holds [OF this(2), of "mt_key E t key"] obtain root' where
    "TryGet db root (mt_key E t key) = Some (Inr (m (mt_key E t key)), root')" "holds_map E db root' m" by blast
  with root(1) show ?thesis
    by (auto simp: returns_def mt_Get_def andthen_def hashKey_def ret_def Let_def mt_key_def mt_holds_def set_root_def
        split: if_splits)
qed

lemma mt_Update_holds:
  assumes "mt_holds E db t m"
  shows "\<exists>t'. returns (mt_Update E db key val) t () t' \<and> mt_holds E db t' (upd (mt_key E t key, val) m) \<and>
    mt_secure t' = mt_secure t"
proof -
  from lazyInit_holds [OF assms] obtain root where
    root: "lazyInit E db t = Some (Inr root, t\<lparr>mt_trieObj := Some (Inr root)\<rparr>)" "holds_map E db root m" by blast
  from trie.put_holds [OF this(2), of "mt_key E t key" val] obtain root' where
    "TryUpdate db root (mt_key E t key) val = Some (Inr root')" "holds_map E db root' (upd (mt_key E t key, val) m)" by blast
  with root(1) show ?thesis
    by (auto simp: returns_def mt_Update_def andthen_def hashKey_def ret_def Let_def mt_key_def mt_holds_def set_root_def
        split: if_splits)
qed

text \<open>The hash is a function of the map.\<close>

definition map_hash :: "hash_env \<Rightarrow> (byte list \<Rightarrow> byte list option) \<Rightarrow> bytes32" where
  "map_hash E m = root_hash E (emptyRoot E) (THE t. stands_for t m)"

lemma mt_Hash_holds:
  assumes "mt_holds E db t m"
  shows "\<exists>t'. returns (mt_Hash E db) t (map_hash E m) t' \<and> mt_holds E db t' m \<and> mt_secure t' = mt_secure t"
proof -
  from lazyInit_holds [OF assms] obtain root where
    root: "lazyInit E db t = Some (Inr root, t\<lparr>mt_trieObj := Some (Inr root)\<rparr>)" "holds_map E db root m" by blast
  then obtain p where p: "loads E db True [] root p" "stands_for p m" by (auto simp: holds_map_def)
  then have "(THE t. stands_for t m) = p" using stands_for_unique by blast
  moreover have "well False p" using p(2) by (simp add: stands_for_def)
  ultimately obtain root' where "HashTrie E (emptyRoot E) root = Inr (map_hash E m, root')" "loads E db True [] root' p"
    using HashTrie_loads [OF p(1), of "emptyRoot E"] by (auto simp: map_hash_def)
  with root(1) p(2) show ?thesis
    by (auto simp: returns_def mt_Hash_def ret_def mt_holds_def holds_map_def set_root_def)
qed

end
