(* ===== verification/Accounts.thy ===== *)
theory Accounts
  imports Mux_Trie
begin

text \<open>
  Accounts and what is stored for them (\<^verbatim>\<open>state/account.go\<close>, \<^verbatim>\<open>state/cached_object.go\<close>): the energy of an account
  over time, loading and saving of accounts and storage slots in tries, and the object that caches
  code and storage of an account. The RLP coding of accounts, the hash functions, the key-value store and the
  cache of codes are parameters.
\<close>

section \<open>Accounts\<close>

record Account =
  Balance :: int
  Energy :: int
  BlockTime :: u64
  Master :: "byte list"
  CodeHash :: "byte list"
  StorageRoot :: "byte list"

definition IsEmpty :: "Account \<Rightarrow> bool" where
  "IsEmpty a = (Balance a = 0 \<and> Energy a = 0 \<and> length (Master a) = 0 \<and> length (CodeHash a) = 0)"

definition EnergyGrowthRate :: int where
  "EnergyGrowthRate = 5000000000"

definition bigE18 :: int where
  "bigE18 = 10 ^ 18"

definition CalcEnergy :: "Account \<Rightarrow> u64 \<Rightarrow> int" where
  "CalcEnergy a blockTime =
     (if BlockTime a = 0 then Energy a
      else if Balance a = 0 then Energy a
      else if blockTime \<le> BlockTime a then Energy a
      else Energy a + (uint (blockTime - BlockTime a) * Balance a * EnergyGrowthRate) div bigE18)"

definition emptyAccount :: Account where
  "emptyAccount = \<lparr>Balance = 0, Energy = 0, BlockTime = 0, Master = [], CodeHash = [], StorageRoot = []\<rparr>"

text \<open>
  The parameters of the state: hash functions, the databases of the tries by name, the store of codes, the RLP coding
  of accounts and the kind (a list or not) and content of an RLP value, the conversions of byte slices to
  arrays, and the insertion into the bounded cache of codes, which may evict entries.
\<close>

record env =
  e_hash :: hash_env
  e_keccak :: "byte list \<Rightarrow> byte list"
  e_trie_db :: "byte list \<Rightarrow> database"
  e_code_store :: "byte list \<Rightarrow> string + byte list"
  e_acc_enc :: "Account \<Rightarrow> string + byte list"
  e_acc_dec :: "byte list \<Rightarrow> string + Account"
  e_rlp_split :: "byte list \<Rightarrow> string + bool \<times> byte list"
  e_BytesToBytes32 :: "byte list \<Rightarrow> bytes32"
  e_BytesToAddress :: "byte list \<Rightarrow> address"
  e_arc_add :: "byte list \<Rightarrow> byte list \<Rightarrow> (byte list \<Rightarrow> byte list option) \<Rightarrow> byte list \<Rightarrow> byte list option"

definition or_err :: "string + 'a \<Rightarrow> ('a, node_error, 's) io" where
  "or_err r s = Some (map_sum (\<lambda>e. Err (LibErr e)) id r, s)"

lemma returns_or_err [simp]: "returns (or_err r) s a s' \<longleftrightarrow> r = Inr a \<and> s' = s"
  by (cases r) (auto simp: returns_def or_err_def)

definition AccountTrieName :: "byte list" where
  "AccountTrieName = [97]"

definition StorageTrieName :: "bytes32 \<Rightarrow> byte list" where
  "StorageTrieName addressHash = 115 # take 16 addressHash"

text \<open>A nil slice is an empty one.\<close>

definition bytes_of :: "byte list option \<Rightarrow> byte list" where
  "bytes_of r = (case r of None \<Rightarrow> [] | Some bs \<Rightarrow> bs)"

definition loadAccount :: "env \<Rightarrow> address \<Rightarrow> (Account, node_error, MuxTrie) io" where
  "loadAccount E addr =
     andthen (mt_Get (e_hash E) (e_trie_db E AccountTrieName) addr) (\<lambda>data.
       if length (bytes_of data) = 0 then ret emptyAccount else or_err (e_acc_dec E (bytes_of data)))"

definition saveAccount :: "env \<Rightarrow> address \<Rightarrow> Account \<Rightarrow> (unit, node_error, MuxTrie) io" where
  "saveAccount E addr a =
     (if IsEmpty a then mt_Update (e_hash E) (e_trie_db E AccountTrieName) addr []
      else andthen (or_err (e_acc_enc E a)) (\<lambda>data. mt_Update (e_hash E) (e_trie_db E AccountTrieName) addr data))"

text \<open>The storage tries have a database of their own each.\<close>

definition loadStorage :: "env \<Rightarrow> database \<Rightarrow> bytes32 \<Rightarrow> (byte list, node_error, MuxTrie) io" where
  "loadStorage E db key = andthen (mt_Get (e_hash E) db key) (\<lambda>r. ret (bytes_of r))"

definition saveStorage :: "env \<Rightarrow> database \<Rightarrow> bytes32 \<Rightarrow> byte list \<Rightarrow> (unit, node_error, MuxTrie) io" where
  "saveStorage E db key data = mt_Update (e_hash E) db key data"

section \<open>Cached objects\<close>

record cachedObject =
  co_addr :: address
  co_data :: Account
  co_code :: "byte list"
  co_storageTrie :: "MuxTrie option"
  co_storage :: "(bytes32 \<times> byte list) list"

definition newCachedObject :: "address \<Rightarrow> Account \<Rightarrow> cachedObject" where
  "newCachedObject addr data = \<lparr>co_addr = addr, co_data = data, co_code = [], co_storageTrie = None, co_storage = []\<rparr>"

definition storage_db :: "env \<Rightarrow> address \<Rightarrow> database" where
  "storage_db E addr = e_trie_db E (StorageTrieName (blake2b (e_hash E) addr))"

definition getOrCreateStorageTrie :: "env \<Rightarrow> cachedObject \<Rightarrow> MuxTrie" where
  "getOrCreateStorageTrie E co =
     (case co_storageTrie co of
        Some t \<Rightarrow> t
      | None \<Rightarrow> NewSecureTrie (e_BytesToBytes32 E (StorageRoot (co_data co))))"

definition co_GetStorage :: "env \<Rightarrow> bytes32 \<Rightarrow> (byte list, node_error, cachedObject) io" where
  "co_GetStorage E key co =
     (case map_of (co_storage co) key of
        Some v \<Rightarrow> ret v co
      | None \<Rightarrow>
          map_option
            (\<lambda>(r, t). (r, case r of
               Inl _ \<Rightarrow> co\<lparr>co_storageTrie := Some t\<rparr>
             | Inr v \<Rightarrow> co\<lparr>co_storageTrie := Some t, co_storage := AList.update key v (co_storage co)\<rparr>))
            (loadStorage E (storage_db E (co_addr co)) key (getOrCreateStorageTrie E co)))"

text \<open>\<open>GetCode\<close> works on the object and the global cache of codes.\<close>

definition co_GetCode ::
    "env \<Rightarrow> (byte list, node_error, cachedObject \<times> (byte list \<Rightarrow> byte list option)) io" where
  "co_GetCode E s =
     (case s of (co, codeCache) \<Rightarrow>
        if length (co_code co) > 0 then ret (co_code co) s
        else if length (CodeHash (co_data co)) > 0 then
          (case codeCache (CodeHash (co_data co)) of
             Some code \<Rightarrow> ret code s
           | None \<Rightarrow>
               (case e_code_store E (CodeHash (co_data co)) of
                  Inl e \<Rightarrow> fail (Err (LibErr e)) s
                | Inr code \<Rightarrow>
                    ret code (co\<lparr>co_code := code\<rparr>, e_arc_add E (CodeHash (co_data co)) code codeCache)))
        else ret [] s)"

section \<open>Energy\<close>

lemma CalcEnergy_grows:
  assumes "BlockTime a \<noteq> 0" "BlockTime a \<le> t"
  shows "CalcEnergy a t = Energy a + (uint (t - BlockTime a) * Balance a * EnergyGrowthRate) div bigE18"
  using assms by (auto simp: CalcEnergy_def)

lemma div_sum_bounds: "(x :: int) div c + y div c \<le> (x + y) div c" "(x + y) div c \<le> x div c + y div c + 1" if "0 < c"
proof -
  have "(x + y) div c = x div c + y div c + (x mod c + y mod c) div c" by (rule div_add1_eq)
  moreover have "0 \<le> (x mod c + y mod c) div c" using that by (simp add: pos_imp_zdiv_nonneg_iff)
  moreover have "(x mod c + y mod c) div c < 2"
  proof -
    let ?s = "x mod c + y mod c"
    have "?s div c * c \<le> ?s" using pos_mod_sign [OF that, of ?s] by (simp add: minus_mod_eq_div_mult [symmetric])
    also have "\<dots> < 2 * c" using pos_mod_bound [OF that, of x] pos_mod_bound [OF that, of y] by simp
    finally show ?thesis using that by (simp add: mult_less_cancel_right)
  qed
  ultimately show "x div c + y div c \<le> (x + y) div c" "(x + y) div c \<le> x div c + y div c + 1" by simp_all
qed



end
