(* ===== verification/Stacked_Map.thy ===== *)
theory Stacked_Map
  imports Computations
begin

text \<open>
  \<open>StackedMap\<close> (\<^verbatim>\<open>common/stackedmap/stackedmap.go\<close>): a stack of maps over a source of data, with a table of the levels
  that define each key, so that a lookup need not search the stack. Specification: the topmost level that defines a
  key gives its value, and popping levels restores what was visible before they were pushed.
  A Go panic is a left value.
\<close>

section \<open>The structure\<close>

record ('k, 'v) level =
  kvs :: "('k \<times> 'v) list"
  journal :: "('k \<times> 'v) list"

record ('k, 'v) StackedMap =
  mapStack :: "('k, 'v) level list"
  keyRevisionMap :: "'k \<Rightarrow> nat list option"

definition newLevel :: "('k, 'v) level" where
  "newLevel = \<lparr>kvs = [], journal = []\<rparr>"

text \<open>
  The source of data is an argument of \<open>Get\<close>, a computation over a state of its own. Its result \<open>None\<close> says that the
  key does not exist.
\<close>

definition sm_New :: "('k, 'v) StackedMap" where
  "sm_New = \<lparr>mapStack = [newLevel], keyRevisionMap = \<lambda>_. None\<rparr>"

definition Depth :: "('k, 'v) StackedMap \<Rightarrow> nat" where
  "Depth sm = length (mapStack sm)"

definition Push :: "('k, 'v) StackedMap \<Rightarrow> ('k, 'v) StackedMap \<times> nat" where
  "Push sm = (sm\<lparr>mapStack := mapStack sm @ [newLevel]\<rparr>, length (mapStack sm))"

definition slice_panic :: string where
  "slice_panic = ''index out of range''"

definition nil_panic :: string where
  "nil_panic = ''invalid memory address or nil pointer dereference''"

text \<open>
  The loop of \<open>Pop\<close> over the keys of the top level. Go visits them in an arbitrary order; they are distinct, so the
  order of the association list stands for all of them. A key without revisions is a nil pointer.
\<close>

fun pop_revisions :: "'k list \<Rightarrow> ('k \<Rightarrow> nat list option) \<Rightarrow> string + ('k \<Rightarrow> nat list option)" where
  "pop_revisions [] krm = Inr krm"
| "pop_revisions (key # keys) krm =
     (case krm key of
        None \<Rightarrow> Inl nil_panic
      | Some revs \<Rightarrow>
          if revs = [] then Inl slice_panic
          else pop_revisions keys (krm(key := (if butlast revs = [] then None else Some (butlast revs)))))"

definition Pop :: "('k, 'v) StackedMap \<Rightarrow> string + ('k, 'v) StackedMap" where
  "Pop sm =
     (if mapStack sm = [] then Inl slice_panic
      else let top = last (mapStack sm) in
        case pop_revisions (map fst (kvs top)) (keyRevisionMap sm) of
          Inl e \<Rightarrow> Inl e
        | Inr krm \<Rightarrow> Inr (sm\<lparr>keyRevisionMap := krm, mapStack := butlast (mapStack sm)\<rparr>))"

function PopTo :: "nat \<Rightarrow> ('k, 'v) StackedMap \<Rightarrow> string + ('k, 'v) StackedMap" where
  "PopTo depth sm =
     (if depth < length (mapStack sm)
      then (case Pop sm of Inl e \<Rightarrow> Inl e | Inr sm' \<Rightarrow> PopTo depth sm') else Inr sm)"
  by pat_completeness auto
termination
  by (relation "measure (\<lambda>(depth, sm). length (mapStack sm))")
    (auto simp: Pop_def Let_def split: if_splits sum.splits)

declare PopTo.simps [simp del]

definition Get ::
    "('k \<Rightarrow> ('v option, 'e, 'c) io) \<Rightarrow> ('k, 'v) StackedMap \<Rightarrow> 'k \<Rightarrow> ('v option, 'e, 'c) io" where
  "Get src sm key =
     (case keyRevisionMap sm key of
        None \<Rightarrow> src key
      | Some revs \<Rightarrow>
          if revs = [] \<or> length (mapStack sm) \<le> last revs then fail (Panic slice_panic)
          else (case map_of (kvs (mapStack sm ! last revs)) key of
                  Some v \<Rightarrow> ret (Some v)
                | None \<Rightarrow> src key))"

definition Put :: "'k \<Rightarrow> 'v \<Rightarrow> ('k, 'v) StackedMap \<Rightarrow> string + ('k, 'v) StackedMap" where
  "Put key v sm =
     (if mapStack sm = [] then Inl slice_panic
      else
        let top = last (mapStack sm); rev = length (mapStack sm) - 1;
            top' = top\<lparr>kvs := AList.update key v (kvs top), journal := journal top @ [(key, v)]\<rparr>;
            sm1 = sm\<lparr>mapStack := butlast (mapStack sm) @ [top']\<rparr>
        in case keyRevisionMap sm key of
             None \<Rightarrow> Inr (sm1\<lparr>keyRevisionMap := (keyRevisionMap sm)(key := Some [rev])\<rparr>)
           | Some revs \<Rightarrow>
               if revs = [] then Inl slice_panic
               else if last revs \<noteq> rev
               then Inr (sm1\<lparr>keyRevisionMap := (keyRevisionMap sm)(key := Some (revs @ [rev]))\<rparr>)
               else Inr sm1)"

text \<open>\<open>Journal\<close>: the entries in the order in which the callback gets them, until it returns \<open>False\<close>.\<close>

definition entries_of :: "('k, 'v) StackedMap \<Rightarrow> ('k \<times> 'v) list" where
  "entries_of sm = concat (map journal (mapStack sm))"

fun feed :: "('k \<Rightarrow> 'v \<Rightarrow> 's \<Rightarrow> 's \<times> bool) \<Rightarrow> ('k \<times> 'v) list \<Rightarrow> 's \<Rightarrow> 's" where
  "feed cb [] s = s"
| "feed cb (e # es) s = (case cb (fst e) (snd e) s of (s', go) \<Rightarrow> if go then feed cb es s' else s')"

definition Journal :: "('k \<Rightarrow> 'v \<Rightarrow> 's \<Rightarrow> 's \<times> bool) \<Rightarrow> ('k, 'v) StackedMap \<Rightarrow> 's \<Rightarrow> 's" where
  "Journal cb sm s = feed cb (entries_of sm) s"

section \<open>Specification\<close>

text \<open>The levels that define a key, and the value that the topmost of them gives.\<close>

definition revisions :: "('k, 'v) level list \<Rightarrow> 'k \<Rightarrow> nat list" where
  "revisions ls k = filter (\<lambda>i. map_of (kvs (ls ! i)) k \<noteq> None) [0..<length ls]"

fun visible :: "('k, 'v) level list \<Rightarrow> 'k \<Rightarrow> 'v option" where
  "visible [] k = None"
| "visible (l # ls) k = (case visible ls k of Some v \<Rightarrow> Some v | None \<Rightarrow> map_of (kvs l) k)"

definition lookup ::
    "('k \<Rightarrow> ('v option, 'e, 'c) io) \<Rightarrow> ('k, 'v) StackedMap \<Rightarrow> 'k \<Rightarrow> ('v option, 'e, 'c) io" where
  "lookup src sm k = (case visible (mapStack sm) k of Some v \<Rightarrow> ret (Some v) | None \<Rightarrow> src k)"

text \<open>
  The invariant: the table lists the levels that define the key, and the entries of a level are what its
  journal says.
\<close>

definition level_ok :: "('k, 'v) level \<Rightarrow> bool" where
  "level_ok l = (map_of (kvs l) = map_of (rev (journal l)) \<and> distinct (map fst (kvs l)))"

definition sm_inv :: "('k, 'v) StackedMap \<Rightarrow> bool" where
  "sm_inv sm =
     (mapStack sm \<noteq> [] \<and> list_all level_ok (mapStack sm) \<and>
      (\<forall>k. keyRevisionMap sm k =
         (if revisions (mapStack sm) k = [] then None else Some (revisions (mapStack sm) k))))"

lemma revisions_snoc:
  "revisions (ls @ [l]) k = revisions ls k @ (if map_of (kvs l) k \<noteq> None then [length ls] else [])"
proof -
  have "filter (\<lambda>i. map_of (kvs ((ls @ [l]) ! i)) k \<noteq> None) [0..<length ls] = filter (\<lambda>i. map_of (kvs (ls ! i)) k \<noteq> None) [0..<length ls]"
    by (rule filter_cong) (simp_all add: nth_append)
  then show ?thesis by (simp add: revisions_def nth_append)
qed

lemma revisions_less: "i \<in> set (revisions ls k) \<Longrightarrow> i < length ls"
  by (simp add: revisions_def)

lemma visible_append: "visible (ls @ ls') k = (case visible ls' k of Some v \<Rightarrow> Some v | None \<Rightarrow> visible ls k)"
  by (induction ls) (auto split: option.split)

lemma visible_revisions:
  "visible ls k = (if revisions ls k = [] then None else map_of (kvs (ls ! last (revisions ls k))) k)"
proof (induction ls rule: rev_induct)
  case (snoc l ls)
  then show ?case
    using revisions_less [of "last (revisions ls k)" ls k]
    by (auto simp: revisions_snoc visible_append nth_append split: option.split)
qed (simp add: revisions_def)

lemma inv_table:
  assumes "sm_inv sm"
  shows "keyRevisionMap sm k = (if revisions (mapStack sm) k = [] then None else Some (revisions (mapStack sm) k))"
  using assms by (simp add: sm_inv_def)

lemma Get_lookup:
  assumes "sm_inv sm"
  shows "Get src sm k = lookup src sm k"
proof (cases "revisions (mapStack sm) k = []")
  case True
  then show ?thesis by (simp add: Get_def lookup_def visible_revisions inv_table [OF assms])
next
  case False
  then have "last (revisions (mapStack sm) k) \<in> set (revisions (mapStack sm) k)" by simp
  then have "last (revisions (mapStack sm) k) < length (mapStack sm)"
    "map_of (kvs (mapStack sm ! last (revisions (mapStack sm) k))) k \<noteq> None" by (simp_all add: revisions_def)
  with False show ?thesis
    by (auto simp: Get_def lookup_def visible_revisions inv_table [OF assms] split: option.split)
qed

lemma sm_inv_New: "sm_inv sm_New"
  by (simp add: sm_inv_def sm_New_def newLevel_def level_ok_def revisions_def)

lemma sm_inv_Push: "sm_inv sm \<Longrightarrow> sm_inv (fst (Push sm))"
  by (simp add: sm_inv_def Push_def newLevel_def level_ok_def revisions_snoc)

text \<open>The stack is a lower part and a top level.\<close>

lemma inv_top:
  assumes "sm_inv sm"
  obtains ls l where "mapStack sm = ls @ [l]" "level_ok l" "list_all level_ok ls"
  using assms by (cases "mapStack sm" rule: rev_cases) (auto simp: sm_inv_def)

lemma Put_ok:
  assumes "sm_inv sm" "mapStack sm = ls @ [l]"
  shows "\<exists>sm'. Put k v sm = Inr sm' \<and> sm_inv sm' \<and>
    mapStack sm' = ls @ [l\<lparr>kvs := AList.update k v (kvs l), journal := journal l @ [(k, v)]\<rparr>]"
proof -
  let ?l = "l\<lparr>kvs := AList.update k v (kvs l), journal := journal l @ [(k, v)]\<rparr>"
  have ok: "level_ok ?l" "list_all level_ok ls"
    using assms by (auto simp: sm_inv_def level_ok_def update_conv' distinct_update)
  have tab: "keyRevisionMap sm j = (if revisions (ls @ [l]) j = [] then None else Some (revisions (ls @ [l]) j))" for j
    using inv_table [OF assms(1)] assms(2) by simp
  have other: "revisions (ls @ [?l]) j = revisions (ls @ [l]) j" if "j \<noteq> k" for j
    using that by (simp add: revisions_snoc update_conv')
  have here: "revisions (ls @ [?l]) k = revisions ls k @ [length ls]" by (simp add: revisions_snoc update_conv')
  show ?thesis
  proof (cases "map_of (kvs l) k = None")
    case True
    then have "revisions (ls @ [l]) k = revisions ls k" by (simp add: revisions_snoc)
    moreover have "revisions ls k \<noteq> [] \<Longrightarrow> last (revisions ls k) \<noteq> length ls"
      using revisions_less [of "last (revisions ls k)" ls k] by simp
    ultimately show ?thesis
      using ok other here assms(2)
      by (auto simp: Put_def Let_def tab sm_inv_def fun_upd_def)
  next
    case False
    then have k: "revisions (ls @ [l]) k = revisions ls k @ [length ls]" by (simp add: revisions_snoc)
    then have "revisions (ls @ [?l]) j = revisions (ls @ [l]) j" for j
      using other here by (cases "j = k") simp_all
    with k show ?thesis using ok assms(2) by (simp add: Put_def Let_def tab sm_inv_def)
  qed
qed

lemma pop_revisions_ok:
  assumes "distinct keys" "\<And>k. k \<in> set keys \<Longrightarrow> \<exists>rs. krm k = Some (rs @ [r])"
  shows "pop_revisions keys krm =
    Inr (\<lambda>k. if k \<in> set keys then (case krm k of Some rs \<Rightarrow> if butlast rs = [] then None else Some (butlast rs)
      | None \<Rightarrow> None) else krm k)"
  using assms
proof (induction keys arbitrary: krm)
  case (Cons key keys)
  from Cons.prems(2) [of key] obtain rs where rs: "krm key = Some (rs @ [r])" by auto
  have "pop_revisions keys (krm(key := (if rs = [] then None else Some rs))) =
      Inr (\<lambda>k. if k \<in> set keys then (case krm k of Some rs \<Rightarrow> if butlast rs = [] then None else Some (butlast rs)
        | None \<Rightarrow> None) else (krm(key := (if rs = [] then None else Some rs))) k)"
    using Cons.prems by (subst Cons.IH) (auto simp: fun_eq_iff)
  with rs show ?case by (auto simp: fun_eq_iff)
qed simp

lemma Pop_ok:
  assumes "sm_inv sm" "mapStack sm = ls @ [l]" "ls \<noteq> []"
  shows "\<exists>sm'. Pop sm = Inr sm' \<and> sm_inv sm' \<and> mapStack sm' = ls"
proof -
  have tab: "keyRevisionMap sm j = (if revisions (ls @ [l]) j = [] then None else Some (revisions (ls @ [l]) j))" for j
    using inv_table [OF assms(1)] assms(2) by simp
  have ok: "list_all level_ok ls" "distinct (map fst (kvs l))"
    using assms(1,2) by (simp_all add: sm_inv_def level_ok_def)
  have dom: "j \<in> set (map fst (kvs l)) \<longleftrightarrow> map_of (kvs l) j \<noteq> None" for j
    by (simp add: map_of_eq_None_iff)
  have "pop_revisions (map fst (kvs l)) (keyRevisionMap sm) =
      Inr (\<lambda>j. if revisions ls j = [] then None else Some (revisions ls j))"
    by (subst pop_revisions_ok [where r = "length ls", OF ok(2)])
      (auto simp: dom tab revisions_snoc fun_eq_iff simp del: set_map)
  then show ?thesis using assms(2,3) ok(1) by (simp add: Pop_def sm_inv_def)
qed

lemma PopTo_ok:
  assumes "sm_inv sm" "0 < d"
  shows "\<exists>sm'. PopTo d sm = Inr sm' \<and> sm_inv sm' \<and> mapStack sm' = take d (mapStack sm)"
  using assms
proof (induction d sm rule: PopTo.induct)
  case (1 d sm)
  show ?case
  proof (cases "d < length (mapStack sm)")
    case True
    from inv_top [OF "1.prems"(1)] obtain ls l where sm: "mapStack sm = ls @ [l]" by metis
    with True "1.prems"(2) have "ls \<noteq> []" by auto
    from Pop_ok [OF "1.prems"(1) sm this] obtain sm' where
      sm': "Pop sm = Inr sm'" "sm_inv sm'" "mapStack sm' = ls" by blast
    have "\<exists>sm''. PopTo d sm' = Inr sm'' \<and> sm_inv sm'' \<and> mapStack sm'' = take d (mapStack sm')"
      by (rule "1.IH" [OF True sm'(1,2) "1.prems"(2)])
    with True sm sm'(1,3) show ?thesis by (simp add: PopTo.simps [of d sm])
  next
    case False
    with "1.prems" show ?thesis by (simp add: PopTo.simps [of d sm])
  qed
qed

section \<open>Checkpoints\<close>

text \<open>
  The contract of structures with checkpoints: \<open>view\<close> is what a client can observe, \<open>act\<close> a change of the top,
  \<open>push\<close> makes a checkpoint and returns its revision, \<open>revert\<close> goes back to a revision (or panics). \<open>frozen d\<close> relates
  states that agree on what a return to revision \<open>d\<close> restores.
\<close>

inductive activity ::
    "('s \<Rightarrow> 's \<Rightarrow> bool) \<Rightarrow> ('s \<Rightarrow> 's \<times> nat) \<Rightarrow> (nat \<Rightarrow> 's \<Rightarrow> 'e + 's) \<Rightarrow> nat \<Rightarrow> 's \<Rightarrow> 's \<Rightarrow> bool"
  for act push revert d where
  idle: "activity act push revert d s s"
| act: "activity act push revert d s s1 \<Longrightarrow> act s1 s2 \<Longrightarrow> activity act push revert d s s2"
| push: "activity act push revert d s s1 \<Longrightarrow> activity act push revert d s (fst (push s1))"
| revert: "activity act push revert d s s1 \<Longrightarrow> d < e \<Longrightarrow> revert e s1 = Inr s2 \<Longrightarrow> activity act push revert d s s2"

locale checkpointed =
  fixes inv :: "'s \<Rightarrow> bool" and view :: "'s \<Rightarrow> 'o" and depth :: "'s \<Rightarrow> nat"
    and act :: "'s \<Rightarrow> 's \<Rightarrow> bool" and push :: "'s \<Rightarrow> 's \<times> nat" and revert :: "nat \<Rightarrow> 's \<Rightarrow> 'e + 's"
    and frozen :: "nat \<Rightarrow> 's \<Rightarrow> 's \<Rightarrow> bool"
  assumes frozen_refl: "frozen d s s"
    and frozen_trans: "frozen d s s1 \<Longrightarrow> frozen d s1 s2 \<Longrightarrow> frozen d s s2"
    and act_law: "inv s \<Longrightarrow> act s s' \<Longrightarrow> inv s' \<and> depth s' = depth s \<and> (\<forall>d < depth s. frozen d s s')"
    and push_law: "inv s \<Longrightarrow> inv (fst (push s)) \<and> view (fst (push s)) = view s \<and> snd (push s) = depth s \<and>
      depth (fst (push s)) = Suc (depth s) \<and> (\<forall>d \<le> depth s. frozen d s (fst (push s)))"
    and revert_law: "inv s \<Longrightarrow> 0 < e \<Longrightarrow> \<exists>s'. revert e s = Inr s' \<and> inv s' \<and> depth s' = min e (depth s) \<and>
      (\<forall>d \<le> e. d \<le> depth s \<longrightarrow> frozen d s s')"
    and view_law: "inv s \<Longrightarrow> inv s' \<Longrightarrow> frozen (depth s) s s' \<Longrightarrow> revert (depth s) s' = Inr s'' \<Longrightarrow> view s'' = view s"
    and depth_pos: "inv s \<Longrightarrow> 0 < depth s"
begin

lemma activity_frozen:
  assumes "activity act push revert d s s'" "inv s" "d < depth s"
  shows "inv s' \<and> d < depth s' \<and> frozen d s s'"
  using assms
proof induction
  case (idle s)
  then show ?case by (simp add: frozen_refl)
next
  case (act s s1 s2)
  with act_law [of s1 s2] show ?case by (auto intro: frozen_trans)
next
  case (push s s1)
  with push_law [of s1] show ?case by (auto intro: frozen_trans)
next
  case (revert s s1 e s2)
  with revert_law [of s1 e] show ?case by (auto intro: frozen_trans)
qed

text \<open>Whatever happens above a checkpoint, going back to it succeeds and restores the view.\<close>

lemma revert_restores:
  assumes "inv s" "push s = (s1, r)" "activity act push revert r s1 s2"
  shows "\<exists>s3. revert r s2 = Inr s3 \<and> view s3 = view s \<and> inv s3 \<and> depth s3 = depth s"
proof -
  have p: "inv s1" "r = depth s" "depth s1 = Suc (depth s)" "frozen (depth s) s s1"
    using push_law [OF assms(1)] assms(2) by auto
  have a: "inv s2" "r < depth s2" "frozen r s1 s2"
    using activity_frozen [OF assms(3)] p by simp_all
  then have f: "frozen (depth s) s s2" using p(2,4) frozen_trans by blast
  obtain s3 where s3: "revert r s2 = Inr s3" "inv s3" "depth s3 = min r (depth s2)"
    using revert_law [OF a(1), of r] depth_pos [OF assms(1)] p(2) by auto
  with view_law [OF assms(1) a(1) f] p(2) a(2) show ?thesis by auto
qed

end

definition puts :: "('k, 'v) StackedMap \<Rightarrow> ('k, 'v) StackedMap \<Rightarrow> bool" where
  "puts sm sm' = (\<exists>k v. Put k v sm = Inr sm')"

definition same_below :: "nat \<Rightarrow> ('k, 'v) StackedMap \<Rightarrow> ('k, 'v) StackedMap \<Rightarrow> bool" where
  "same_below d sm sm' = (take d (mapStack sm) = take d (mapStack sm'))"

definition sm_view :: "('k, 'v) StackedMap \<Rightarrow> ('k \<Rightarrow> 'v option) \<times> ('k \<times> 'v) list" where
  "sm_view sm = (visible (mapStack sm), entries_of sm)"

lemma puts_law:
  assumes inv: "sm_inv s" and p: "puts s s'"
  shows "sm_inv s' \<and> Depth s' = Depth s \<and> (\<forall>d < Depth s. same_below d s s')"
proof -
  from p obtain k v where kv: "Put k v s = Inr s'" by (auto simp: puts_def)
  from inv_top [OF inv] obtain ls l where s: "mapStack s = ls @ [l]" by metis
  from Put_ok [OF inv s, of k v] kv s show ?thesis by (auto simp: Depth_def same_below_def)
qed

interpretation stacked: checkpointed sm_inv sm_view Depth puts Push PopTo same_below
proof unfold_locales
  fix s s' s'' :: "('a, 'b) StackedMap" and e
  assume inv: "sm_inv s"
  show "puts s s' \<Longrightarrow> sm_inv s' \<and> Depth s' = Depth s \<and> (\<forall>d < Depth s. same_below d s s')"
    by (rule puts_law [OF inv])
  show "sm_inv (fst (Push s)) \<and> sm_view (fst (Push s)) = sm_view s \<and> snd (Push s) = Depth s \<and>
      Depth (fst (Push s)) = Suc (Depth s) \<and> (\<forall>d \<le> Depth s. same_below d s (fst (Push s)))"
    using sm_inv_Push [OF inv]
    by (auto simp: Push_def sm_view_def Depth_def same_below_def visible_append newLevel_def entries_of_def)
  show "0 < e \<Longrightarrow> \<exists>s'. PopTo e s = Inr s' \<and> sm_inv s' \<and> Depth s' = min e (Depth s) \<and>
      (\<forall>d \<le> e. d \<le> Depth s \<longrightarrow> same_below d s s')"
    using PopTo_ok [OF inv, of e] by (auto simp: Depth_def same_below_def min_def)
  show pos: "0 < Depth s" using inv by (simp add: sm_inv_def Depth_def)
  show "sm_inv s' \<Longrightarrow> same_below (Depth s) s s' \<Longrightarrow> PopTo (Depth s) s' = Inr s'' \<Longrightarrow> sm_view s'' = sm_view s"
    using PopTo_ok [of s' "Depth s"] pos
    by (auto simp: sm_view_def same_below_def Depth_def entries_of_def)
qed (simp_all add: same_below_def)

lemma reached_inv: "activity puts Push PopTo 0 sm_New sm \<Longrightarrow> sm_inv sm"
  using stacked.activity_frozen [OF _ sm_inv_New, of 0 sm] by (simp add: Depth_def sm_New_def)

section \<open>Properties\<close>

text \<open>C12: On every map that is reached from \<open>New\<close> by \<open>Put\<close>, \<open>Push\<close> and \<open>PopTo\<close> (to a positive depth), the table of
  revisions is exact: no operation panics, and \<open>Get\<close> returns the value of the topmost level that defines the
  key, or asks the source when no level does.\<close>

theorem stackedmap_refines_stack:
  assumes "activity puts Push PopTo 0 sm_New sm"
  shows "Get src sm k = lookup src sm k \<and>
    (\<exists>sm'. Put k v sm = Inr sm' \<and> lookup src sm' = (lookup src sm)(k := ret (Some v)))"
proof -
  note inv = reached_inv [OF assms]
  from inv_top [OF inv] obtain ls l where sm: "mapStack sm = ls @ [l]" by metis
  from Put_ok [OF inv this, of k v] obtain sm' where "Put k v sm = Inr sm'"
    "mapStack sm' = ls @ [l\<lparr>kvs := AList.update k v (kvs l), journal := journal l @ [(k, v)]\<rparr>]" by blast
  moreover from this(2) sm have "lookup src sm' = (lookup src sm)(k := ret (Some v))"
    by (auto simp: fun_eq_iff lookup_def visible_append update_conv' split: option.split)
  ultimately show ?thesis using Get_lookup [OF inv] by blast
qed

text \<open>A small history: two writes of one key on two levels.\<close>

definition one_put :: "(string, int) StackedMap" where
  "one_put = \<lparr>mapStack = [\<lparr>kvs = [(''a'', 1)], journal = [(''a'', 1)]\<rparr>], keyRevisionMap = [''a'' \<mapsto> [0]]\<rparr>"

definition two_puts :: "(string, int) StackedMap" where
  "two_puts = \<lparr>mapStack = mapStack one_put @ [\<lparr>kvs = [(''a'', 2)], journal = [(''a'', 2)]\<rparr>],
     keyRevisionMap = [''a'' \<mapsto> [0, 1]]\<rparr>"

lemma one_put_reached: "activity puts Push PopTo 0 sm_New one_put"
proof (rule activity.act [OF activity.idle])
  have "Put ''a'' 1 sm_New = Inr one_put" by (simp add: Put_def sm_New_def newLevel_def one_put_def)
  then show "puts sm_New one_put" unfolding puts_def by blast
qed

lemma two_puts_above: "activity puts Push PopTo 1 (fst (Push one_put)) two_puts"
proof (rule activity.act [OF activity.idle])
  have "Put ''a'' 2 (fst (Push one_put)) = Inr two_puts"
    by (simp add: Put_def Push_def newLevel_def one_put_def two_puts_def)
  then show "puts (fst (Push one_put)) two_puts" unfolding puts_def by blast
qed

definition no_source :: "string \<Rightarrow> (int option, string, unit) io" where
  "no_source k = ret None"

theorem stackedmap_refines_stack_witness:
  "Get no_source one_put ''a'' () = Some (Inr (Some 1), ())"
  using stackedmap_refines_stack [OF one_put_reached, of no_source "''a''" 0]
  by (simp add: lookup_def one_put_def ret_def)

text \<open>C5: \<open>PopTo\<close> undoes everything since \<open>Push\<close>: after any \<open>Put\<close>s, further \<open>Push\<close>es and returns to later
  revisions, \<open>PopTo\<close> of the revision that \<open>Push\<close> returned does not panic and restores every lookup and the journal.\<close>

theorem stackedmap_revert_restores:
  assumes "activity puts Push PopTo 0 sm_New sm" "Push sm = (sm1, r)" "activity puts Push PopTo r sm1 sm2"
  shows "\<exists>sm3. PopTo r sm2 = Inr sm3 \<and> (\<forall>src k. Get src sm3 k = Get src sm k) \<and>
    (\<forall>cb s. Journal cb sm3 s = Journal cb sm s)"
proof -
  note inv = reached_inv [OF assms(1)]
  from stacked.revert_restores [OF inv assms(2,3)] obtain sm3 where
    "PopTo r sm2 = Inr sm3" "sm_view sm3 = sm_view sm" "sm_inv sm3" by blast
  then show ?thesis
    by (auto simp: sm_view_def Get_lookup [OF inv] Get_lookup [OF \<open>sm_inv sm3\<close>] lookup_def Journal_def)
qed

theorem stackedmap_revert_restores_witness:
  "\<exists>sm3. PopTo 1 two_puts = Inr sm3 \<and> Get no_source sm3 ''a'' () = Some (Inr (Some 1), ())"
proof -
  have p: "Push one_put = (fst (Push one_put), 1)" by (simp add: Push_def one_put_def)
  have "Get no_source one_put ''a'' () = Some (Inr (Some 1), ())"
    by (simp add: Get_def one_put_def ret_def)
  with stackedmap_revert_restores [OF one_put_reached p two_puts_above] show ?thesis by metis
qed

end
