(* ===== verification/World_State.thy ===== *)
theory World_State
  imports Accounts Stacked_Map
begin

text \<open>
  The world state (\<^verbatim>\<open>state/state.go\<close>): accounts, codes and storage slots as entries of a stacked map over the account
  trie. The entries of the map are values of an interface type; a failing type assertion is a panic.
\<close>

section \<open>Keys and values\<close>

datatype skey = KAccount address | KCode address | KStorage address bytes32

datatype sval = VAccount Account | VCode "byte list" | VStorage "byte list"

text \<open>What reading from the database changes: the loaded part of the account trie, the cached objects, and the cache of codes.\<close>

record reader =
  rd_trie :: MuxTrie
  rd_cache :: "(address \<times> cachedObject) list"
  rd_codeCache :: "byte list \<Rightarrow> byte list option"

record State =
  st_reader :: reader
  st_sm :: "(skey, sval) StackedMap"

definition st_New :: "bytes32 \<Rightarrow> (byte list \<Rightarrow> byte list option) \<Rightarrow> State" where
  "st_New root codeCache =
     \<lparr>st_reader = \<lparr>rd_trie = NewSecureTrie root, rd_cache = [], rd_codeCache = codeCache\<rparr>, st_sm = sm_New\<rparr>"

section \<open>Reading through the caches\<close>

definition getCachedObject :: "env \<Rightarrow> address \<Rightarrow> (cachedObject, node_error, reader) io" where
  "getCachedObject E addr r =
     (case map_of (rd_cache r) addr of
        Some co \<Rightarrow> ret co r
      | None \<Rightarrow>
          andthen (on_part rd_trie (\<lambda>t r. r\<lparr>rd_trie := t\<rparr>) (loadAccount E addr))
            (\<lambda>a r. let co = newCachedObject addr a in ret co (r\<lparr>rd_cache := AList.update addr co (rd_cache r)\<rparr>)) r)"

text \<open>The methods of a cached object change the object in the cache.\<close>

definition on_object ::
    "address \<Rightarrow> cachedObject \<Rightarrow> ('a, node_error, cachedObject \<times> (byte list \<Rightarrow> byte list option)) io \<Rightarrow>
      ('a, node_error, reader) io" where
  "on_object addr co m =
     on_part (\<lambda>r. (co, rd_codeCache r))
       (\<lambda>(co', codes) r. r\<lparr>rd_cache := AList.update addr co' (rd_cache r), rd_codeCache := codes\<rparr>) m"

fun cacheGetter :: "env \<Rightarrow> skey \<Rightarrow> (sval option, node_error, reader) io" where
  "cacheGetter E (KAccount addr) =
     andthen (getCachedObject E addr) (\<lambda>obj. ret (Some (VAccount (co_data obj))))"
| "cacheGetter E (KCode addr) =
     andthen (getCachedObject E addr) (\<lambda>obj.
       andthen (on_object addr obj (co_GetCode E)) (\<lambda>code. ret (Some (VCode code))))"
| "cacheGetter E (KStorage addr key) =
     andthen (getCachedObject E addr) (\<lambda>obj.
       andthen (on_object addr obj (on_part fst (\<lambda>co s. (co, snd s)) (co_GetStorage E key)))
         (\<lambda>v. ret (Some (VStorage v))))"

text \<open>\<open>sm.Get\<close> and \<open>sm.Put\<close> on the state.\<close>

definition sm_get :: "env \<Rightarrow> skey \<Rightarrow> (sval option, node_error, State) io" where
  "sm_get E key st = on_part st_reader (\<lambda>r st. st\<lparr>st_reader := r\<rparr>) (Get (cacheGetter E) (st_sm st) key) st"

definition sm_put :: "skey \<Rightarrow> sval \<Rightarrow> (unit, node_error, State) io" where
  "sm_put key v st =
     (case Put key v (st_sm st) of
        Inl p \<Rightarrow> fail (Panic p) st
      | Inr sm \<Rightarrow> ret () (st\<lparr>st_sm := sm\<rparr>))"

definition bad_type :: "('a, node_error, 's) io" where
  "bad_type = fail (Panic ''interface conversion'')"

section \<open>Accounts\<close>

definition getAccount :: "env \<Rightarrow> address \<Rightarrow> (Account, node_error, State) io" where
  "getAccount E addr =
     andthen (sm_get E (KAccount addr)) (\<lambda>v. case v of Some (VAccount a) \<Rightarrow> ret a | _ \<Rightarrow> bad_type)"

definition getAccountCopy :: "env \<Rightarrow> address \<Rightarrow> (Account, node_error, State) io" where
  "getAccountCopy E addr = getAccount E addr"

definition updateAccount :: "address \<Rightarrow> Account \<Rightarrow> (unit, node_error, State) io" where
  "updateAccount addr acc = sm_put (KAccount addr) (VAccount acc)"

definition GetBalance :: "env \<Rightarrow> address \<Rightarrow> (int, node_error, State) io" where
  "GetBalance E addr = andthen (wrapped (getAccount E addr)) (\<lambda>acc. ret (Balance acc))"

definition SetBalance :: "env \<Rightarrow> address \<Rightarrow> int \<Rightarrow> (unit, node_error, State) io" where
  "SetBalance E addr balance =
     andthen (wrapped (getAccountCopy E addr)) (\<lambda>cpy. updateAccount addr (cpy\<lparr>Balance := balance\<rparr>))"

definition GetEnergy :: "env \<Rightarrow> address \<Rightarrow> u64 \<Rightarrow> (int, node_error, State) io" where
  "GetEnergy E addr blockTime = andthen (wrapped (getAccount E addr)) (\<lambda>acc. ret (CalcEnergy acc blockTime))"

definition SetEnergy :: "env \<Rightarrow> address \<Rightarrow> int \<Rightarrow> u64 \<Rightarrow> (unit, node_error, State) io" where
  "SetEnergy E addr energy blockTime =
     andthen (wrapped (getAccountCopy E addr)) (\<lambda>cpy.
       updateAccount addr (cpy\<lparr>Energy := energy, BlockTime := blockTime\<rparr>))"

definition GetMaster :: "env \<Rightarrow> address \<Rightarrow> (address, node_error, State) io" where
  "GetMaster E addr = andthen (wrapped (getAccount E addr)) (\<lambda>acc. ret (e_BytesToAddress E (Master acc)))"

definition all_zero :: "byte list \<Rightarrow> bool" where
  "all_zero bs = list_all (\<lambda>b. b = 0) bs"

definition SetMaster :: "env \<Rightarrow> address \<Rightarrow> address \<Rightarrow> (unit, node_error, State) io" where
  "SetMaster E addr master =
     andthen (wrapped (getAccountCopy E addr)) (\<lambda>cpy.
       updateAccount addr (cpy\<lparr>Master := (if all_zero master then [] else master)\<rparr>))"

definition Exists :: "env \<Rightarrow> address \<Rightarrow> (bool, node_error, State) io" where
  "Exists E addr = andthen (wrapped (getAccount E addr)) (\<lambda>acc. ret (\<not> IsEmpty acc))"

definition st_Delete :: "address \<Rightarrow> (unit, node_error, State) io" where
  "st_Delete addr = andthen (sm_put (KCode addr) (VCode [])) (\<lambda>_. updateAccount addr emptyAccount)"

section \<open>Storage\<close>

definition GetRawStorage :: "env \<Rightarrow> address \<Rightarrow> bytes32 \<Rightarrow> (byte list, node_error, State) io" where
  "GetRawStorage E addr key =
     andthen (wrapped (sm_get E (KStorage addr key)))
       (\<lambda>data. case data of Some (VStorage raw) \<Rightarrow> ret raw | _ \<Rightarrow> bad_type)"

definition SetRawStorage :: "address \<Rightarrow> bytes32 \<Rightarrow> byte list \<Rightarrow> (unit, node_error, State) io" where
  "SetRawStorage addr key raw = sm_put (KStorage addr key) (VStorage raw)"

definition GetStorage :: "env \<Rightarrow> address \<Rightarrow> bytes32 \<Rightarrow> (bytes32, node_error, State) io" where
  "GetStorage E addr key =
     andthen (wrapped (GetRawStorage E addr key)) (\<lambda>raw.
       if length raw = 0 then ret (replicate 32 0)
       else andthen (wrapped (or_err (e_rlp_split E raw))) (\<lambda>(is_list, content).
         if is_list then ret (blake2b (e_hash E) raw) else ret (e_BytesToBytes32 E content)))"

definition SetStorage :: "env \<Rightarrow> address \<Rightarrow> bytes32 \<Rightarrow> bytes32 \<Rightarrow> (unit, node_error, State) io" where
  "SetStorage E addr key val =
     (if all_zero val then SetRawStorage addr key []
      else SetRawStorage addr key (rlp_bytes (e_hash E) (RStr (dropWhile (\<lambda>b. b = 0) val))))"

definition EncodeStorage :: "address \<Rightarrow> bytes32 \<Rightarrow> string + byte list \<Rightarrow> (unit, node_error, State) io" where
  "EncodeStorage addr key enc = andthen (wrapped (or_err enc)) (\<lambda>raw. SetRawStorage addr key raw)"

definition DecodeStorage :: "env \<Rightarrow> address \<Rightarrow> bytes32 \<Rightarrow> (byte list \<Rightarrow> string + 'a) \<Rightarrow> ('a, node_error, State) io" where
  "DecodeStorage E addr key dec =
     andthen (wrapped (GetRawStorage E addr key)) (\<lambda>raw. wrapped (or_err (dec raw)))"

section \<open>Codes\<close>

definition GetCode :: "env \<Rightarrow> address \<Rightarrow> (byte list, node_error, State) io" where
  "GetCode E addr =
     andthen (wrapped (sm_get E (KCode addr))) (\<lambda>v. case v of Some (VCode code) \<Rightarrow> ret code | _ \<Rightarrow> bad_type)"

definition GetCodeHash :: "env \<Rightarrow> address \<Rightarrow> (bytes32, node_error, State) io" where
  "GetCodeHash E addr = andthen (wrapped (getAccount E addr)) (\<lambda>acc. ret (e_BytesToBytes32 E (CodeHash acc)))"

definition codeCache_Add :: "env \<Rightarrow> byte list \<Rightarrow> byte list \<Rightarrow> (unit, node_error, State) io" where
  "codeCache_Add E hash code st =
     ret () (st\<lparr>st_reader := (st_reader st)\<lparr>rd_codeCache := e_arc_add E hash code (rd_codeCache (st_reader st))\<rparr>\<rparr>)"

definition SetCode :: "env \<Rightarrow> address \<Rightarrow> byte list \<Rightarrow> (unit, node_error, State) io" where
  "SetCode E addr code =
     andthen
       (if length code > 0
        then andthen (sm_put (KCode addr) (VCode code)) (\<lambda>_.
          andthen (codeCache_Add E (e_keccak E code) code) (\<lambda>_. ret (e_keccak E code)))
        else andthen (sm_put (KCode addr) (VCode [])) (\<lambda>_. ret []))
       (\<lambda>codeHash. andthen (wrapped (getAccountCopy E addr)) (\<lambda>cpy.
          updateAccount addr (cpy\<lparr>CodeHash := codeHash\<rparr>)))"

section \<open>Checkpoints\<close>

definition NewCheckpoint :: "State \<Rightarrow> State \<times> nat" where
  "NewCheckpoint st = (case Push (st_sm st) of (sm, revision) \<Rightarrow> (st\<lparr>st_sm := sm\<rparr>, revision))"

definition RevertTo :: "nat \<Rightarrow> State \<Rightarrow> string + State" where
  "RevertTo revision st = map_sum id (\<lambda>sm. st\<lparr>st_sm := sm\<rparr>) (PopTo revision (st_sm st))"

end
