(* ===== verification/World_Map.thy ===== *)
theory World_Map
  imports World_State
begin

text \<open>
  The state as a function from keys to values: reads through the caches return the values of the stored world, and every
  operation of the state reads or replaces values of the current world. The collection \<open>state_ops\<close> has a
  fact for each of them.
\<close>

section \<open>What the database stores\<close>

text \<open>
  A \<open>world\<close> gives every key its value. \<open>serves E W t\<close>: the account trie \<open>t\<close> and the other databases store the world \<open>W\<close>:
  every account decodes, its storage trie holds its slots, its code is in the store under its hash, and no other
  code has this hash.
\<close>

type_synonym world = "skey \<Rightarrow> sval"

fun typed :: "skey \<Rightarrow> sval \<Rightarrow> bool" where
  "typed (KAccount _) (VAccount _) = True"
| "typed (KCode _) (VCode _) = True"
| "typed (KStorage _ _) (VStorage _) = True"
| "typed _ _ = False"

definition acc_of :: "world \<Rightarrow> address \<Rightarrow> Account" where
  "acc_of W addr = (case W (KAccount addr) of VAccount a \<Rightarrow> a | _ \<Rightarrow> emptyAccount)"

definition code_of :: "world \<Rightarrow> address \<Rightarrow> byte list" where
  "code_of W addr = (case W (KCode addr) of VCode c \<Rightarrow> c | _ \<Rightarrow> [])"

definition slot_at :: "world \<Rightarrow> address \<Rightarrow> bytes32 \<Rightarrow> byte list" where
  "slot_at W addr key = (case W (KStorage addr key) of VStorage v \<Rightarrow> v | _ \<Rightarrow> [])"

definition well_typed :: "world \<Rightarrow> bool" where
  "well_typed W = (\<forall>k. typed k (W k))"

lemma well_typed_values:
  assumes "well_typed W"
  shows "W (KAccount addr) = VAccount (acc_of W addr)" "W (KCode addr) = VCode (code_of W addr)"
    "W (KStorage addr key) = VStorage (slot_at W addr key)"
proof -
  have t: "typed k (W k)" for k using assms by (simp add: well_typed_def)
  show "W (KAccount addr) = VAccount (acc_of W addr)"
    using t [of "KAccount addr"] by (cases "W (KAccount addr)") (simp_all add: acc_of_def)
  show "W (KCode addr) = VCode (code_of W addr)"
    using t [of "KCode addr"] by (cases "W (KCode addr)") (simp_all add: code_of_def)
  show "W (KStorage addr key) = VStorage (slot_at W addr key)"
    using t [of "KStorage addr key"] by (cases "W (KStorage addr key)") (simp_all add: slot_at_def)
qed

definition trie_slots :: "env \<Rightarrow> world \<Rightarrow> address \<Rightarrow> MuxTrie \<Rightarrow> bool" where
  "trie_slots E W addr t =
     (mt_secure t \<and> (\<exists>m. mt_holds (e_hash E) (storage_db E addr) t m \<and>
        (\<forall>key. bytes_of (m (blake2b (e_hash E) key)) = slot_at W addr key)))"

definition serves :: "env \<Rightarrow> world \<Rightarrow> MuxTrie \<Rightarrow> bool" where
  "serves E W t =
     (well_typed W \<and> mt_secure t \<and>
      (\<exists>m. mt_holds (e_hash E) (e_trie_db E AccountTrieName) t m \<and>
         (\<forall>addr. let data = bytes_of (m (blake2b (e_hash E) addr)) in
            if data = [] then acc_of W addr = emptyAccount else e_acc_dec E data = Inr (acc_of W addr))) \<and>
      (\<forall>addr. trie_slots E W addr (NewSecureTrie (e_BytesToBytes32 E (StorageRoot (acc_of W addr))))) \<and>
      (\<forall>addr. if CodeHash (acc_of W addr) = [] then code_of W addr = []
         else e_code_store E (CodeHash (acc_of W addr)) = Inr (code_of W addr) \<and>
           (\<forall>code. e_keccak E code = CodeHash (acc_of W addr) \<longrightarrow> code = code_of W addr)))"

text \<open>The documented behaviour of the cache: after an insertion it has nothing but the new and old entries.\<close>

definition arc_law :: "env \<Rightarrow> bool" where
  "arc_law E = (\<forall>h c m k v. e_arc_add E h c m k = Some v \<longrightarrow> (k = h \<and> v = c) \<or> m k = Some v)"

definition codes_ok :: "world \<Rightarrow> (byte list \<Rightarrow> byte list option) \<Rightarrow> bool" where
  "codes_ok W codes = (\<forall>addr c. codes (CodeHash (acc_of W addr)) = Some c \<longrightarrow> CodeHash (acc_of W addr) \<noteq> [] \<longrightarrow> c = code_of W addr)"

definition co_ok :: "env \<Rightarrow> world \<Rightarrow> address \<Rightarrow> cachedObject \<Rightarrow> bool" where
  "co_ok E W addr co =
     (co_addr co = addr \<and> co_data co = acc_of W addr \<and> (co_code co = [] \<or> co_code co = code_of W addr) \<and>
      trie_slots E W addr (getOrCreateStorageTrie E co) \<and>
      (\<forall>key v. map_of (co_storage co) key = Some v \<longrightarrow> v = slot_at W addr key))"

definition reader_ok :: "env \<Rightarrow> world \<Rightarrow> reader \<Rightarrow> bool" where
  "reader_ok E W r =
     (serves E W (rd_trie r) \<and> codes_ok W (rd_codeCache r) \<and>
      (\<forall>addr co. map_of (rd_cache r) addr = Some co \<longrightarrow> co_ok E W addr co))"

section \<open>Reads are those of the stored world\<close>

lemma loadAccount_ok:
  assumes "serves E W t"
  shows "\<exists>t'. returns (loadAccount E addr) t (acc_of W addr) t' \<and> serves E W t'"
proof -
  from assms obtain m where m: "mt_holds (e_hash E) (e_trie_db E AccountTrieName) t m" "mt_secure t"
    "\<And>addr. let data = bytes_of (m (blake2b (e_hash E) addr)) in
      if data = [] then acc_of W addr = emptyAccount else e_acc_dec E data = Inr (acc_of W addr)"
    unfolding serves_def by blast
  from mt_Get_holds [OF m(1), of addr] m(2) obtain t' where
    t': "returns (mt_Get (e_hash E) (e_trie_db E AccountTrieName) addr) t (m (blake2b (e_hash E) addr)) t'"
    "mt_holds (e_hash E) (e_trie_db E AccountTrieName) t' m" "mt_secure t'" by (auto simp: mt_key_def)
  have "returns (loadAccount E addr) t (acc_of W addr) t'"
    unfolding loadAccount_def by (rule returns_andthen [OF t'(1)]) (use m(3) [of addr] in \<open>auto simp: Let_def split: if_splits\<close>)
  moreover have "serves E W t'" using assms t'(2,3) m(3) unfolding serves_def by blast
  ultimately show ?thesis by blast
qed

lemma getCachedObject_ok:
  assumes "reader_ok E W r"
  shows "\<exists>co r'. returns (getCachedObject E addr) r co r' \<and> reader_ok E W r' \<and> co_ok E W addr co"
proof (cases "map_of (rd_cache r) addr")
  case (Some co)
  with assms show ?thesis
    by (intro exI [of _ co] exI [of _ r]) (auto simp: returns_def getCachedObject_def ret_def reader_ok_def)
next
  case None
  have sv: "serves E W (rd_trie r)" using assms by (simp add: reader_ok_def)
  from loadAccount_ok [OF this, of addr] obtain t where
    t: "returns (loadAccount E addr) (rd_trie r) (acc_of W addr) t" "serves E W t" by blast
  let ?co = "newCachedObject addr (acc_of W addr)"
  let ?r = "r\<lparr>rd_trie := t, rd_cache := AList.update addr ?co (rd_cache r)\<rparr>"
  have "returns (getCachedObject E addr) r ?co ?r"
    using t(1) None by (simp add: returns_def getCachedObject_def andthen_def on_part_def ret_def Let_def)
  moreover have "co_ok E W addr ?co"
    using sv by (simp add: co_ok_def newCachedObject_def getOrCreateStorageTrie_def serves_def)
  moreover from this have "reader_ok E W ?r"
    using assms t(2) by (auto simp: reader_ok_def split: if_splits)
  ultimately show ?thesis by blast
qed

lemma co_GetStorage_ok:
  assumes "co_ok E W addr co"
  shows "\<exists>co'. returns (co_GetStorage E key) co (slot_at W addr key) co' \<and> co_ok E W addr co'"
proof (cases "map_of (co_storage co) key")
  case (Some v)
  with assms have "v = slot_at W addr key" by (simp add: co_ok_def)
  with Some assms show ?thesis
    by (intro exI [of _ co]) (simp add: returns_def co_GetStorage_def ret_def)
next
  case None
  from assms obtain m where m: "mt_secure (getOrCreateStorageTrie E co)"
    "mt_holds (e_hash E) (storage_db E addr) (getOrCreateStorageTrie E co) m"
    "\<And>key. bytes_of (m (blake2b (e_hash E) key)) = slot_at W addr key" and a: "co_addr co = addr"
    by (auto simp: co_ok_def trie_slots_def)
  from mt_Get_holds [OF m(2), of key] m(1) obtain t where
    t: "returns (mt_Get (e_hash E) (storage_db E addr) key) (getOrCreateStorageTrie E co) (m (blake2b (e_hash E) key)) t"
    "mt_holds (e_hash E) (storage_db E addr) t m" "mt_secure t" by (auto simp: mt_key_def)
  let ?co = "co\<lparr>co_storageTrie := Some t, co_storage := AList.update key (slot_at W addr key) (co_storage co)\<rparr>"
  have "returns (co_GetStorage E key) co (slot_at W addr key) ?co"
    using t(1) None a m(3) by (simp add: returns_def co_GetStorage_def loadStorage_def andthen_def ret_def)
  moreover have "trie_slots E W addr t" using t(2,3) m(3) unfolding trie_slots_def by blast
  then have "co_ok E W addr ?co" using assms by (auto simp: co_ok_def getOrCreateStorageTrie_def split: if_splits)
  ultimately show ?thesis by blast
qed

lemma storageTrie_code [simp]: "getOrCreateStorageTrie E (co\<lparr>co_code := c\<rparr>) = getOrCreateStorageTrie E co"
  by (simp add: getOrCreateStorageTrie_def split: option.split)

lemma co_GetCode_ok:
  assumes "co_ok E W addr co" "serves E W t" "codes_ok W codes" "arc_law E"
  shows "\<exists>co' codes'. returns (co_GetCode E) (co, codes) (code_of W addr) (co', codes') \<and> co_ok E W addr co' \<and> codes_ok W codes'"
proof -
  let ?h = "CodeHash (acc_of W addr)"
  have co: "co_data co = acc_of W addr" "co_code co = [] \<or> co_code co = code_of W addr" using assms(1) by (simp_all add: co_ok_def)
  have code: "if ?h = [] then code_of W addr = [] else e_code_store E ?h = Inr (code_of W addr)"
    using assms(2) by (auto simp: serves_def split: if_splits)
  consider (object) "co_code co \<noteq> []" | (none) "co_code co = []" "?h = []"
    | (cached) c where "co_code co = []" "?h \<noteq> []" "codes ?h = Some c" | (stored) "co_code co = []" "?h \<noteq> []" "codes ?h = None"
    by (cases "codes ?h") auto
  then show ?thesis
  proof cases
    case stored
    have "codes_ok W (e_arc_add E ?h (code_of W addr) codes)"
      unfolding codes_ok_def
    proof (intro allI impI)
      fix a c
      assume c: "e_arc_add E ?h (code_of W addr) codes (CodeHash (acc_of W a)) = Some c" and ne: "CodeHash (acc_of W a) \<noteq> []"
      then consider "CodeHash (acc_of W a) = ?h" "c = code_of W addr" | "codes (CodeHash (acc_of W a)) = Some c"
        using assms(4) unfolding arc_law_def by blast
      then show "c = code_of W a"
      proof cases
        case 1
        have "e_code_store E (CodeHash (acc_of W a)) = Inr (code_of W a)" using assms(2) ne by (auto simp: serves_def split: if_splits)
        with 1 code stored(2) show ?thesis by simp
      qed (use assms(3) ne in \<open>auto simp: codes_ok_def\<close>)
    qed
    with stored co code assms(1) show ?thesis
      by (simp add: returns_def co_GetCode_def ret_def co_ok_def)
  qed (use co code assms in \<open>auto simp: returns_def co_GetCode_def ret_def codes_ok_def\<close>)
qed

lemma cacheGetter_ok:
  assumes "reader_ok E W r" "arc_law E"
  shows "\<exists>r'. returns (cacheGetter E k) r (Some (W k)) r' \<and> reader_ok E W r'"
proof -
  have W: "well_typed W" using assms(1) by (simp add: reader_ok_def serves_def)
  note vals = well_typed_values [OF W]
  have put: "reader_ok E W (r1\<lparr>rd_cache := AList.update addr co (rd_cache r1), rd_codeCache := codes\<rparr>)"
    if "reader_ok E W r1" "co_ok E W addr co" "codes_ok W codes" for r1 addr co codes
    using that by (auto simp: reader_ok_def split: if_splits)
  show ?thesis
  proof (cases k)
    case (KAccount addr)
    from getCachedObject_ok [OF assms(1), of addr] obtain co r1 where
      "returns (getCachedObject E addr) r co r1" "reader_ok E W r1" "co_ok E W addr co" by blast
    with KAccount show ?thesis by (auto simp: vals co_ok_def returns_andthen_iff)
  next
    case (KCode addr)
    from getCachedObject_ok [OF assms(1), of addr] obtain co r1 where
      1: "returns (getCachedObject E addr) r co r1" "reader_ok E W r1" "co_ok E W addr co" by blast
    then have "serves E W (rd_trie r1)" "codes_ok W (rd_codeCache r1)" by (simp_all add: reader_ok_def)
    from co_GetCode_ok [OF 1(3) this assms(2)] obtain co' codes where
      2: "returns (co_GetCode E) (co, rd_codeCache r1) (code_of W addr) (co', codes)" "co_ok E W addr co'" "codes_ok W codes" by blast
    have "returns (on_object addr co (co_GetCode E)) r1 (code_of W addr)
        (r1\<lparr>rd_cache := AList.update addr co' (rd_cache r1), rd_codeCache := codes\<rparr>)"
      using 2(1) by (simp add: returns_def on_object_def on_part_def)
    with 1 2 KCode put show ?thesis by (auto simp: vals returns_andthen_iff)
  next
    case (KStorage addr key)
    from getCachedObject_ok [OF assms(1), of addr] obtain co r1 where
      1: "returns (getCachedObject E addr) r co r1" "reader_ok E W r1" "co_ok E W addr co" by blast
    from co_GetStorage_ok [OF 1(3), of key] obtain co' where
      2: "returns (co_GetStorage E key) co (slot_at W addr key) co'" "co_ok E W addr co'" by blast
    have "returns (on_object addr co (on_part fst (\<lambda>co s. (co, snd s)) (co_GetStorage E key))) r1 (slot_at W addr key)
        (r1\<lparr>rd_cache := AList.update addr co' (rd_cache r1), rd_codeCache := rd_codeCache r1\<rparr>)"
      using 2(1) by (simp add: returns_def on_object_def on_part_def)
    moreover have "codes_ok W (rd_codeCache r1)" using 1(2) by (simp add: reader_ok_def)
    ultimately show ?thesis
      using 1(1) put [OF 1(2) 2(2), of "rd_codeCache r1"] KStorage by (auto simp: vals returns_andthen_iff)
  qed
qed

section \<open>The state as a function\<close>

text \<open>
  \<open>st_ok E B st\<close>: the reader serves the world \<open>B\<close>, the stacked map is sound, and every entry of it has the kind of its key.
  \<open>now_of B st\<close> is the current world.
\<close>

definition sm_typed :: "(skey, sval) StackedMap \<Rightarrow> bool" where
  "sm_typed sm = (\<forall>l \<in> set (mapStack sm). \<forall>(k, v) \<in> set (kvs l). typed k v)"

definition now_of :: "world \<Rightarrow> State \<Rightarrow> world" where
  "now_of B st k = (case visible (mapStack (st_sm st)) k of Some v \<Rightarrow> v | None \<Rightarrow> B k)"

definition st_ok :: "env \<Rightarrow> world \<Rightarrow> State \<Rightarrow> bool" where
  "st_ok E B st = (arc_law E \<and> reader_ok E B (st_reader st) \<and> sm_inv (st_sm st) \<and> sm_typed (st_sm st))"

definition top_only :: "State \<Rightarrow> State \<Rightarrow> bool" where
  "top_only st st' =
     (length (mapStack (st_sm st')) = length (mapStack (st_sm st)) \<and>
      butlast (mapStack (st_sm st')) = butlast (mapStack (st_sm st)))"

lemma top_only_trans: "top_only st st1 \<Longrightarrow> top_only st1 st2 \<Longrightarrow> top_only st st2"
  by (simp add: top_only_def)

lemma top_only_sm: "st_sm st' = st_sm st \<Longrightarrow> top_only st st'"
  by (simp add: top_only_def)

lemma visible_entry: "visible ls k = Some v \<Longrightarrow> \<exists>l \<in> set ls. (k, v) \<in> set (kvs l)"
  by (induction ls) (auto split: option.splits dest: map_of_SomeD)

lemma now_typed:
  assumes "st_ok E B st"
  shows "well_typed (now_of B st)"
proof -
  have "well_typed B" using assms by (simp add: st_ok_def reader_ok_def serves_def)
  moreover have "typed k v" if "visible (mapStack (st_sm st)) k = Some v" for k v
    using visible_entry [OF that] assms by (auto simp: st_ok_def sm_typed_def)
  ultimately show ?thesis by (auto simp: well_typed_def now_of_def split: option.split)
qed

lemmas now_values = well_typed_values [OF now_typed]

lemma sm_get_ok:
  assumes "st_ok E B st"
  shows "\<exists>st'. returns (sm_get E k) st (Some (now_of B st k)) st' \<and> st_ok E B st' \<and> st_sm st' = st_sm st"
proof -
  have inv: "sm_inv (st_sm st)" "reader_ok E B (st_reader st)" "arc_law E" using assms by (simp_all add: st_ok_def)
  have "\<exists>r. returns (Get (cacheGetter E) (st_sm st) k) (st_reader st) (Some (now_of B st k)) r \<and> reader_ok E B r"
    using cacheGetter_ok [OF inv(2,3), of k] inv(2)
    by (auto simp: Get_lookup [OF inv(1)] lookup_def now_of_def split: option.split)
  then obtain r where "returns (Get (cacheGetter E) (st_sm st) k) (st_reader st) (Some (now_of B st k)) r" "reader_ok E B r" by blast
  with assms show ?thesis
    by (intro exI [of _ "st\<lparr>st_reader := r\<rparr>"]) (simp add: returns_def sm_get_def on_part_def st_ok_def)
qed

lemma sm_typed_Put:
  assumes "Put k v sm = Inr sm'" "sm_typed sm" "typed k v" "sm_inv sm"
  shows "sm_typed sm'"
proof -
  from inv_top [OF assms(4)] obtain ls l where sm: "mapStack sm = ls @ [l]" by metis
  from Put_ok [OF assms(4) this, of k v] assms(1) have
    "mapStack sm' = ls @ [l\<lparr>kvs := AList.update k v (kvs l), journal := journal l @ [(k, v)]\<rparr>]" by auto
  with assms(2,3) sm show ?thesis by (auto simp: sm_typed_def dest: set_update_mem)
qed

lemma sm_put_ok:
  assumes "st_ok E B st" "typed k v"
  shows "\<exists>st'. returns (sm_put k v) st () st' \<and> st_ok E B st' \<and> now_of B st' = (now_of B st)(k := v) \<and>
    top_only st st'"
proof -
  have inv: "sm_inv (st_sm st)" "sm_typed (st_sm st)" using assms by (simp_all add: st_ok_def)
  from inv_top [OF inv(1)] obtain ls l where sm: "mapStack (st_sm st) = ls @ [l]" by metis
  from Put_ok [OF inv(1) this, of k v] obtain sm' where
    sm': "Put k v (st_sm st) = Inr sm'" "sm_inv sm'"
      "mapStack sm' = ls @ [l\<lparr>kvs := AList.update k v (kvs l), journal := journal l @ [(k, v)]\<rparr>]" by blast
  have "now_of B (st\<lparr>st_sm := sm'\<rparr>) = (now_of B st)(k := v)"
    using sm sm'(3) by (auto simp: fun_eq_iff now_of_def visible_append split: option.split)
  moreover have "top_only st (st\<lparr>st_sm := sm'\<rparr>)" using sm sm'(3) by (simp add: top_only_def)
  ultimately show ?thesis
    using assms sm'(1,2) sm_typed_Put [OF sm'(1) inv(2) assms(2) inv(1)]
    by (intro exI [of _ "st\<lparr>st_sm := sm'\<rparr>"]) (simp add: returns_def sm_put_def ret_def st_ok_def)
qed

text \<open>
  A call \<open>m\<close> reads \<open>a\<close>: it returns \<open>a\<close> and leaves the world as it is. A call writes the world \<open>W\<close>: it returns, \<open>W\<close> is the
  world afterwards, and only the top level of the map has changed.
\<close>

definition reads :: "env \<Rightarrow> world \<Rightarrow> State \<Rightarrow> ('a, node_error, State) io \<Rightarrow> 'a \<Rightarrow> bool" where
  "reads E B st m a = (\<exists>st'. returns m st a st' \<and> st_ok E B st' \<and> st_sm st' = st_sm st)"

definition writes :: "env \<Rightarrow> world \<Rightarrow> State \<Rightarrow> (unit, node_error, State) io \<Rightarrow> world \<Rightarrow> bool" where
  "writes E B st m W = (\<exists>st'. returns m st () st' \<and> st_ok E B st' \<and> now_of B st' = W \<and> top_only st st')"

lemma now_of_sm: "st_sm st' = st_sm st \<Longrightarrow> now_of B st' = now_of B st"
  by (simp add: now_of_def fun_eq_iff)

lemma reads_ret: "st_ok E B st \<Longrightarrow> reads E B st (ret a) a"
  by (simp add: reads_def)

lemma reads_wrapped [simp]: "reads E B st (wrapped m) a \<longleftrightarrow> reads E B st m a"
  by (simp add: reads_def)

lemma reads_andthen:
  assumes "reads E B st m a" "\<And>st'. st_ok E B st' \<Longrightarrow> st_sm st' = st_sm st \<Longrightarrow> reads E B st' (f a) b"
  shows "reads E B st (andthen m f) b"
  using assms unfolding reads_def by (metis returns_andthen)

lemma reads_writes:
  assumes "reads E B st m a" "\<And>st'. st_ok E B st' \<Longrightarrow> now_of B st' = now_of B st \<Longrightarrow> writes E B st' (f a) W"
  shows "writes E B st (andthen m f) W"
proof -
  from assms(1) obtain st1 where 1: "returns m st a st1" "st_ok E B st1" "st_sm st1 = st_sm st" by (auto simp: reads_def)
  from assms(2) [OF 1(2) now_of_sm [OF 1(3)]] show ?thesis
    unfolding writes_def returns_andthen_iff [OF 1(1)] using top_only_trans [OF top_only_sm [OF 1(3)]] by blast
qed

lemma reads_or_err: "st_ok E B st \<Longrightarrow> r = Inr a \<Longrightarrow> reads E B st (or_err r) a"
  by (simp add: reads_def)

lemma writes_writes:
  assumes "writes E B st m V" "\<And>st'. st_ok E B st' \<Longrightarrow> now_of B st' = V \<Longrightarrow> writes E B st' (f ()) W"
  shows "writes E B st (andthen m f) W"
proof -
  from assms(1) obtain st1 where 1: "returns m st () st1" "st_ok E B st1" "now_of B st1 = V" "top_only st st1"
    by (auto simp: writes_def)
  from assms(2) [OF 1(2,3)] show ?thesis
    unfolding writes_def returns_andthen_iff [OF 1(1)] using top_only_trans [OF 1(4)] by blast
qed

lemma writes_put: "st_ok E B st \<Longrightarrow> typed k v \<Longrightarrow> writes E B st (sm_put k v) ((now_of B st)(k := v))"
  unfolding writes_def using sm_put_ok by blast

lemma reads_sm: "st_ok E B st \<Longrightarrow> reads E B st (sm_get E k) (Some (now_of B st k))"
  unfolding reads_def by (rule sm_get_ok)

section \<open>The operations on the world\<close>

named_theorems state_ops \<open>what the operations of the state read and write\<close>

abbreviation set_acc :: "world \<Rightarrow> address \<Rightarrow> Account \<Rightarrow> world" where
  "set_acc W addr a \<equiv> W(KAccount addr := VAccount a)"

abbreviation set_slot :: "world \<Rightarrow> address \<Rightarrow> bytes32 \<Rightarrow> byte list \<Rightarrow> world" where
  "set_slot W addr key raw \<equiv> W(KStorage addr key := VStorage raw)"

lemma getAccount_reads [state_ops]:
  "st_ok E B st \<Longrightarrow> reads E B st (getAccount E addr) (acc_of (now_of B st) addr)"
  unfolding getAccount_def
  by (rule reads_andthen [OF reads_sm]) (simp_all add: now_values(1) reads_ret)

lemma getAccountCopy_reads [state_ops]:
  "st_ok E B st \<Longrightarrow> reads E B st (getAccountCopy E addr) (acc_of (now_of B st) addr)"
  unfolding getAccountCopy_def by (rule getAccount_reads)

lemma updateAccount_writes [state_ops]:
  "st_ok E B st \<Longrightarrow> writes E B st (updateAccount addr a) (set_acc (now_of B st) addr a)"
  unfolding updateAccount_def by (rule writes_put) simp_all

text \<open>A getter of an account field, and a setter.\<close>

lemma account_getter:
  assumes "st_ok E B st"
  shows "reads E B st (andthen (wrapped (getAccount E addr)) (\<lambda>acc. ret (g acc))) (g (acc_of (now_of B st) addr))"
  by (rule reads_andthen) (use getAccount_reads [OF assms] in \<open>auto intro: reads_ret\<close>)

lemma account_setter:
  assumes "st_ok E B st"
  shows "writes E B st (andthen (wrapped (getAccountCopy E addr)) (\<lambda>cpy. updateAccount addr (u cpy)))
    (set_acc (now_of B st) addr (u (acc_of (now_of B st) addr)))"
  by (rule reads_writes) (use getAccountCopy_reads [OF assms] updateAccount_writes in \<open>auto, metis\<close>)

lemma account_ops [state_ops]:
  assumes "st_ok E B st"
  shows "reads E B st (GetBalance E addr) (Balance (acc_of (now_of B st) addr))"
    "reads E B st (GetEnergy E addr t) (CalcEnergy (acc_of (now_of B st) addr) t)"
    "reads E B st (GetMaster E addr) (e_BytesToAddress E (Master (acc_of (now_of B st) addr)))"
    "reads E B st (GetCodeHash E addr) (e_BytesToBytes32 E (CodeHash (acc_of (now_of B st) addr)))"
    "reads E B st (Exists E addr) (\<not> IsEmpty (acc_of (now_of B st) addr))"
    "writes E B st (SetBalance E addr b) (set_acc (now_of B st) addr ((acc_of (now_of B st) addr)\<lparr>Balance := b\<rparr>))"
    "writes E B st (SetEnergy E addr e t)
      (set_acc (now_of B st) addr ((acc_of (now_of B st) addr)\<lparr>Energy := e, BlockTime := t\<rparr>))"
    "writes E B st (SetMaster E addr m)
      (set_acc (now_of B st) addr ((acc_of (now_of B st) addr)\<lparr>Master := (if all_zero m then [] else m)\<rparr>))"
  unfolding GetBalance_def GetEnergy_def GetMaster_def GetCodeHash_def Exists_def SetBalance_def SetEnergy_def SetMaster_def
  by (rule account_getter account_setter assms)+

lemma GetRawStorage_reads [state_ops]:
  "st_ok E B st \<Longrightarrow> reads E B st (GetRawStorage E addr key) (slot_at (now_of B st) addr key)"
  unfolding GetRawStorage_def
  by (rule reads_andthen, simp, rule reads_sm) (simp_all add: now_values(3) reads_ret)

lemma SetRawStorage_writes [state_ops]:
  "st_ok E B st \<Longrightarrow> writes E B st (SetRawStorage addr key raw) (set_slot (now_of B st) addr key raw)"
  unfolding SetRawStorage_def by (rule writes_put) simp_all

lemma DecodeStorage_reads:
  assumes "st_ok E B st" "dec (slot_at (now_of B st) addr key) = Inr a"
  shows "reads E B st (DecodeStorage E addr key dec) a"
  unfolding DecodeStorage_def
  by (rule reads_andthen) (use GetRawStorage_reads [OF assms(1)] assms(2) in \<open>auto intro: reads_or_err\<close>)

lemma EncodeStorage_writes:
  assumes "st_ok E B st" "enc = Inr raw"
  shows "writes E B st (EncodeStorage addr key enc) (set_slot (now_of B st) addr key raw)"
  unfolding EncodeStorage_def
  by (rule reads_writes [OF reads_wrapped [THEN iffD2, OF reads_or_err [OF assms]]])
    (metis SetRawStorage_writes)

lemma SetStorage_writes [state_ops]:
  "st_ok E B st \<Longrightarrow> writes E B st (SetStorage E addr key val) (set_slot (now_of B st) addr key
    (if all_zero val then [] else rlp_bytes (e_hash E) (RStr (dropWhile (\<lambda>b. b = 0) val))))"
  by (simp add: SetStorage_def SetRawStorage_writes)

lemma GetCode_reads [state_ops]:
  "st_ok E B st \<Longrightarrow> reads E B st (GetCode E addr) (code_of (now_of B st) addr)"
  unfolding GetCode_def
  by (rule reads_andthen, simp, rule reads_sm) (simp_all add: now_values(2) reads_ret)

lemma Delete_writes [state_ops]:
  assumes "st_ok E B st"
  shows "writes E B st (st_Delete addr) ((now_of B st)(KCode addr := VCode [], KAccount addr := VAccount emptyAccount))"
  unfolding st_Delete_def
  by (rule writes_writes [OF writes_put [OF assms]]) (simp, metis updateAccount_writes)

lemma codeCache_Add_ok:
  assumes "st_ok E B st"
  shows "reads E B st (codeCache_Add E (e_keccak E code) code) ()"
proof -
  have "codes_ok B (e_arc_add E (e_keccak E code) code (rd_codeCache (st_reader st)))"
    unfolding codes_ok_def
  proof (intro allI impI)
    fix a c
    assume c: "e_arc_add E (e_keccak E code) code (rd_codeCache (st_reader st)) (CodeHash (acc_of B a)) = Some c"
      and ne: "CodeHash (acc_of B a) \<noteq> []"
    have "e_keccak E code = CodeHash (acc_of B a) \<longrightarrow> code = code_of B a"
      using assms ne by (auto simp: st_ok_def reader_ok_def serves_def split: if_splits)
    moreover have "rd_codeCache (st_reader st) (CodeHash (acc_of B a)) = Some c \<longrightarrow> c = code_of B a"
      using assms ne by (auto simp: st_ok_def reader_ok_def codes_ok_def)
    moreover have "CodeHash (acc_of B a) = e_keccak E code \<and> c = code \<or> rd_codeCache (st_reader st) (CodeHash (acc_of B a)) = Some c"
      using c assms unfolding st_ok_def arc_law_def by blast
    ultimately show "c = code_of B a" by auto
  qed
  then show ?thesis
    using assms by (auto simp: reads_def returns_def codeCache_Add_def ret_def st_ok_def reader_ok_def)
qed

lemma SetCode_writes [state_ops]:
  assumes "st_ok E B st"
  shows "writes E B st (SetCode E addr code)
    ((now_of B st)(KCode addr := VCode code, KAccount addr := VAccount
      ((acc_of (now_of B st) addr)\<lparr>CodeHash := (if code = [] then [] else e_keccak E code)\<rparr>)))"
proof -
  let ?W = "(now_of B st)(KCode addr := VCode code)"
  from sm_put_ok [OF assms, of "KCode addr" "VCode code"] obtain st1 where
    1: "returns (sm_put (KCode addr) (VCode code)) st () st1" "st_ok E B st1" "now_of B st1 = ?W" "top_only st st1" by auto
  have "\<exists>st2. returns (if length code > 0
        then andthen (sm_put (KCode addr) (VCode code)) (\<lambda>_.
          andthen (codeCache_Add E (e_keccak E code) code) (\<lambda>_. ret (e_keccak E code)))
        else andthen (sm_put (KCode addr) (VCode [])) (\<lambda>_. ret [])) st (if code = [] then [] else e_keccak E code) st2 \<and>
      st_ok E B st2 \<and> now_of B st2 = ?W \<and> top_only st st2"
  proof (cases "code = []")
    case True
    with 1 show ?thesis by (auto simp: returns_andthen_iff)
  next
    case False
    from codeCache_Add_ok [OF 1(2), of code] obtain st2 where
      "returns (codeCache_Add E (e_keccak E code) code) st1 () st2" "st_ok E B st2" "st_sm st2 = st_sm st1"
      by (auto simp: reads_def)
    with 1 False show ?thesis
      using now_of_sm [of st2 st1 B] top_only_trans [OF 1(4) top_only_sm [of st2]] by (auto simp: returns_andthen_iff)
  qed
  then obtain st2 where 2: "returns (if length code > 0
        then andthen (sm_put (KCode addr) (VCode code)) (\<lambda>_.
          andthen (codeCache_Add E (e_keccak E code) code) (\<lambda>_. ret (e_keccak E code)))
        else andthen (sm_put (KCode addr) (VCode [])) (\<lambda>_. ret [])) st (if code = [] then [] else e_keccak E code) st2"
      "st_ok E B st2" "now_of B st2 = ?W" "top_only st st2" by blast
  have "acc_of ?W addr = acc_of (now_of B st) addr" by (simp add: acc_of_def)
  with account_setter [OF 2(2), of addr "\<lambda>cpy. cpy\<lparr>CodeHash := (if code = [] then [] else e_keccak E code)\<rparr>"] 2(3)
  have "writes E B st2 (andthen (wrapped (getAccountCopy E addr)) (\<lambda>cpy. updateAccount addr
      (cpy\<lparr>CodeHash := (if code = [] then [] else e_keccak E code)\<rparr>)))
    (set_acc ?W addr ((acc_of (now_of B st) addr)\<lparr>CodeHash := (if code = [] then [] else e_keccak E code)\<rparr>))" by simp
  then show ?thesis
    unfolding SetCode_def writes_def returns_andthen_iff [OF 2(1)] using top_only_trans [OF 2(4)] by blast
qed

end
