(* ===== verification/World_Checkpoints.thy ===== *)
theory World_Checkpoints
  imports World_Map
begin

text \<open>
  Sequences of calls on the state. The state satisfies the contract of structures with checkpoints, so that
  going back to a checkpoint restores the world, and every reachable state is well typed.
\<close>

section \<open>Sequences of calls\<close>

text \<open>A call that returns, with an error or not, and keeps the state sound.\<close>

definition keeps :: "env \<Rightarrow> world \<Rightarrow> State \<Rightarrow> ('a, node_error, State) io \<Rightarrow> bool" where
  "keeps E B st m = (\<exists>r st'. m st = Some (r, st') \<and> st_ok E B st' \<and> top_only st st')"

lemma reads_keeps: "reads E B st m a \<Longrightarrow> keeps E B st m"
  unfolding reads_def keeps_def returns_def using top_only_sm by blast

lemma writes_keeps: "writes E B st m W \<Longrightarrow> keeps E B st m"
  unfolding writes_def keeps_def returns_def by blast

lemma keeps_or_err: "st_ok E B st \<Longrightarrow> keeps E B st (or_err r)"
  by (auto simp: keeps_def or_err_def top_only_def)

lemma keeps_wrapped: "keeps E B st m \<Longrightarrow> keeps E B st (wrapped m)"
  by (auto simp: keeps_def wrapped_def)

lemma keeps_andthen:
  assumes "keeps E B st m" "\<And>a st'. st_ok E B st' \<Longrightarrow> keeps E B st' (f a)"
  shows "keeps E B st (andthen m f)"
proof -
  from assms(1) obtain r st1 where 1: "m st = Some (r, st1)" "st_ok E B st1" "top_only st st1" by (auto simp: keeps_def)
  show ?thesis
  proof (cases r)
    case (Inr a)
    with 1(1) have "andthen m f st = f a st1" by (simp add: andthen_def)
    with assms(2) [OF 1(2), of a] show ?thesis unfolding keeps_def using top_only_trans [OF 1(3)] by auto
  qed (use 1 in \<open>auto simp: keeps_def andthen_def\<close>)
qed

lemma keeps_ret: "st_ok E B st \<Longrightarrow> keeps E B st (ret a)"
  by (auto simp: keeps_def ret_def top_only_def)

lemma storage_keeps:
  assumes "st_ok E B st"
  shows "keeps E B st (GetStorage E addr key)" "keeps E B st (DecodeStorage E addr key dec)"
    "keeps E B st (EncodeStorage addr key enc)"
proof -
  have raw: "keeps E B st (wrapped (GetRawStorage E addr key))"
    by (rule keeps_wrapped, rule reads_keeps, rule GetRawStorage_reads, rule assms)
  show "keeps E B st (GetStorage E addr key)" unfolding GetStorage_def
    by (rule keeps_andthen [OF raw])
      (auto intro!: keeps_andthen keeps_wrapped keeps_or_err keeps_ret split: prod.split)
  show "keeps E B st (DecodeStorage E addr key dec)" unfolding DecodeStorage_def
    by (rule keeps_andthen [OF raw]) (auto intro: keeps_wrapped keeps_or_err)
  show "keeps E B st (EncodeStorage addr key enc)" unfolding EncodeStorage_def
    by (rule keeps_andthen [OF keeps_wrapped [OF keeps_or_err [OF assms]]]) (rule writes_keeps, rule SetRawStorage_writes)
qed

text \<open>The calls of the exported operations, whatever they return.\<close>

inductive state_op :: "env \<Rightarrow> State \<Rightarrow> State \<Rightarrow> bool" for E where
  GetBalance: "GetBalance E addr st = Some (r, st') \<Longrightarrow> state_op E st st'"
| SetBalance: "SetBalance E addr b st = Some (r1, st') \<Longrightarrow> state_op E st st'"
| GetEnergy: "GetEnergy E addr t st = Some (r, st') \<Longrightarrow> state_op E st st'"
| SetEnergy: "SetEnergy E addr b t st = Some (r1, st') \<Longrightarrow> state_op E st st'"
| GetMaster: "GetMaster E addr st = Some (r2, st') \<Longrightarrow> state_op E st st'"
| SetMaster: "SetMaster E addr m st = Some (r1, st') \<Longrightarrow> state_op E st st'"
| GetStorage: "GetStorage E addr key st = Some (r2, st') \<Longrightarrow> state_op E st st'"
| SetStorage: "SetStorage E addr key v st = Some (r1, st') \<Longrightarrow> state_op E st st'"
| GetRawStorage: "GetRawStorage E addr key st = Some (r2, st') \<Longrightarrow> state_op E st st'"
| SetRawStorage: "SetRawStorage addr key raw st = Some (r1, st') \<Longrightarrow> state_op E st st'"
| EncodeStorage: "EncodeStorage addr key enc st = Some (r1, st') \<Longrightarrow> state_op E st st'"
| GetCode: "GetCode E addr st = Some (r2, st') \<Longrightarrow> state_op E st st'"
| GetCodeHash: "GetCodeHash E addr st = Some (r2, st') \<Longrightarrow> state_op E st st'"
| SetCode: "SetCode E addr code st = Some (r1, st') \<Longrightarrow> state_op E st st'"
| Exists: "Exists E addr st = Some (r3, st') \<Longrightarrow> state_op E st st'"
| Delete: "st_Delete addr st = Some (r1, st') \<Longrightarrow> state_op E st st'"

lemma keepsD: "keeps E B st m \<Longrightarrow> m st = Some (r, st') \<Longrightarrow> st_ok E B st' \<and> top_only st st'"
  by (auto simp: keeps_def)

lemma state_op_keeps:
  assumes "state_op E st st'" "st_ok E B st"
  shows "st_ok E B st' \<and> top_only st st'"
  using assms
  by cases (erule keepsD [rotated], (rule storage_keeps reads_keeps writes_keeps, (rule state_ops)?, assumption)+)+

section \<open>Checkpoints of the state\<close>

definition st_view :: "world \<Rightarrow> State \<Rightarrow> world \<times> (skey \<times> sval) list" where
  "st_view B st = (now_of B st, entries_of (st_sm st))"

definition st_Depth :: "State \<Rightarrow> nat" where
  "st_Depth st = Depth (st_sm st)"

definition st_frozen :: "nat \<Rightarrow> State \<Rightarrow> State \<Rightarrow> bool" where
  "st_frozen d st st' = same_below d (st_sm st) (st_sm st')"

lemma top_only_below:
  assumes "top_only st st'" "d < st_Depth st"
  shows "st_frozen d st st'"
proof -
  have "take d ls = take d (butlast ls)" if "d < length ls" for ls :: "(skey, sval) level list"
    using that by (simp add: take_butlast)
  with assms show ?thesis by (auto simp: top_only_def st_frozen_def same_below_def st_Depth_def Depth_def)
qed

lemma st_ok_sm:
  assumes "st_ok E B st" "sm_inv sm" "set (mapStack sm) \<subseteq> insert newLevel (set (mapStack (st_sm st)))"
  shows "st_ok E B (st\<lparr>st_sm := sm\<rparr>)"
proof -
  have "sm_typed sm" unfolding sm_typed_def
  proof (intro ballI)
    fix l kv assume l: "l \<in> set (mapStack sm)" "kv \<in> set (kvs l)"
    then have "l \<in> set (mapStack (st_sm st))" using assms(3) by (auto simp: newLevel_def)
    with l(2) assms(1) show "case kv of (k, v) \<Rightarrow> typed k v" by (auto simp: st_ok_def sm_typed_def)
  qed
  with assms(1,2) show ?thesis by (simp add: st_ok_def)
qed

lemma NewCheckpoint_law:
  assumes "st_ok E B st"
  shows "st_ok E B (fst (NewCheckpoint st)) \<and> st_view B (fst (NewCheckpoint st)) = st_view B st \<and>
    snd (NewCheckpoint st) = st_Depth st \<and> st_Depth (fst (NewCheckpoint st)) = Suc (st_Depth st) \<and>
    (\<forall>d \<le> st_Depth st. st_frozen d st (fst (NewCheckpoint st)))"
proof -
  have inv: "sm_inv (st_sm st)" using assms by (simp add: st_ok_def)
  have N: "fst (NewCheckpoint st) = st\<lparr>st_sm := fst (Push (st_sm st))\<rparr>" "snd (NewCheckpoint st) = snd (Push (st_sm st))"
    by (simp_all add: NewCheckpoint_def split: prod.split)
  note law = stacked.push_law [OF inv]
  have "st_ok E B (st\<lparr>st_sm := fst (Push (st_sm st))\<rparr>)"
    by (rule st_ok_sm [OF assms]) (use law in \<open>auto simp: Push_def\<close>)
  with law N show ?thesis
    by (auto simp: st_view_def st_Depth_def st_frozen_def sm_view_def now_of_def fun_eq_iff)
qed

lemma RevertTo_law:
  assumes "st_ok E B st" "0 < e"
  shows "\<exists>st'. RevertTo e st = Inr st' \<and> st_ok E B st' \<and> st_Depth st' = min e (st_Depth st) \<and>
    (\<forall>d \<le> e. d \<le> st_Depth st \<longrightarrow> st_frozen d st st')"
proof -
  have inv: "sm_inv (st_sm st)" using assms by (simp add: st_ok_def)
  from PopTo_ok [OF inv assms(2)] obtain sm where
    sm: "PopTo e (st_sm st) = Inr sm" "sm_inv sm" "mapStack sm = take e (mapStack (st_sm st))" by blast
  have "st_ok E B (st\<lparr>st_sm := sm\<rparr>)"
    by (rule st_ok_sm [OF assms(1) sm(2)]) (use sm(3) set_take_subset in fastforce)
  with sm show ?thesis
    by (auto simp: RevertTo_def st_Depth_def st_frozen_def same_below_def Depth_def min_def)
qed

interpretation world: checkpointed "st_ok E B" "st_view B" st_Depth "state_op E" NewCheckpoint RevertTo st_frozen for E B
proof unfold_locales
  fix s s' s'' e
  assume ok: "st_ok E B s"
  then have inv: "sm_inv (st_sm s)" by (simp add: st_ok_def)
  show "state_op E s s' \<Longrightarrow> st_ok E B s' \<and> st_Depth s' = st_Depth s \<and> (\<forall>d < st_Depth s. st_frozen d s s')"
    using state_op_keeps [OF _ ok, of s'] top_only_below by (auto simp: st_Depth_def Depth_def top_only_def)
  show "st_ok E B (fst (NewCheckpoint s)) \<and> st_view B (fst (NewCheckpoint s)) = st_view B s \<and>
      snd (NewCheckpoint s) = st_Depth s \<and> st_Depth (fst (NewCheckpoint s)) = Suc (st_Depth s) \<and>
      (\<forall>d \<le> st_Depth s. st_frozen d s (fst (NewCheckpoint s)))" by (rule NewCheckpoint_law [OF ok])
  show "0 < e \<Longrightarrow> \<exists>s'. RevertTo e s = Inr s' \<and> st_ok E B s' \<and> st_Depth s' = min e (st_Depth s) \<and>
      (\<forall>d \<le> e. d \<le> st_Depth s \<longrightarrow> st_frozen d s s')" by (rule RevertTo_law [OF ok])
  show "0 < st_Depth s" using stacked.depth_pos [OF inv] by (simp add: st_Depth_def)
  show "st_ok E B s' \<Longrightarrow> st_frozen (st_Depth s) s s' \<Longrightarrow> RevertTo (st_Depth s) s' = Inr s'' \<Longrightarrow> st_view B s'' = st_view B s"
  proof -
    assume a: "st_ok E B s'" "st_frozen (st_Depth s) s s'" "RevertTo (st_Depth s) s' = Inr s''"
    then obtain sm where "PopTo (Depth (st_sm s)) (st_sm s') = Inr sm" "s'' = s'\<lparr>st_sm := sm\<rparr>"
      by (cases "PopTo (Depth (st_sm s)) (st_sm s')") (auto simp: RevertTo_def st_Depth_def)
    with stacked.view_law [OF inv, of "st_sm s'" sm] a(1,2) show ?thesis
      by (auto simp: st_view_def sm_view_def st_ok_def st_frozen_def st_Depth_def now_of_def fun_eq_iff)
  qed
qed (auto simp: st_frozen_def same_below_def)

text \<open>The states that a client can reach from \<open>New\<close>.\<close>

definition st_reached :: "env \<Rightarrow> bytes32 \<Rightarrow> (byte list \<Rightarrow> byte list option) \<Rightarrow> State \<Rightarrow> bool" where
  "st_reached E root codes st = activity (state_op E) NewCheckpoint RevertTo 0 (st_New root codes) st"

lemma New_ok:
  assumes "serves E B (NewSecureTrie root)" "codes_ok B codes" "arc_law E"
  shows "st_ok E B (st_New root codes)" "now_of B (st_New root codes) = B"
proof -
  show "st_ok E B (st_New root codes)"
    using assms sm_inv_New by (simp add: st_ok_def st_New_def reader_ok_def sm_typed_def sm_New_def newLevel_def)
  show "now_of B (st_New root codes) = B" by (simp add: fun_eq_iff now_of_def st_New_def sm_New_def newLevel_def)
qed

lemma st_reached_ok:
  assumes "serves E B (NewSecureTrie root)" "codes_ok B codes" "arc_law E" "st_reached E root codes st"
  shows "st_ok E B st"
  using world.activity_frozen [OF assms(4) [unfolded st_reached_def] New_ok(1) [OF assms(1-3)]]
  by (simp add: st_Depth_def Depth_def st_New_def sm_New_def)

section \<open>An empty database\<close>

text \<open>A database without accounts, which the examples below use.\<close>

definition empty_env :: env where
  "empty_env = \<lparr>e_hash = plain_env, e_keccak = take 32, e_trie_db = \<lambda>_. no_db, e_code_store = \<lambda>_. Inl ''not found'',
     e_acc_enc = \<lambda>_. Inr [1], e_acc_dec = \<lambda>_. Inl ''no account'', e_rlp_split = \<lambda>raw. Inr (False, raw),
     e_BytesToBytes32 = \<lambda>b. replicate (32 - length b) 0 @ b, e_BytesToAddress = \<lambda>b. b,
     e_arc_add = \<lambda>h c m. m(h \<mapsto> c)\<rparr>"

fun empty_world :: world where
  "empty_world (KAccount addr) = VAccount emptyAccount"
| "empty_world (KCode addr) = VCode []"
| "empty_world (KStorage addr key) = VStorage []"

definition no_codes :: "byte list \<Rightarrow> byte list option" where
  "no_codes = Map.empty"

lemma empty_world_simps [simp]:
  "acc_of empty_world addr = emptyAccount" "code_of empty_world addr = []" "slot_at empty_world addr key = []"
  by (simp_all add: acc_of_def code_of_def slot_at_def)

lemma empty_trie: "mt_holds (e_hash E) db (NewSecureTrie (replicate 32 0)) Map.empty"
  by (simp add: mt_holds_def NewSecureTrie_def newTrie_def NewTrie_def holds_empty)

lemma empty_serves: "serves empty_env empty_world (NewSecureTrie (replicate 32 0))"
proof -
  have "well_typed empty_world" unfolding well_typed_def
  proof
    fix k show "typed k (empty_world k)" by (cases k) simp_all
  qed
  moreover have "trie_slots empty_env empty_world addr (NewSecureTrie (replicate 32 0))" for addr
    unfolding trie_slots_def
    by (intro conjI exI [of _ Map.empty] empty_trie) (simp_all add: NewSecureTrie_def newTrie_def bytes_of_def)
  moreover have "e_BytesToBytes32 empty_env [] = replicate 32 0" by (simp add: empty_env_def)
  ultimately show ?thesis
    unfolding serves_def using empty_trie [of empty_env "e_trie_db empty_env AccountTrieName"]
    by (auto simp: emptyAccount_def bytes_of_def NewSecureTrie_def newTrie_def intro!: exI [of _ Map.empty])
qed

lemma empty_setup: "codes_ok empty_world no_codes" "arc_law empty_env"
  by (simp_all add: codes_ok_def no_codes_def arc_law_def empty_env_def)

definition st0 :: State where
  "st0 = st_New (replicate 32 0) no_codes"

lemma st0_reached: "st_reached empty_env (replicate 32 0) no_codes st0"
  by (simp add: st_reached_def st0_def activity.idle)

lemmas st0_setup = empty_serves empty_setup st0_reached

lemma st0_world [simp]: "now_of empty_world st0 = empty_world"
  unfolding st0_def by (rule New_ok [OF empty_serves empty_setup])

section \<open>Properties\<close>

text \<open>C17: The entries of the state are well typed: in every state that is reached by any calls, checkpoints and reverts on a
  database that stores the world \<open>B\<close>, each getter returns without an error or a failing type assertion, and what it
  returns is the value of the current world.\<close>

theorem state_getters_typed:
  assumes "serves E B (NewSecureTrie root)" "codes_ok B codes" "arc_law E" "st_reached E root codes st"
  shows "well_typed (now_of B st) \<and>
    (\<exists>st'. GetBalance E addr st = Some (Inr (Balance (acc_of (now_of B st) addr)), st')) \<and>
    (\<exists>st'. GetEnergy E addr t st = Some (Inr (CalcEnergy (acc_of (now_of B st) addr) t), st')) \<and>
    (\<exists>st'. GetCode E addr st = Some (Inr (code_of (now_of B st) addr), st')) \<and>
    (\<exists>st'. GetRawStorage E addr key st = Some (Inr (slot_at (now_of B st) addr key), st')) \<and>
    (\<exists>st'. Exists E addr st = Some (Inr (\<not> IsEmpty (acc_of (now_of B st) addr)), st'))"
proof -
  note ok = st_reached_ok [OF assms]
  show ?thesis
    using now_typed [OF ok] account_ops(1,2,5) [OF ok] GetCode_reads [OF ok] GetRawStorage_reads [OF ok]
    unfolding reads_def returns_def by blast
qed

theorem state_getters_typed_witness:
  "\<exists>st'. GetBalance empty_env [1] st0 = Some (Inr 0, st')"
  using state_getters_typed [OF st0_setup, of "[1]"] by (simp add: emptyAccount_def)

text \<open>C18: A setter replaces exactly the entries that it is for: the world after it is the world before with a new
  account, code or slot, and it returns without an error.\<close>

theorem state_setters_update_world:
  assumes "serves E B (NewSecureTrie root)" "codes_ok B codes" "arc_law E" "st_reached E root codes st"
  shows "(\<exists>st'. SetBalance E addr b st = Some (Inr (), st') \<and>
      now_of B st' = (now_of B st)(KAccount addr := VAccount ((acc_of (now_of B st) addr)\<lparr>Balance := b\<rparr>))) \<and>
    (\<exists>st'. SetRawStorage addr key raw st = Some (Inr (), st') \<and>
      now_of B st' = (now_of B st)(KStorage addr key := VStorage raw)) \<and>
    (\<exists>st'. SetCode E addr code st = Some (Inr (), st') \<and>
      now_of B st' = (now_of B st)(KCode addr := VCode code, KAccount addr := VAccount
        ((acc_of (now_of B st) addr)\<lparr>CodeHash := (if code = [] then [] else e_keccak E code)\<rparr>))) \<and>
    (\<exists>st'. st_Delete addr st = Some (Inr (), st') \<and>
      now_of B st' = (now_of B st)(KCode addr := VCode [], KAccount addr := VAccount emptyAccount))"
proof -
  note ok = st_reached_ok [OF assms]
  show ?thesis
    using account_ops(6) [OF ok, of addr b] SetRawStorage_writes [OF ok, of addr key raw] SetCode_writes [OF ok, of addr code]
      Delete_writes [OF ok, of addr]
    unfolding writes_def returns_def by blast
qed

theorem state_setters_update_world_witness:
  "\<exists>st'. SetBalance empty_env [1] 5 st0 = Some (Inr (), st') \<and>
     now_of empty_world st' = empty_world(KAccount [1] := VAccount (emptyAccount\<lparr>Balance := 5\<rparr>))"
  using state_setters_update_world [OF st0_setup, of "[1]" 5] by simp

text \<open>C16: \<open>RevertTo\<close> undoes everything since \<open>NewCheckpoint\<close>: whatever is called in between, it does not panic, and the
  world and the journal are those of the checkpoint.\<close>

theorem state_revert_restores:
  assumes "serves E B (NewSecureTrie root)" "codes_ok B codes" "arc_law E" "st_reached E root codes st"
    and "NewCheckpoint st = (st1, revision)" "activity (state_op E) NewCheckpoint RevertTo revision st1 st2"
  shows "\<exists>st3. RevertTo revision st2 = Inr st3 \<and> now_of B st3 = now_of B st \<and> entries_of (st_sm st3) = entries_of (st_sm st)"
  using world.revert_restores [OF st_reached_ok [OF assms(1-4)] assms(5,6)] by (auto simp: st_view_def)

theorem state_revert_restores_witness:
  "\<exists>st2 st3. SetBalance empty_env [1] 5 (fst (NewCheckpoint st0)) = Some (Inr (), st2) \<and> RevertTo 1 st2 = Inr st3 \<and>
     now_of empty_world st3 = empty_world"
proof -
  have ok: "st_ok empty_env empty_world (fst (NewCheckpoint st0))"
    using NewCheckpoint_law [OF st_reached_ok [OF st0_setup]] by blast
  from account_ops(6) [OF this, of "[1]" 5] obtain st2 where
    2: "SetBalance empty_env [1] 5 (fst (NewCheckpoint st0)) = Some (Inr (), st2)" by (auto simp: writes_def returns_def)
  have c: "NewCheckpoint st0 = (fst (NewCheckpoint st0), 1)"
    by (simp add: NewCheckpoint_def Push_def st0_def st_New_def sm_New_def)
  have "activity (state_op empty_env) NewCheckpoint RevertTo 1 (fst (NewCheckpoint st0)) st2"
    by (rule activity.act, rule activity.idle) (rule state_op.SetBalance [OF 2])
  from state_revert_restores [OF st0_setup c this] 2 show ?thesis by auto
qed

end
