(* ===== verification/Scheduler.thy ===== *)
theory Scheduler
  imports Prelude
begin

text \<open>
  The scheduler of block proposers (\<^verbatim>\<open>consensus/poal/sched.go\<close>). A hash of the parent number and the time
  picks the proposer of every time slot. Times are words of 64 bits and wrap around. The search for the next turn of a
  proposer is a partial function: it returns if there is such a turn. The hash function is the parameter \<open>H\<close>.
\<close>

section \<open>The program\<close>

definition BlockInterval :: u64 where
  "BlockInterval = 10"

definition MaxBlockProposers :: nat where
  "MaxBlockProposers = 101"

record Proposer =
  pr_Address :: address
  pr_Active :: bool

record Scheduler =
  sc_proposer :: Proposer
  sc_actives :: "Proposer list"
  sc_parentBlockNumber :: "32 word"
  sc_parentBlockTime :: u64

text \<open>The loop of \<open>NewScheduler\<close>: the active proposers so far, and the last one with the address, if any.\<close>

fun list_actives ::
    "address \<Rightarrow> Proposer list \<Rightarrow> Proposer list \<Rightarrow> Proposer option \<Rightarrow> Proposer list \<times> Proposer option" where
  "list_actives addr [] actives proposer = (actives, proposer)"
| "list_actives addr (p # ps) actives proposer =
     (if pr_Address p = addr then list_actives addr ps (actives @ [p]) (Some p)
      else if pr_Active p then list_actives addr ps (actives @ [p]) proposer
      else list_actives addr ps actives proposer)"

definition NewScheduler :: "address \<Rightarrow> Proposer list \<Rightarrow> 32 word \<Rightarrow> u64 \<Rightarrow> string + Scheduler" where
  "NewScheduler addr proposers parentBlockNumber parentBlockTime =
     (case list_actives addr proposers [] None of
        (_, None) \<Rightarrow> Inl ''unauthorized block proposer''
      | (actives, Some p) \<Rightarrow>
          Inr \<lparr>sc_proposer = p, sc_actives = actives, sc_parentBlockNumber = parentBlockNumber,
               sc_parentBlockTime = parentBlockTime\<rparr>)"

text \<open>Big-endian bytes of a number and the number of the first eight bytes.\<close>

fun be_bytes :: "nat \<Rightarrow> nat \<Rightarrow> byte list" where
  "be_bytes 0 x = []"
| "be_bytes (Suc n) x = be_bytes n (x div 256) @ [of_nat x]"

definition be_uint64 :: "byte list \<Rightarrow> u64" where
  "be_uint64 bs = fold (\<lambda>b acc. acc * 256 + ucast b) (take 8 bs) 0"

definition dprp :: "(byte list \<Rightarrow> byte list) \<Rightarrow> 32 word \<Rightarrow> u64 \<Rightarrow> u64" where
  "dprp H blockNumber time = be_uint64 (H (be_bytes 4 (unat blockNumber) @ be_bytes 8 (unat time)))"

definition whoseTurn :: "(byte list \<Rightarrow> byte list) \<Rightarrow> Scheduler \<Rightarrow> u64 \<Rightarrow> string + Proposer" where
  "whoseTurn H s t =
     (if sc_actives s = [] then Inl ''integer divide by zero''
      else Inr (sc_actives s ! (unat (dprp H (sc_parentBlockNumber s) t) mod length (sc_actives s))))"

partial_function (option) find_turn ::
    "(byte list \<Rightarrow> byte list) \<Rightarrow> Scheduler \<Rightarrow> u64 \<Rightarrow> (string + u64) option" where
  "find_turn H s newBlockTime =
     (case whoseTurn H s newBlockTime of
        Inl e \<Rightarrow> Some (Inl e)
      | Inr p \<Rightarrow>
          if pr_Address p = pr_Address (sc_proposer s) then Some (Inr newBlockTime)
          else find_turn H s (newBlockTime + BlockInterval))"

definition first_slot :: "Scheduler \<Rightarrow> u64 \<Rightarrow> u64" where
  "first_slot s nowTime =
     (let newBlockTime = sc_parentBlockTime s + BlockInterval in
      if nowTime > newBlockTime
      then newBlockTime + (nowTime - newBlockTime + BlockInterval - 1) div BlockInterval * BlockInterval
      else newBlockTime)"

definition Schedule :: "(byte list \<Rightarrow> byte list) \<Rightarrow> Scheduler \<Rightarrow> u64 \<Rightarrow> (string + u64) option" where
  "Schedule H s nowTime = find_turn H s (first_slot s nowTime)"

definition IsTheTime :: "(byte list \<Rightarrow> byte list) \<Rightarrow> Scheduler \<Rightarrow> u64 \<Rightarrow> string + bool" where
  "IsTheTime H s newBlockTime =
     (if sc_parentBlockTime s \<ge> newBlockTime then Inr False
      else if (newBlockTime - sc_parentBlockTime s) mod BlockInterval \<noteq> 0 then Inr False
      else map_sum id (\<lambda>p. pr_Address p = pr_Address (sc_proposer s)) (whoseTurn H s newBlockTime))"

text \<open>
  The loop of \<open>Updates\<close> over the slots before the new block, at most \<open>n\<close> of them. The map of the proposers that missed
  their turn is an association list; Go visits it in an arbitrary order.
\<close>

fun missed ::
    "(byte list \<Rightarrow> byte list) \<Rightarrow> Scheduler \<Rightarrow> nat \<Rightarrow> u64 \<Rightarrow> (address \<times> Proposer) list \<Rightarrow>
      string + (address \<times> Proposer) list" where
  "missed H s 0 t toDeactivate = Inr toDeactivate"
| "missed H s (Suc n) t toDeactivate =
     (if t > sc_parentBlockTime s then
        (case whoseTurn H s t of
           Inl e \<Rightarrow> Inl e
         | Inr p \<Rightarrow>
             missed H s n (t - BlockInterval)
               (if pr_Address p \<noteq> pr_Address (sc_proposer s) then AList.update (pr_Address p) p toDeactivate
                else toDeactivate))
      else Inr toDeactivate)"

definition Updates ::
    "(byte list \<Rightarrow> byte list) \<Rightarrow> Scheduler \<Rightarrow> u64 \<Rightarrow> string + Proposer list \<times> u64" where
  "Updates H s newBlockTime =
     map_sum id
       (\<lambda>toDeactivate.
          (map (\<lambda>(_, p). p\<lparr>pr_Active := False\<rparr>) toDeactivate @
             (if \<not> pr_Active (sc_proposer s) then [(sc_proposer s)\<lparr>pr_Active := True\<rparr>] else []),
           of_nat (length (sc_actives s)) - of_nat (length toDeactivate)))
       (missed H s MaxBlockProposers (newBlockTime - BlockInterval) [])"

section \<open>The scheduled proposers\<close>

lemma list_actives_spec:
  "list_actives addr ps acts q =
     (acts @ filter (\<lambda>p. pr_Address p = addr \<or> pr_Active p) ps,
      case filter (\<lambda>p. pr_Address p = addr) ps of [] \<Rightarrow> q | qs \<Rightarrow> Some (last qs))"
  by (induction ps arbitrary: acts q) (auto split: list.split)

lemma NewScheduler_spec:
  assumes "NewScheduler addr ps n t = Inr s"
  shows "sc_actives s = filter (\<lambda>p. pr_Address p = addr \<or> pr_Active p) ps"
    and "pr_Address (sc_proposer s) = addr" "sc_proposer s \<in> set (sc_actives s)"
    and "sc_parentBlockNumber s = n" "sc_parentBlockTime s = t"
proof -
  let ?own = "filter (\<lambda>p. pr_Address p = addr) ps"
  have "?own \<noteq> []" and s: "s = \<lparr>sc_proposer = last ?own,
      sc_actives = filter (\<lambda>p. pr_Address p = addr \<or> pr_Active p) ps, sc_parentBlockNumber = n, sc_parentBlockTime = t\<rparr>"
    using assms by (auto simp: NewScheduler_def list_actives_spec split: list.splits)
  then have "last ?own \<in> set ?own" by (metis last_in_set)
  with s show "sc_actives s = filter (\<lambda>p. pr_Address p = addr \<or> pr_Active p) ps"
    "pr_Address (sc_proposer s) = addr" "sc_proposer s \<in> set (sc_actives s)"
    "sc_parentBlockNumber s = n" "sc_parentBlockTime s = t" by auto
qed

lemma NewScheduler_actives: "NewScheduler addr ps n t = Inr s \<Longrightarrow> sc_actives s \<noteq> []"
  using NewScheduler_spec(3) by fastforce

lemma NewScheduler_listed: "(\<exists>s. NewScheduler addr ps n t = Inr s) \<longleftrightarrow> addr \<in> pr_Address ` set ps"
proof (cases "filter (\<lambda>p. pr_Address p = addr) ps")
  case Nil
  then show ?thesis by (auto simp: NewScheduler_def list_actives_spec filter_empty_conv)
next
  case (Cons q qs)
  then have "q \<in> set (filter (\<lambda>p. pr_Address p = addr) ps)" by simp
  then have "addr \<in> pr_Address ` set ps" by auto
  moreover have "\<exists>s. NewScheduler addr ps n t = Inr s" using Cons by (simp add: NewScheduler_def list_actives_spec)
  ultimately show ?thesis by simp
qed

text \<open>The proposer of a slot, and whether it is the one that is scheduled.\<close>

definition turn_of :: "(byte list \<Rightarrow> byte list) \<Rightarrow> Scheduler \<Rightarrow> u64 \<Rightarrow> Proposer" where
  "turn_of H s t = sc_actives s ! (unat (dprp H (sc_parentBlockNumber s) t) mod length (sc_actives s))"

definition own_turn :: "(byte list \<Rightarrow> byte list) \<Rightarrow> Scheduler \<Rightarrow> u64 \<Rightarrow> bool" where
  "own_turn H s t = (pr_Address (turn_of H s t) = pr_Address (sc_proposer s))"

lemma whoseTurn_ok:
  assumes "sc_actives s \<noteq> []"
  shows "whoseTurn H s t = Inr (turn_of H s t)" "turn_of H s t \<in> set (sc_actives s)"
  using assms by (simp_all add: whoseTurn_def turn_of_def)

section \<open>The next turn\<close>

lemma find_turn_hit:
  assumes "sc_actives s \<noteq> []" "own_turn H s (t + of_nat k * BlockInterval)"
    "\<And>j. j < k \<Longrightarrow> \<not> own_turn H s (t + of_nat j * BlockInterval)"
  shows "find_turn H s t = Some (Inr (t + of_nat k * BlockInterval))"
  using assms(2,3)
proof (induction k arbitrary: t)
  case 0
  then show ?case by (subst find_turn.simps) (simp add: whoseTurn_ok [OF assms(1)] own_turn_def)
next
  case (Suc k)
  have "\<not> own_turn H s t" using Suc.prems(2) [of 0] by simp
  moreover have "find_turn H s (t + BlockInterval) = Some (Inr (t + BlockInterval + of_nat k * BlockInterval))"
    by (rule Suc.IH) (use Suc.prems(1) Suc.prems(2) [of "Suc j" for j] in \<open>simp_all add: algebra_simps\<close>)
  ultimately show ?case
    by (subst find_turn.simps) (simp add: whoseTurn_ok [OF assms(1)] own_turn_def algebra_simps)
qed

lemma find_turn_returned:
  assumes "find_turn H s t = Some r" "sc_actives s \<noteq> []"
  shows "\<exists>k. own_turn H s (t + of_nat k * BlockInterval) \<and> r = Inr (t + of_nat k * BlockInterval)"
proof -
  define P where "P H s t r = (sc_actives s \<noteq> [] \<longrightarrow>
      (\<exists>k. own_turn H s (t + of_nat k * BlockInterval) \<and> r = Inr (t + of_nat k * BlockInterval)))" for H s t and r :: "string + u64"
  have "P H s t r"
  proof (rule find_turn.raw_induct [where P = P, OF _ assms(1)])
    fix f H s t r
    assume IH: "\<And>H s t r. f H s t = Some r \<Longrightarrow> P H s t r"
      and r: "(case whoseTurn H s t of Inl e \<Rightarrow> Some (Inl e)
        | Inr p \<Rightarrow> if pr_Address p = pr_Address (sc_proposer s) then Some (Inr t) else f H s (t + BlockInterval)) = Some r"
    show "P H s t r" unfolding P_def
    proof
      assume a: "sc_actives s \<noteq> []"
      show "\<exists>k. own_turn H s (t + of_nat k * BlockInterval) \<and> r = Inr (t + of_nat k * BlockInterval)"
      proof (cases "own_turn H s t")
        case True
        with r a show ?thesis by (intro exI [of _ 0]) (simp add: whoseTurn_ok own_turn_def)
      next
        case False
        with r a have "f H s (t + BlockInterval) = Some r" by (simp add: whoseTurn_ok own_turn_def)
        from IH [OF this] a obtain k where "own_turn H s (t + BlockInterval + of_nat k * BlockInterval)"
          "r = Inr (t + BlockInterval + of_nat k * BlockInterval)" unfolding P_def by blast
        then show ?thesis by (intro exI [of _ "Suc k"]) (simp add: algebra_simps)
      qed
    qed
  qed
  with assms(2) show ?thesis by (simp add: P_def)
qed

lemma find_turn_returns:
  assumes "sc_actives s \<noteq> []"
  shows "(\<exists>r. find_turn H s t = Some r) \<longleftrightarrow> (\<exists>k. own_turn H s (t + of_nat k * BlockInterval))"
proof
  assume "\<exists>k. own_turn H s (t + of_nat k * BlockInterval)"
  then have "own_turn H s (t + of_nat (LEAST k. own_turn H s (t + of_nat k * BlockInterval)) * BlockInterval)" by (rule LeastI_ex)
  from find_turn_hit [OF assms this] not_less_Least show "\<exists>r. find_turn H s t = Some r" by blast
qed (use find_turn_returned assms in blast)

section \<open>Time slots\<close>

lemma interval_nat [u64_nat]: "unat BlockInterval = 10"
  by (simp add: BlockInterval_def)

text \<open>The first slot after the parent that is not before \<open>nowTime\<close>, on natural numbers.\<close>

definition slot0 :: "nat \<Rightarrow> nat \<Rightarrow> nat" where
  "slot0 parent now = (if now \<le> parent + 10 then parent + 10 else parent + 10 + (now - (parent + 10) + 9) div 10 * 10)"

lemma slot0_bounds: "now \<le> slot0 parent now" "parent < slot0 parent now" "(slot0 parent now - parent) mod 10 = 0"
  by (auto simp: slot0_def)

lemma slot0_first:
  assumes "now \<le> t" "parent < t" "(t - parent) mod 10 = 0"
  shows "\<exists>k. t = slot0 parent now + k * 10"
proof -
  from assms(2,3) obtain j where j: "t = parent + j * 10" "0 < j"
    by (metis add_diff_inverse_nat dvd_def less_or_eq_imp_le mod_0_imp_dvd mult.commute not_less mult_0 add_0_right less_irrefl gr0I)
  show ?thesis
  proof (cases "now \<le> parent + 10")
    case True
    with j show ?thesis by (intro exI [of _ "j - 1"]) (simp add: slot0_def algebra_simps)
  next
    case False
    define q where "q = (now - (parent + 10) + 9) div 10"
    have "q \<le> j - 1" using assms(1) j False by (simp add: q_def)
    moreover have "slot0 parent now = parent + 10 + q * 10" using False by (simp only: slot0_def q_def if_False)
    ultimately show ?thesis using j by (intro exI [of _ "j - 1 - q"]) (simp add: algebra_simps)
  qed
qed

lemma first_slot_nat:
  assumes "slot0 (unat (sc_parentBlockTime s)) (unat nowTime) < 2 ^ 64"
  shows "unat (first_slot s nowTime) = slot0 (unat (sc_parentBlockTime s)) (unat nowTime)"
proof -
  let ?p = "unat (sc_parentBlockTime s)"
  have "?p + 10 < 2 ^ 64" using assms slot0_bounds(2) [of ?p "unat nowTime"] by (auto simp: slot0_def split: if_splits)
  then have t0: "unat (sc_parentBlockTime s + BlockInterval) = ?p + 10" by (simp add: u64_plus interval_nat)
  show ?thesis
  proof (cases "unat nowTime \<le> ?p + 10")
    case True
    then show ?thesis by (simp add: first_slot_def slot0_def u64_less t0)
  next
    case False
    define d where "d = nowTime - (sc_parentBlockTime s + BlockInterval)"
    have d: "unat d = unat nowTime - (?p + 10)" using False by (simp add: d_def u64_diff u64_le t0)
    have "unat d + 10 < 2 ^ 64" using d u64_bound [of nowTime] False by simp
    then have "unat (d + BlockInterval) = unat d + 10" by (simp add: u64_plus interval_nat)
    moreover from this have "unat (d + BlockInterval - 1) = unat (d + BlockInterval) - 1"
      by (subst u64_diff) (simp_all add: u64_le)
    ultimately have "unat ((d + BlockInterval - 1) div BlockInterval) = (unat d + 9) div 10"
      by (simp add: unat_div interval_nat)
    moreover have "(unat d + 9) div 10 * 10 < 2 ^ 64" using d assms False by (simp add: slot0_def)
    ultimately have "unat ((d + BlockInterval - 1) div BlockInterval * BlockInterval) = (unat d + 9) div 10 * 10"
      by (simp add: unat_word_ariths(2) interval_nat)
    then show ?thesis using False assms d
      by (simp add: first_slot_def slot0_def u64_less t0 u64_plus d_def [symmetric])
  qed
qed

text \<open>A slot of the scheduler, and the slots that \<open>Updates\<close> visits before \<open>t\<close>.\<close>

definition is_slot :: "Scheduler \<Rightarrow> u64 \<Rightarrow> bool" where
  "is_slot s t = (unat (sc_parentBlockTime s) < unat t \<and> (unat t - unat (sc_parentBlockTime s)) mod 10 = 0)"

lemma IsTheTime_ok:
  assumes "sc_actives s \<noteq> []"
  shows "IsTheTime H s t = Inr (is_slot s t \<and> own_turn H s t)"
proof (cases "unat (sc_parentBlockTime s) < unat t")
  case True
  have "(t - sc_parentBlockTime s) mod BlockInterval = 0 \<longleftrightarrow> (unat t - unat (sc_parentBlockTime s)) mod 10 = 0"
    using True u64_diff [of "sc_parentBlockTime s" t]
    by (simp add: word_unat_eq_iff [of _ 0] unat_mod interval_nat u64_le)
  with True show ?thesis
    by (auto simp: IsTheTime_def is_slot_def u64_le whoseTurn_ok [OF assms] own_turn_def)
next
  case False
  then show ?thesis by (simp add: IsTheTime_def is_slot_def u64_le)
qed

lemma slot_steps:
  assumes "slot0 (unat (sc_parentBlockTime s)) (unat nowTime) + k * 10 < 2 ^ 64"
  shows "unat (first_slot s nowTime + of_nat k * BlockInterval) =
    slot0 (unat (sc_parentBlockTime s)) (unat nowTime) + k * 10"
proof -
  have f: "unat (first_slot s nowTime) = slot0 (unat (sc_parentBlockTime s)) (unat nowTime)"
    using assms by (intro first_slot_nat) simp
  have "unat (of_nat k * BlockInterval :: u64) = k * 10"
    using assms by (simp add: unat_word_ariths(2) interval_nat unat_of_nat mod_mult_left_eq)
  with assms f show ?thesis by (simp add: u64_plus)
qed

lemma slot_after: "p < b \<Longrightarrow> (b - p) mod 10 = 0 \<Longrightarrow> (b + m * 10 - p) mod 10 = 0" for p b m :: nat
  by presburger

lemma schedule_search:
  assumes "sc_actives s \<noteq> []" "is_slot s t1" "own_turn H s t1" "unat nowTime \<le> unat t1"
  shows "\<exists>t. Schedule H s nowTime = Some (Inr t) \<and> is_slot s t \<and> own_turn H s t \<and> unat nowTime \<le> unat t \<and>
    (\<forall>t'. is_slot s t' \<and> own_turn H s t' \<and> unat nowTime \<le> unat t' \<longrightarrow> unat t \<le> unat t')"
proof -
  let ?b = "slot0 (unat (sc_parentBlockTime s)) (unat nowTime)" and ?f = "first_slot s nowTime"
  have slots: "\<exists>k. unat t = ?b + k * 10 \<and> t = ?f + of_nat k * BlockInterval"
    if t: "is_slot s t" "unat nowTime \<le> unat t" for t
  proof -
    have "\<exists>k. unat t = ?b + k * 10" by (rule slot0_first) (use t in \<open>simp_all add: is_slot_def\<close>)
    then obtain k where k: "unat t = ?b + k * 10" ..
    then have "?b + k * 10 < 2 ^ 64" using u64_bound [of t] by simp
    from slot_steps [OF this] k show ?thesis by (auto simp: word_unat_eq_iff)
  qed
  define m where "m = (LEAST k. own_turn H s (?f + of_nat k * BlockInterval))"
  obtain k1 where k1: "unat t1 = ?b + k1 * 10" "t1 = ?f + of_nat k1 * BlockInterval" using slots assms(2,4) by blast
  then have own: "own_turn H s (?f + of_nat m * BlockInterval)" and "m \<le> k1"
    unfolding m_def using assms(3) by (auto intro: LeastI Least_le)
  have m: "unat (?f + of_nat m * BlockInterval) = ?b + m * 10"
    using \<open>m \<le> k1\<close> k1(1) u64_bound [of t1] by (intro slot_steps) simp
  have "Schedule H s nowTime = Some (Inr (?f + of_nat m * BlockInterval))"
    unfolding Schedule_def using own not_less_Least m_def by (intro find_turn_hit [OF assms(1)]) blast+
  moreover have "is_slot s (?f + of_nat m * BlockInterval)"
    using slot0_bounds(2,3) [of "unat (sc_parentBlockTime s)" "unat nowTime"] slot_after
    unfolding is_slot_def m by (meson trans_less_add1)
  moreover have "unat nowTime \<le> unat (?f + of_nat m * BlockInterval)"
    using slot0_bounds(1) [of "unat nowTime" "unat (sc_parentBlockTime s)"] by (simp add: m)
  moreover have "unat (?f + of_nat m * BlockInterval) \<le> unat t'"
    if t': "is_slot s t'" "own_turn H s t'" "unat nowTime \<le> unat t'" for t'
  proof -
    obtain k where k: "unat t' = ?b + k * 10" "t' = ?f + of_nat k * BlockInterval" using slots t' by blast
    with t'(2) have "m \<le> k" by (auto simp: m_def intro: Least_le)
    with k(1) m show ?thesis by simp
  qed
  ultimately show ?thesis using own by blast
qed

section \<open>Missed turns\<close>

text \<open>The proposers other than the scheduled one whose turn was one of the \<open>n\<close> slots up to \<open>t\<close>.\<close>

definition absent :: "(byte list \<Rightarrow> byte list) \<Rightarrow> Scheduler \<Rightarrow> nat \<Rightarrow> nat \<Rightarrow> address set" where
  "absent H s n t =
     {pr_Address (turn_of H s x) | x. is_slot s x \<and> unat x \<le> t \<and> t < unat x + 10 * n \<and> \<not> own_turn H s x}"

lemma absent_step:
  assumes "is_slot s t"
  shows "absent H s (Suc n) (unat t) =
    (if own_turn H s t then {} else {pr_Address (turn_of H s t)}) \<union> absent H s n (unat t - 10)"
proof -
  have slots: "is_slot s x \<and> unat x \<le> unat t \<and> unat t < unat x + 10 * Suc n \<longleftrightarrow>
      x = t \<or> is_slot s x \<and> unat x \<le> unat t - 10 \<and> unat t - 10 < unat x + 10 * n" for x
  proof -
    have "unat x \<le> unat t - 10" if x: "is_slot s x" "unat x \<le> unat t" "x \<noteq> t"
    proof -
      have "unat x \<noteq> unat t" using x(3) by (simp add: word_unat_eq_iff)
      with x(1,2) assms show ?thesis unfolding is_slot_def by presburger
    qed
    moreover have "10 \<le> unat t" using assms unfolding is_slot_def by presburger
    ultimately show ?thesis using assms by (auto simp: is_slot_def)
  qed
  have "absent H s (Suc n) (unat t) = {pr_Address (turn_of H s x) | x.
      (is_slot s x \<and> unat x \<le> unat t \<and> unat t < unat x + 10 * Suc n) \<and> \<not> own_turn H s x}"
    by (simp only: absent_def conj_assoc)
  then show ?thesis unfolding slots by (auto simp: absent_def)
qed

lemma slot_before: "p < t \<Longrightarrow> (t - p) mod 10 = 0 \<Longrightarrow> t \<noteq> p + 10 \<Longrightarrow> p < t - 10 \<and> (t - 10 - p) mod 10 = 0" for p t :: nat
  by presburger

lemma missed_spec:
  assumes "sc_actives s \<noteq> []" "is_slot s t \<or> t = sc_parentBlockTime s"
    and "distinct (map fst acc)" "\<And>a q. (a, q) \<in> set acc \<Longrightarrow> pr_Address q = a \<and> q \<in> set (sc_actives s)"
  shows "\<exists>td. missed H s n t acc = Inr td \<and> distinct (map fst td) \<and>
    (\<forall>(a, q) \<in> set td. pr_Address q = a \<and> q \<in> set (sc_actives s)) \<and>
    fst ` set td = fst ` set acc \<union> absent H s n (unat t)"
  using assms(2-)
proof (induction n arbitrary: t acc)
  case 0
  then show ?case by (auto simp: absent_def)
next
  case (Suc n)
  show ?case
  proof (cases "is_slot s t")
    case False
    then have "\<not> sc_parentBlockTime s < t" "absent H s (Suc n) (unat t) = {}"
      using Suc.prems(1) by (auto simp: absent_def is_slot_def)
    with Suc.prems(2,3) show ?thesis by auto
  next
    case True
    then have t: "sc_parentBlockTime s < t" "10 \<le> unat t" by (simp add: is_slot_def u64_less) (use True in \<open>unfold is_slot_def, presburger\<close>)
    then have d: "unat (t - BlockInterval) = unat t - 10" by (subst u64_diff) (simp_all add: u64_le interval_nat)
    let ?q = "turn_of H s t"
    let ?acc = "if own_turn H s t then acc else AList.update (pr_Address ?q) ?q acc"
    have "\<exists>td. missed H s n (t - BlockInterval) ?acc = Inr td \<and> distinct (map fst td) \<and>
        (\<forall>(a, q) \<in> set td. pr_Address q = a \<and> q \<in> set (sc_actives s)) \<and>
        fst ` set td = fst ` set ?acc \<union> absent H s n (unat (t - BlockInterval))"
    proof (rule Suc.IH)
      show "is_slot s (t - BlockInterval) \<or> t - BlockInterval = sc_parentBlockTime s"
      proof (cases "unat t = unat (sc_parentBlockTime s) + 10")
        case True
        then show ?thesis using d by (simp add: word_unat_eq_iff)
      next
        case False
        with True d slot_before show ?thesis unfolding is_slot_def by (metis (no_types))
      qed
      show "distinct (map fst ?acc)" using Suc.prems(2) by (simp add: distinct_update)
      show "pr_Address q = a \<and> q \<in> set (sc_actives s)" if "(a, q) \<in> set ?acc" for a q
        using that Suc.prems(2,3) whoseTurn_ok(2) [OF assms(1), of H t]
        by (auto split: if_splits dest: set_update_mem)
    qed
    moreover have "fst ` set ?acc = fst ` set acc \<union> (if own_turn H s t then {} else {pr_Address ?q})"
      by (auto simp: dom_update)
    ultimately show ?thesis
      using t(1) absent_step [OF True, of H n] d by (auto simp: whoseTurn_ok [OF assms(1)] own_turn_def)
  qed
qed

lemma Updates_spec:
  assumes "NewScheduler addr ps n pt = Inr s" "is_slot s t" "length ps < 2 ^ 64"
  shows "\<exists>td score. Updates H s t = Inr (map (\<lambda>(_, p). p\<lparr>pr_Active := False\<rparr>) td @
        (if pr_Active (sc_proposer s) then [] else [(sc_proposer s)\<lparr>pr_Active := True\<rparr>]), score) \<and>
      distinct (map fst td) \<and> (\<forall>(a, q) \<in> set td. pr_Address q = a \<and> q \<in> set (sc_actives s)) \<and>
      fst ` set td = absent H s MaxBlockProposers (unat t - 10) \<and>
      unat score + length td = length (sc_actives s) \<and> 0 < unat score"
proof -
  note s = NewScheduler_spec [OF assms(1)]
  note ne = NewScheduler_actives [OF assms(1)]
  have "10 \<le> unat t" using assms(2) unfolding is_slot_def by presburger
  then have d: "unat (t - BlockInterval) = unat t - 10" by (subst u64_diff) (simp_all add: u64_le interval_nat)
  have "is_slot s (t - BlockInterval) \<or> t - BlockInterval = sc_parentBlockTime s"
  proof (cases "unat t = unat (sc_parentBlockTime s) + 10")
    case True
    then show ?thesis using d by (simp add: word_unat_eq_iff)
  next
    case False
    with assms(2) d slot_before show ?thesis unfolding is_slot_def by (metis (no_types))
  qed
  from missed_spec [OF ne this, of "[]" H MaxBlockProposers] obtain td where
    td: "missed H s MaxBlockProposers (t - BlockInterval) [] = Inr td" "distinct (map fst td)"
      "\<forall>(a, q) \<in> set td. pr_Address q = a \<and> q \<in> set (sc_actives s)"
      "fst ` set td = absent H s MaxBlockProposers (unat t - 10)" using d by auto
  have "length td < length (sc_actives s)"
  proof -
    have "length td = card (fst ` set td)" using td(2) by (metis distinct_card length_map set_map)
    also have "fst ` set td \<subset> pr_Address ` set (sc_actives s)"
    proof
      show "fst ` set td \<subseteq> pr_Address ` set (sc_actives s)" using td(3) by force
      have "addr \<notin> fst ` set td" using td(4) s(2) by (auto simp: absent_def own_turn_def)
      moreover have "addr \<in> pr_Address ` set (sc_actives s)" using s(2,3) by auto
      ultimately show "fst ` set td \<noteq> pr_Address ` set (sc_actives s)" by blast
    qed
    then have "card (fst ` set td) < card (pr_Address ` set (sc_actives s))" by (intro psubset_card_mono) simp_all
    also have "\<dots> \<le> length (sc_actives s)" by (metis card_length image_set length_map)
    finally show ?thesis .
  qed
  moreover have "length (sc_actives s) < 2 ^ 64" using s(1) assms(3) by (auto intro: le_less_trans [OF length_filter_le])
  ultimately have "unat (of_nat (length (sc_actives s)) - of_nat (length td) :: u64) = length (sc_actives s) - length td"
    by (subst u64_diff) (simp_all add: u64_le unat_of_nat)
  with td \<open>length td < length (sc_actives s)\<close> show ?thesis by (auto simp: Updates_def)
qed

section \<open>Properties\<close>

text \<open>C15: \<open>Schedule\<close> finds the next turn: if some time from \<open>nowTime\<close> on is accepted by \<open>IsTheTime\<close>, it returns the first such time,
  which is later than the parent.\<close>

theorem schedule_finds_next_turn:
  assumes "NewScheduler addr ps n parentTime = Inr s" "IsTheTime H s t1 = Inr True" "nowTime \<le> t1"
  shows "\<exists>t. Schedule H s nowTime = Some (Inr t) \<and> IsTheTime H s t = Inr True \<and> nowTime \<le> t \<and> parentTime < t \<and>
    (\<forall>t'. IsTheTime H s t' = Inr True \<and> nowTime \<le> t' \<longrightarrow> t \<le> t')"
proof -
  note s = NewScheduler_spec [OF assms(1)]
  note ne = NewScheduler_actives [OF assms(1)]
  have "is_slot s t1" "own_turn H s t1" "unat nowTime \<le> unat t1" using assms(2,3) by (simp_all add: IsTheTime_ok [OF ne] u64_le)
  from schedule_search [OF ne this] show ?thesis
    unfolding IsTheTime_ok [OF ne] u64_le u64_less s(5) [symmetric] by (auto simp: is_slot_def)
qed


text \<open>C19: For a time that \<open>IsTheTime\<close> accepts, \<open>Updates\<close> deactivates exactly the proposers whose turn was missed in the slots
  before it (the last 101 of them), activates the proposer if it was inactive, and the score is the number of
  active proposers without the deactivated ones: it is positive and does not wrap around.\<close>

theorem updates_score_missed_turns:
  assumes "NewScheduler addr ps n parentTime = Inr s" "IsTheTime H s t = Inr True" "length ps < 2 ^ 64"
  shows "\<exists>us score. Updates H s t = Inr (us, score) \<and>
    pr_Address ` {u \<in> set us. \<not> pr_Active u} = absent H s MaxBlockProposers (unat t - 10) \<and>
    {u \<in> set us. pr_Active u} = (if pr_Active (sc_proposer s) then {} else {(sc_proposer s)\<lparr>pr_Active := True\<rparr>}) \<and>
    unat score + card (absent H s MaxBlockProposers (unat t - 10)) = length (sc_actives s) \<and> 0 < score"
proof -
  note ne = NewScheduler_actives [OF assms(1)]
  have slot: "is_slot s t" using assms(2) by (simp add: IsTheTime_ok [OF ne])
  from Updates_spec [OF assms(1) slot assms(3)] obtain td score where
    u: "Updates H s t = Inr (map (\<lambda>(_, p). p\<lparr>pr_Active := False\<rparr>) td @
        (if pr_Active (sc_proposer s) then [] else [(sc_proposer s)\<lparr>pr_Active := True\<rparr>]), score)"
      "distinct (map fst td)" "\<forall>(a, q) \<in> set td. pr_Address q = a \<and> q \<in> set (sc_actives s)"
      "fst ` set td = absent H s MaxBlockProposers (unat t - 10)"
      "unat score + length td = length (sc_actives s)" "0 < unat score" by blast
  let ?us = "map (\<lambda>(_, p). p\<lparr>pr_Active := False\<rparr>) td @
        (if pr_Active (sc_proposer s) then [] else [(sc_proposer s)\<lparr>pr_Active := True\<rparr>])"
  have off: "pr_Address ` {u \<in> set ?us. \<not> pr_Active u} = fst ` set td"
  proof -
    have "{u \<in> set ?us. \<not> pr_Active u} = (\<lambda>(_, p). p\<lparr>pr_Active := False\<rparr>) ` set td" by auto
    then have "pr_Address ` {u \<in> set ?us. \<not> pr_Active u} = (\<lambda>x. pr_Address (snd x)) ` set td"
      by (simp add: image_image case_prod_beta)
    also have "\<dots> = fst ` set td" using u(3) by (intro image_cong) auto
    finally show ?thesis .
  qed
  have on: "{u \<in> set ?us. pr_Active u} = (if pr_Active (sc_proposer s) then {} else {(sc_proposer s)\<lparr>pr_Active := True\<rparr>})"
    by auto
  have "card (fst ` set td) = length td" using u(2) by (metis distinct_card length_map set_map)
  then have "unat score + card (absent H s MaxBlockProposers (unat t - 10)) = length (sc_actives s)"
    using u(4,5) by (simp only:)
  moreover have "0 < score" using u(6) by (simp only: u64_less unat_0)
  ultimately show ?thesis using u(1) off [unfolded u(4)] on by blast
qed

subsection \<open>A small network\<close>

text \<open>Three proposers, and a hash that is the last byte of the time: the slots 10, 20 and 30 belong to the second, the
  third and the first of them.\<close>

definition clock_hash :: "byte list \<Rightarrow> byte list" where
  "clock_hash bs = replicate 7 0 @ [last bs]"

definition three :: "Proposer list" where
  "three = [\<lparr>pr_Address = [1], pr_Active = False\<rparr>, \<lparr>pr_Address = [2], pr_Active = True\<rparr>, \<lparr>pr_Address = [3], pr_Active = True\<rparr>]"

definition three_sched :: Scheduler where
  "three_sched = \<lparr>sc_proposer = \<lparr>pr_Address = [1], pr_Active = False\<rparr>, sc_actives = three, sc_parentBlockNumber = 7,
     sc_parentBlockTime = 0\<rparr>"

lemma three_new: "NewScheduler [1] three 7 0 = Inr three_sched"
  by (simp add: NewScheduler_def three_def three_sched_def)

lemma clock_dprp: "dprp clock_hash n t = ucast (ucast t :: byte)"
proof -
  have "be_bytes 8 (unat t) = be_bytes 7 (unat t div 256) @ [of_nat (unat t)]"
    using be_bytes.simps(2) [of 7 "unat t"] by simp
  then have "last (be_bytes 4 (unat n) @ be_bytes 8 (unat t)) = (of_nat (unat t) :: byte)"
    by (metis append_assoc last_snoc)
  moreover have "replicate 7 0 @ [b] = [0, 0, 0, 0, 0, 0, 0, b]" for b :: byte
    by (simp add: eval_nat_numeral)
  ultimately have "clock_hash (be_bytes 4 (unat n) @ be_bytes 8 (unat t)) = [0, 0, 0, 0, 0, 0, 0, of_nat (unat t)]"
    by (simp only: clock_hash_def)
  then show ?thesis by (simp only: dprp_def) (simp add: be_uint64_def)
qed

lemma three_time: "IsTheTime clock_hash three_sched 30 = Inr True" "IsTheTime clock_hash three_sched 10 = Inr False"
  by (simp_all add: IsTheTime_def three_sched_def three_def whoseTurn_def clock_dprp BlockInterval_def)

theorem schedule_finds_next_turn_witness:
  "\<exists>t. Schedule clock_hash three_sched 5 = Some (Inr t) \<and> IsTheTime clock_hash three_sched t = Inr True \<and> 5 \<le> t"
  using schedule_finds_next_turn [OF three_new three_time(1), of 5] by auto


theorem updates_score_missed_turns_witness:
  "\<exists>us score. Updates clock_hash three_sched 30 = Inr (us, score) \<and>
     {u \<in> set us. pr_Active u} = {\<lparr>pr_Address = [1], pr_Active = True\<rparr>} \<and> 0 < score"
proof -
  have "length three < 2 ^ 64" by (simp add: three_def)
  from updates_score_missed_turns [OF three_new three_time(1) this] show ?thesis
    by (simp add: three_sched_def) blast
qed

end
