(* ===== verification/Spec2Isabelle.thy ===== *)
theory Spec2Isabelle
  imports Counting_Tracers FourByte_Tracer Prestate_Tracer Call_Tree Evmdis_Tree World_Checkpoints Gas_Limit Scheduler
begin

text \<open>
  This library verifies parts of a blockchain node: the transaction tracers, which are JavaScript objects run by Go
  code, and below them the state of the node, from the Merkle Patricia trie to accounts with checkpoints, the
  scheduler of block proposers and the gas limit of blocks. File names are relative to \<^verbatim>\<open>src\<close>.

  \<^bold>\<open>How the parts interact.\<close> The interpreter reports every instruction to a \<open>Tracer\<close> by \<open>CaptureStart\<close>,
  \<open>CaptureState\<close>, \<open>CaptureFault\<close> and \<open>CaptureEnd\<close>. The tracer exposes the state of the machine to JavaScript
  as the objects \<open>log\<close>, \<open>db\<close> and \<open>ctx\<close>, calls the methods \<open>step\<close> and \<open>fault\<close> of a JavaScript object, keeps
  the first error and honours a stop request; \<open>GetResult\<close> calls the method \<open>result\<close>. Execution works on the state: accounts,
  codes and storage slots are entries of a stacked map with checkpoints, over accounts that are loaded from a trie whose
  root hash is the commitment of a block to its state. A packer makes a block at a time that the scheduler gives it, with
  a gas limit that the validator accepts.

  \<^bold>\<open>Theories and sources: tracers.\<close>
  \<^item> \<open>Prelude\<close>: types and generic lemmas. Results of fallible code are sums, effects of methods are
    \<open>outcome\<close>s (a value or a thrown error, with the object as it is at that point).
  \<^item> \<open>JS_Values\<close>: the numbers of JavaScript on integers (rounding to 53 bits after every
    operation), objects as association lists in property order, and what the tracers use of the big
    integer library that \<^verbatim>\<open>tracers/tracer.go\<close> embeds: printing, parsing, \<open>valueOf\<close>.
  \<^item> \<open>EVM_Opcodes\<close> (\<^verbatim>\<open>vm/opcodes.go\<close>): names of opcodes and \<open>IsPush\<close>.
  \<^item> \<open>EVM_Memory\<close> (\<^verbatim>\<open>vm/memory.go\<close>, \<^verbatim>\<open>vm/stack.go\<close>): every operation of \<open>Memory\<close> and \<open>Stack\<close>, out of
    range accesses as the panics of Go.
  \<^item> \<open>Tracer_Host\<close> (\<^verbatim>\<open>tracers/tracer.go\<close>): the wrappers \<open>op\<close>, \<open>stack\<close>, \<open>memory\<close>, \<open>contract\<close>, \<open>db\<close> and the global
    functions \<open>toHex\<close>, \<open>toAddress\<close>, \<open>toContract\<close>, \<open>isPrecompiled\<close>, \<open>slice\<close> and so on. The JavaScript engine and the hash
    function are the record \<open>host\<close>; \<open>duk_numbers\<close> and \<open>hex_encoding\<close> say what is relied on.
  \<^item> \<open>Tracer_Driver\<close> (\<^verbatim>\<open>tracers/tracer.go\<close>): \<open>New\<close>, \<open>Stop\<close>, the capture calls and \<open>GetResult\<close> on the record \<open>Tracer\<close>,
    sequences of capture calls, and the interfaces \<open>safe_tracer\<close> and \<open>passive_tracer\<close>.
  \<^item> \<open>Counting_Tracers\<close> (\<^verbatim>\<open>noop\<close>, \<^verbatim>\<open>opcount\<close>, \<^verbatim>\<open>unigram\<close>, \<^verbatim>\<open>bigram\<close>, \<^verbatim>\<open>trigram_tracer.js\<close>) and
    \<open>FourByte_Tracer\<close> (\<^verbatim>\<open>4byte_tracer.js\<close>): histograms, through the interface \<open>histogram\<close>.
  \<^item> \<open>Prestate_Tracer\<close> (\<^verbatim>\<open>prestate_tracer.js\<close>): \<open>lookupAccount\<close>, \<open>lookupStorage\<close>, \<open>step\<close>, \<open>result\<close>.
  \<^item> \<open>Call_Tracer\<close> (\<^verbatim>\<open>call_tracer.js\<close>): \<open>step\<close> branch by branch, \<open>fault\<close>, \<open>result\<close>, \<open>finalize\<close>; \<open>Call_Tree\<close>: its
    specification over trees of activations and the simulation.
  \<^item> \<open>Evmdis_Tracer\<close> (\<^verbatim>\<open>evmdis_tracer.js\<close>): the operation objects in an explicit store, since an
    entry is shared between the list of its frame and the stack; \<open>Evmdis_Tree\<close>: the simulation by trees.

  \<^bold>\<open>Theories and sources: state.\<close>
  \<^item> \<open>Trie_Encoding\<close> (\<^verbatim>\<open>trie/encoding.go\<close>): the encodings of keys. \<open>Patricia_Trie\<close> (\<^verbatim>\<open>trie/trie.go\<close>, \<^verbatim>\<open>trie/node.go\<close>):
    \<open>TryGet\<close>, \<open>TryUpdate\<close>, \<open>TryDelete\<close>, \<open>New\<close> on nodes that are loaded from a database on demand. \<open>Trie_Hasher\<close>
    (\<^verbatim>\<open>trie/hasher.go\<close>): \<open>Hash\<close> and \<open>CommitTo\<close> with the hashes cached in the nodes.
  \<^item> \<open>Trie_Canonical\<close>: pure trees, the specification of the trie, with one canonical form for every map. \<open>Trie_Map\<close>: the operations
    refine those on trees. \<open>Trie_Root\<close>: the interface \<open>kv_store\<close> of a map and the root hash.
  \<^item> \<open>Computations\<close>: calls that may not return, panic, fail or return, over a state.
  \<^item> \<open>Stacked_Map\<close> (\<^verbatim>\<open>common/stackedmap/stackedmap.go\<close>): every operation, and the interface \<open>checkpointed\<close>.
  \<^item> \<open>Mux_Trie\<close> (\<^verbatim>\<open>muxdb/trie.go\<close>): the managed trie, opened on first use, with hashed keys.
  \<^item> \<open>Accounts\<close> (\<^verbatim>\<open>state/account.go\<close>, \<^verbatim>\<open>state/cached_object.go\<close>): energy, loading and saving, cached objects.
  \<^item> \<open>World_State\<close> (\<^verbatim>\<open>state/state.go\<close>): the getters and setters of the state and its checkpoints; \<open>World_Map\<close>: they read and
    replace values of a function from keys to values; \<open>World_Checkpoints\<close>: sequences of calls.

  \<^bold>\<open>Theories and sources: blocks.\<close>
  \<^item> \<open>Gas_Limit\<close> (\<^verbatim>\<open>block/gas_limit.go\<close>): \<open>IsValid\<close>, \<open>Qualify\<close> and \<open>Adjust\<close> on 64 bits.
  \<^item> \<open>Scheduler\<close> (\<^verbatim>\<open>consensus/poal/sched.go\<close>): \<open>NewScheduler\<close>, \<open>Schedule\<close>, \<open>IsTheTime\<close> and \<open>Updates\<close>.

  \<^bold>\<open>What is shown.\<close> The counting tracers and \<open>4byteTracer\<close> report exactly the histogram of the trace.
  \<open>prestateTracer\<close> records exactly the accessed accounts and slots with their values at the
  first access. \<open>callTracer\<close> reports the tree of calls of an execution, and \<open>evmdisTracer\<close> the tree of
  instructions that its pure counterpart builds. In this theory: eight of the nine tracers never
  throw or panic, errors are final, a stop takes effect, and what the machine writes to memory and
  prints as a number is what a tracer reads. Four properties describe
  defects: a wrong callee is blamed, an allowance is overwritten, an instruction is lost after a call,
  and a storage access in a contract not looked up before ends the trace.

  The trie is a map, its root hash is a function of this map alone, and cached hashes are never stale. The
  stacked map and the state behave like a map and a function from keys to values; going back to a checkpoint restores
  them, and no type assertion fails. Energy grows with time whether or not it is settled in between, up to one unit.
  A packer's gas limit is valid and as close to its target as possible. The scheduler finds the next turn of a
  proposer, exactly when there is one, and scores the missed turns.

  \<^bold>\<open>Bounds.\<close> Gas, cost and depth are assumed below \<open>2 ^ 32\<close> where they are added as JavaScript numbers, so that
  no rounding takes place; offsets in memory below \<open>2 ^ 31\<close> where an exact window is claimed, which is
  the range of the engine's integers. \<open>tree_of\<close> follows references at most as often as there
  are objects; \<open>evmdis_refines_trees\<close> shows that this is enough on every run. Operations of the trie and the search of the
  scheduler are partial functions; their properties show that they return.

  \<^bold>\<open>Parameters.\<close> RLP, the hash functions, the databases, the bounded caches and the JavaScript engine are third-party code.
  They are arguments of the definitions (records \<open>host\<close>, \<open>hash_env\<close>, \<open>database\<close>, \<open>env\<close>). The trie is verified for any
  encoding and hash function. The state relies on \<open>serves\<close> (the databases store a world) and \<open>arc_law\<close> (a cache returns
  what was put into it).

  \<^bold>\<open>Not modelled.\<close> The engine itself and the code that sets up its objects, \<open>contract.getValue\<close> and
  \<open>getInput\<close> (no tracer uses them), the interpreter and the gas tables (the tracers are verified for every
  sequence of captures or for the stated class), the decoding of stored trie nodes, iterators and proofs, the stage of a
  state and its commit, transactions, networking, databases and HTTP. \<^verbatim>\<open>swagger-ui-bundle.js\<close> is a minified third-party file.
\<close>

section \<open>The tracers in the driver\<close>

text \<open>What the tracers that read stack and memory rely on.\<close>

definition sane_log :: "host \<Rightarrow> log_obj \<Rightarrow> bool" where
  "sane_log h l = call_ok h l"

lemma sane_log_ok:
  assumes "sane_log h l"
  shows "call_ok h l" "fourbyte_ok h l" "dis_ok h l"
  using assms call_ok_numbers(6) [of h l]
  by (simp_all add: sane_log_def call_ok_def fourbyte_ok_def dis_ok_def)

lemma event_ok_mono:
  "(\<And>l. P l \<Longrightarrow> Q l) \<Longrightarrow> list_all (event_ok P) evs \<Longrightarrow> list_all (event_ok Q) evs"
  by (induction evs rule: state_logs.induct) auto

definition quiet :: "'s tracer_obj \<Rightarrow> event list \<Rightarrow> bool" where
  "quiet T evs =
     (panicked (captures T evs (New T)) = None \<and>
      (terr (captures T evs (New T)) = None \<or>
       (\<exists>r. terr (captures T evs (New T)) = Some (Interrupted r))))"

text \<open>C23: On every sequence of capture calls with depths from 1, gas values below \<open>2 ^ 32\<close> and stack items
  that are not negative, none of \<open>noopTracer\<close>, \<open>opcountTracer\<close>, \<open>unigramTracer\<close>, \<open>bigramTracer\<close>,
  \<open>trigramTracer\<close>, \<open>4byteTracer\<close>, \<open>callTracer\<close> and \<open>evmdisTracer\<close> panics, and none records an error other
  than a requested interruption.\<close>

theorem tracers_are_quiet:
  assumes "list_all (event_ok (sane_log h)) evs"
  shows "quiet noopTracer evs \<and> quiet opcountTracer evs \<and> quiet unigramTracer evs \<and>
    quiet (bigramTracer h) evs \<and> quiet (trigramTracer h) evs \<and> quiet (fourbyteTracer h) evs \<and>
    quiet (callTracer h) evs \<and> quiet (evmdisTracer h) evs"
proof -
  have ok: "list_all (event_ok (fourbyte_ok h)) evs" "list_all (event_ok (call_ok h)) evs"
    "list_all (event_ok (dis_ok h)) evs"
    by (rule event_ok_mono [OF _ assms], erule sane_log_ok)+
  note any = list_all_event_ok_True [of evs]
  show ?thesis unfolding quiet_def
    by (intro conjI noop_safe.captures_safe(1,2) opcount_safe.captures_safe(1,2) unigram_safe.captures_safe(1,2)
        bigram_safe.captures_safe(1,2) trigram_safe.captures_safe(1,2) any
        fourbyte_safe.captures_safe(1,2) call_safe.captures_safe(1,2) evmdis_safe.captures_safe(1,2) ok)
qed

theorem tracers_are_quiet_witness:
  "quiet (callTracer ref_host) [sample_call 1, EvFault (\<lambda>_. call_frame) sample_db ''out of gas''] \<and>
   quiet (evmdisTracer ref_host) [sample_call 1, EvFault (\<lambda>_. call_frame) sample_db ''out of gas'']"
proof -
  have "list_all (event_ok (sane_log ref_host)) [sample_call 1, EvFault (\<lambda>_. call_frame) sample_db ''out of gas'']"
    by (simp add: sample_call_def sane_log_def call_ok_def ref_duk_numbers evm_log_def args_log_def call_frame_def)
  from tracers_are_quiet [OF this] show ?thesis by simp
qed

text \<open>C24: An error ends the tracing: after a method of the tracer has thrown, no later capture call runs
  JavaScript or changes the error, and \<open>GetResult\<close> reports it unless \<open>result\<close> throws itself.\<close>

theorem driver_error_is_final:
  assumes "terr j = Some e"
  shows "tracerObject (captures T evs j) = tracerObject j \<and> terr (captures T evs j) = Some e \<and>
    (snd (GetResult T db (captures T evs j)) = Some e \<or>
     (\<exists>e'. snd (GetResult T db (captures T evs j)) = Some (InMethod ''result'' e')))"
  using captures_after_error [OF assms, of T evs] by (simp add: GetResult_def split: outcome.split)

theorem driver_error_is_final_witness:
  "terr (captures noopTracer [sample_state 1 1, EvStop None]
     ((New noopTracer)\<lparr>terr := Some (InMethod ''step'' TypeError)\<rparr>)) = Some (InMethod ''step'' TypeError)"
  using driver_error_is_final [of "(New noopTracer)\<lparr>terr := Some (InMethod ''step'' TypeError)\<rparr>"
      "InMethod ''step'' TypeError" noopTracer "[sample_state 1 1, EvStop None]" sample_db]
  by simp

text \<open>C25: After \<open>Stop\<close> no state reaches the tracer: whatever states are captured, the object stays as it is, and
  the first of them records the given reason as the error of the trace.\<close>

theorem driver_stop_halts:
  assumes "terr j = None" "panicked j = None"
  shows "tracerObject (captures T (EvStop (Some r) # EvState H db a # map (\<lambda>(H, db, a). EvState H db a) ps) j) =
      tracerObject j \<and>
    terr (captures T (EvStop (Some r) # EvState H db a # map (\<lambda>(H, db, a). EvState H db a) ps) j) =
      Some (Interrupted r)"
proof -
  let ?j = "capture T (EvState H db a) (capture T (EvStop (Some r)) j)"
  have "terr ?j = Some (Interrupted r)" "tracerObject ?j = tracerObject j" "panicked ?j = None"
    using assms by (simp_all add: capture_defs)
  then show ?thesis
    using captures_after_error [of ?j "Interrupted r" T "map (\<lambda>(H, db, a). EvState H db a) ps"] assms
    by (simp add: Stop_def)
qed

theorem driver_stop_halts_witness:
  "terr (captures opcountTracer [EvStop (Some ''timeout''), sample_state 1 1] (New opcountTracer)) =
     Some (Interrupted ''timeout'')"
  using driver_stop_halts [of "New opcountTracer" opcountTracer "''timeout''" "\<lambda>_. nil_frame" sample_db
      "\<lparr>a_block = 1, a_pc = 0, a_op = 1, a_gas = 100, a_cost = 3, a_frame = 0, a_depth = 1, a_err = None\<rparr>" "[]"]
  by (simp add: sample_state_def New_def del: captures.simps)

section \<open>What a tracer reads\<close>

text \<open>C26: A tracer reads back what the contract wrote: after a \<open>Set\<close> of the EVM memory that does not panic,
  \<open>log.memory.slice\<close> of the written window returns the written bytes.\<close>

theorem memory_write_is_seen:
  assumes "mem_Set offset sz bytes m = Inr m'" "length bytes = unat sz" "0 < sz"
    and "duk_numbers h" "unat offset + unat sz < 2147483648" "lmemory l = m'"
  shows "memory_slice h l (Some (int (unat offset))) (Some (int (unat offset + unat sz))) = Inr bytes"
proof -
  have len: "mem_Len m' = mem_Len m" by (rule mem_Set_Len [OF assms(1)])
  have "unat offset + unat sz < 2 ^ 64" using assms(5) by simp
  then have "unat (offset + sz) = unat offset + unat sz" by (simp add: unat_word_ariths)
  then have le: "unat offset + unat sz \<le> mem_Len m'"
    using assms(1,3) len by (auto simp: mem_Set_def split: if_splits)
  have "mem_Get (int (unat offset)) (int (unat sz)) m' = Inr bytes" by (rule mem_Get_Set [OF assms(1,2)])
  then show ?thesis
    using memory_slice_exact [OF assms(4), of "unat offset" "unat offset + unat sz" l] le assms(5,6)
      mem_Get_in_range [OF le] by simp
qed

theorem memory_write_is_seen_witness:
  "memory_slice ref_host (args_log (\<lambda>_. nil_frame\<lparr>f_memory := \<lparr>store = [0, 7, 8, 0], lastGasCost = 0\<rparr>\<rparr>)
     \<lparr>a_block = 1, a_pc = 0, a_op = 1, a_gas = 100, a_cost = 3, a_frame = 0, a_depth = 1, a_err = None\<rparr>)
     (Some 1) (Some 3) = Inr [7, 8]"
proof -
  have "mem_Set 1 2 [7, 8] \<lparr>store = [0, 0, 0, 0], lastGasCost = 0\<rparr> = Inr \<lparr>store = [0, 7, 8, 0], lastGasCost = 0\<rparr>"
    by (simp add: mem_Set_def mem_Len_def overwrite_def)
  from memory_write_is_seen [OF this, of ref_host] ref_duk_numbers show ?thesis
    by (simp add: args_log_def)
qed



end
